(* ===== verification/Aware_Prelude.thy ===== *)
theory Aware_Prelude
  imports Main "HOL-Library.Word" "HOL-Library.Log_Nat" "HOL-Library.Monad_Syntax"
begin

unbundle bit_operations_syntax

text \<open>
  Shared vocabulary of the development: the machine types of the C sources, the byte-order
  helpers, the hash-table size macro of al_common.h, the address union of al_ip.h, and the
  generic lemmas on lists, options and words the component theories use.

  Conventions. A C function that can run into undefined behaviour (a null or dangling
  dereference, an array access out of range, a read of an indeterminate pointer) returns an
  \<open>option\<close>, and \<open>None\<close> is exactly that outcome. The integer result codes of
  the sources are kept as \<open>int\<close>. Objects live at addresses of type \<open>addr\<close>; every
  component has a heap of its own. The result of an allocation (rte_mempool_get, al_malloc)
  is an argument of the operation: \<open>Some a\<close> is a fresh object, \<open>None\<close> a failure.
  A critical section guarded by a spin lock or a read-write lock is one atomic step.
\<close>

section \<open>Machine types\<close>

type_synonym u8 = "8 word"
type_synonym u16 = "16 word"
type_synonym u32 = "32 word"
type_synonym u48 = "48 word"
type_synonym u64 = "64 word"
type_synonym u128 = "128 word"

type_synonym addr = nat

named_theorems al_defs \<open>definitions of small C helpers and macros, unfolded together\<close>
named_theorems al_keys \<open>facts about hash keys and table indices\<close>

section \<open>Byte order\<close>

text \<open>htons, ntohs and rte_cpu_to_be_16 of a little-endian machine.\<close>

definition bswap16 :: "u16 \<Rightarrow> u16" where
  "bswap16 w = push_bit 8 w OR drop_bit 8 w"

lemma bswap16_bswap16 [simp]: "bswap16 (bswap16 w) = w"
  unfolding bswap16_def
  by (rule bit_word_eqI) (auto simp: bit_simps)

lemma bswap16_inj [simp]: "bswap16 a = bswap16 b \<longleftrightarrow> a = b"
  by (metis bswap16_bswap16)

text \<open>htonl and ntohl.\<close>

definition bswap32 :: "u32 \<Rightarrow> u32" where
  "bswap32 w = push_bit 24 w OR push_bit 8 (w AND 0xff00) OR (drop_bit 8 w AND 0xff00) OR drop_bit 24 w"

section \<open>Bytes in memory\<close>

text \<open>Values stored in memory, lowest byte first, and read back.\<close>

definition bytes_of :: "nat \<Rightarrow> 'a::len word \<Rightarrow> u8 list" where
  "bytes_of n w = map (\<lambda>i. ucast (drop_bit (8 * i) w)) [0..<n]"

primrec word_of :: "u8 list \<Rightarrow> 'a::len word" where
  "word_of [] = 0"
| "word_of (b # bs) = ucast b OR push_bit 8 (word_of bs)"

definition field :: "u8 list \<Rightarrow> nat \<Rightarrow> nat \<Rightarrow> 'a::len word" where
  "field p off n = word_of (take n (drop off p))"

lemma length_bytes_of [simp]: "length (bytes_of n w) = n"
  by (simp add: bytes_of_def)

lemma bytes_of_Suc: "bytes_of (Suc n) w = ucast w # bytes_of n (drop_bit 8 w)"
proof -
  have "[0..<Suc n] = 0 # map Suc [0..<n]" by (simp add: map_Suc_upt upt_conv_Cons)
  then show ?thesis by (simp add: bytes_of_def drop_bit_drop_bit add.commute)
qed

lemma word_of_bytes_of: "(word_of (bytes_of n w) :: 'a::len word) = take_bit (8 * n) w"
proof (induction n arbitrary: w)
  case 0
  then show ?case by (simp add: bytes_of_def)
next
  case (Suc n)
  show ?case
  proof (rule bit_word_eqI)
    fix k assume "k < LENGTH('a)"
    then show "bit (word_of (bytes_of (Suc n) w) :: 'a word) k = bit (take_bit (8 * Suc n) w) k"
      by (cases "k < 8") (auto simp: bytes_of_Suc Suc.IH bit_simps)
  qed
qed

lemma word_of_bytes_full [simp]:
  "word_of (bytes_of 6 (w :: u48)) = w" "word_of (bytes_of 4 (x :: u32)) = x" "word_of (bytes_of 2 (y :: u16)) = y"
  by (simp_all add: word_of_bytes_of take_bit_word_eq_self)

lemma field_append:
  "length xs = off \<Longrightarrow> length ys = n \<Longrightarrow> field (xs @ ys @ zs) off n = word_of ys"
  by (simp add: field_def)

section \<open>Hash table sizes\<close>

text \<open>The macro HASHSIZE: the greatest power of two below or equal to its argument.\<close>

definition HASHSIZE :: "nat \<Rightarrow> nat" where
  "HASHSIZE x = 2 ^ (floorlog 2 x - 1)"

lemma floorlog_pow2: "floorlog 2 (2 ^ n) = Suc n"
  by (simp add: floorlog_def)

lemma HASHSIZE_pow2: "HASHSIZE (2 ^ n) = 2 ^ n"
  by (simp add: HASHSIZE_def floorlog_pow2)

lemma HASHSIZE_le: "0 < x \<Longrightarrow> HASHSIZE x \<le> x"
  using floorlog_bounds [of x 2] by (simp add: HASHSIZE_def)

text \<open>A key masked with one less than a power of two is an index of the table.\<close>

lemma unat_and_mask_less [al_keys]:
  fixes k :: "'a::len word"
  shows "unat (k AND mask n) < 2 ^ n"
proof -
  have "unat (k AND mask n) = take_bit n (unat k)"
    by (simp add: flip: take_bit_eq_mask unsigned_take_bit_eq)
  then show ?thesis by simp
qed

lemma unat_plus1: "unat w + 1 < 2 ^ LENGTH('a) \<Longrightarrow> unat (w + 1) = unat w + 1" for w :: "'a::len word"
  by (simp add: unat_word_ariths)

lemma unat_u8_less: "unat b < 256" for b :: u8
proof -
  have "unat b < 2 ^ LENGTH(8)" by (rule unsigned_less)
  then show ?thesis by simp
qed

lemma ucast_widen [simp]: "ucast (ucast t :: u32) = t" for t :: u8
  by (rule bit_word_eqI) (auto simp: bit_simps)

section \<open>Addresses\<close>

text \<open>
  The union ipcs_t of al_ip.h: sixteen bytes of storage, read as a whole (\<open>ipv6\<close>) or
  through its first four bytes (\<open>ipv4\<close>), which on a little-endian machine are the low
  32 bits.
\<close>

type_synonym ipcs_t = u128

definition ipv4 :: "ipcs_t \<Rightarrow> u32" where
  "ipv4 a = ucast a"

definition set_ipv4 :: "u32 \<Rightarrow> ipcs_t \<Rightarrow> ipcs_t" where
  "set_ipv4 x a = (a AND NOT (mask 32)) OR ucast x"

lemma ipv4_set_ipv4 [simp]: "ipv4 (set_ipv4 x a) = x"
  unfolding ipv4_def set_ipv4_def
  by (rule bit_word_eqI) (auto simp: bit_simps)

definition AF_INET :: u8 where "AF_INET = 2"
definition AF_INET6 :: u8 where "AF_INET6 = 10"

section \<open>Options\<close>

lemma bind_Some_map: "Option.bind x (\<lambda>a. Some (f a)) = map_option f x"
  by (cases x) simp_all

lemma case_sum_upd:
  "case_sum (f(k := v)) g = (case_sum f g)(Inl k := v)"
  "case_sum f (g(j := w)) = (case_sum f g)(Inr j := w)"
  by (auto simp: fun_eq_iff split: sum.splits)

section \<open>Lists\<close>

text \<open>The first element satisfying a predicate removed, or changed in place.\<close>

fun del_first :: "('a \<Rightarrow> bool) \<Rightarrow> 'a list \<Rightarrow> 'a list" where
  "del_first P [] = []"
| "del_first P (x # xs) = (if P x then xs else x # del_first P xs)"

lemma find_Some_in_set: "List.find P xs = Some x \<Longrightarrow> x \<in> set xs \<and> P x"
  by (auto simp: find_Some_iff)

lemma del_first_find:
  "distinct xs \<Longrightarrow> List.find P xs = Some x \<Longrightarrow> del_first P xs = remove1 x xs"
  by (induction xs) (auto split: if_splits dest: find_Some_in_set)

lemma del_first_none: "List.find P xs = None \<Longrightarrow> del_first P xs = xs"
  by (induction xs) (auto split: if_splits)

lemma find_cong_set:
  "(\<And>x. x \<in> set xs \<Longrightarrow> P x = Q x) \<Longrightarrow> List.find P xs = List.find Q xs"
  by (induction xs) auto

lemma find_remove1_other:
  "\<not> P a \<Longrightarrow> List.find P (remove1 a xs) = List.find P xs"
  by (induction xs) auto

lemma ran_upd_None:
  assumes "m x = Some a" "\<And>k. m k = Some a \<Longrightarrow> k = x"
  shows "ran (m(x := None)) = ran m - {a}"
proof (intro set_eqI iffI)
  fix b assume "b \<in> ran (m(x := None))"
  then obtain k where k: "k \<noteq> x" "m k = Some b" by (auto simp: ran_def split: if_splits)
  then have "b \<noteq> a" using assms(2) by blast
  then show "b \<in> ran m - {a}" using k(2) by (simp add: ranI)
next
  fix b assume "b \<in> ran m - {a}"
  then obtain k where k: "m k = Some b" "b \<noteq> a" by (auto simp: ran_def)
  then have "(m(x := None)) k = Some b" using assms(1) by auto
  then show "b \<in> ran (m(x := None))" by (rule ranI)
qed

end
