(* ===== verification/Ether_Text.thy ===== *)
theory Ether_Text
  imports Aware_Prelude
begin

text \<open>
  al_ether_aton of al_arp.c: the parser of textual MAC addresses, six groups of a byte or three
  groups of two bytes. Strings are lists of characters up to the terminating zero; a pointer
  into the string is the rest of it. \<open>strtoul16\<close> is strtoul of the C library with base 16.
\<close>

section \<open>Operations\<close>

definition hexval :: "char \<Rightarrow> nat option" where
  "hexval c =
     (let n = of_char c :: nat
      in if 48 \<le> n \<and> n \<le> 57 then Some (n - 48)
         else if 97 \<le> n \<and> n \<le> 102 then Some (n - 87)
         else if 65 \<le> n \<and> n \<le> 70 then Some (n - 55)
         else None)"

definition isspace :: "char \<Rightarrow> bool" where
  "isspace c = (let n = of_char c :: nat in n = 32 \<or> 9 \<le> n \<and> n \<le> 13)"

fun hexdigits :: "nat \<Rightarrow> string \<Rightarrow> nat \<times> string" where
  "hexdigits v [] = (v, [])"
| "hexdigits v (c # cs) = (case hexval c of None \<Rightarrow> (v, c # cs) | Some d \<Rightarrow> hexdigits (16 * v + d) cs)"

definition starts_hex :: "string \<Rightarrow> bool" where
  "starts_hex s = (case s of [] \<Rightarrow> False | c # _ \<Rightarrow> hexval c \<noteq> None)"

text \<open>The value, the rest of the string, and whether errno was set to ERANGE.\<close>

definition strtoul16 :: "string \<Rightarrow> nat \<times> string \<times> bool" where
  "strtoul16 a =
     (let s = dropWhile isspace a;
          neg = (s \<noteq> [] \<and> hd s = CHR ''-'');
          s1 = (if s \<noteq> [] \<and> (hd s = CHR ''-'' \<or> hd s = CHR ''+'') then tl s else s);
          s2 = (if 2 \<le> length s1 \<and> s1 ! 0 = CHR ''0'' \<and> (s1 ! 1 = CHR ''x'' \<or> s1 ! 1 = CHR ''X'') \<and> starts_hex (drop 2 s1)
                then drop 2 s1 else s1)
      in if \<not> starts_hex s2 then (0, a, False)
         else (let (v, e) = hexdigits 0 s2
               in if 2 ^ 64 \<le> v then (2 ^ 64 - 1, e, True)
                  else (if neg then (2 ^ 64 - v) mod 2 ^ 64 else v, e, False)))"

lemma hexdigits_length: "length (snd (hexdigits v s)) \<le> length s"
proof (induction v s rule: hexdigits.induct)
  case (2 v c cs)
  then show ?case by (auto split: option.splits)
qed simp

lemma strtoul16_length: "strtoul16 a = (v, e, err) \<Longrightarrow> length e \<le> length a"
proof -
  assume a: "strtoul16 a = (v, e, err)"
  define s where "s = dropWhile isspace a"
  define s1 where "s1 = (if s \<noteq> [] \<and> (hd s = CHR ''-'' \<or> hd s = CHR ''+'') then tl s else s)"
  define s2 where "s2 = (if 2 \<le> length s1 \<and> s1 ! 0 = CHR ''0'' \<and> (s1 ! 1 = CHR ''x'' \<or> s1 ! 1 = CHR ''X'') \<and>
    starts_hex (drop 2 s1) then drop 2 s1 else s1)"
  have "length s \<le> length a" unfolding s_def by (rule length_dropWhile_le)
  moreover have "length s1 \<le> length s" by (simp add: s1_def)
  moreover have "length s2 \<le> length s1" by (simp add: s2_def)
  ultimately have "length s2 \<le> length a" by linarith
  then have "length (snd (hexdigits 0 s2)) \<le> length a" using hexdigits_length [of 0 s2] by linarith
  moreover have "e = a \<or> e = snd (hexdigits 0 s2)"
    using a unfolding strtoul16_def Let_def s_def [symmetric] s1_def [symmetric] s2_def [symmetric]
    by (cases "hexdigits 0 s2") (simp split: if_splits)
  ultimately show ?thesis by auto
qed

text \<open>The loop that reads the groups: the values read and where the last one ended.\<close>

function aton_loop :: "nat \<Rightarrow> string \<Rightarrow> nat list \<Rightarrow> (nat list \<times> string) option" where
  "aton_loop i a vs =
     (case strtoul16 a of
        (v, e, err) \<Rightarrow>
          if err \<or> e = a \<or> (e \<noteq> [] \<and> hd e \<noteq> CHR '':'') then None
          else if Suc i \<noteq> 6 \<and> e \<noteq> [] then aton_loop (Suc i) (tl e) (vs @ [v])
          else Some (vs @ [v], e))"
  by pat_completeness auto

termination aton_loop
proof (relation "measure (\<lambda>(i, a, vs). length a)", goal_cases)
  case (2 i a vs v y e err)
  then have "strtoul16 a = (v, e, err)" by simp
  then have "length e \<le> length a" by (rule strtoul16_length)
  moreover have "e \<noteq> []" using 2 by simp
  ultimately show ?case by (cases e) auto
qed simp

declare aton_loop.simps [simp del]

text \<open>The bytes of the address, or None when the text is refused.\<close>

definition al_ether_aton :: "string \<Rightarrow> u8 list option" where
  "al_ether_aton a =
     (case aton_loop 0 a [] of
        None \<Rightarrow> None
      | Some (vs, e) \<Rightarrow>
          if e \<noteq> [] then None
          else if length vs = 6 then
            (if \<exists>v \<in> set vs. 255 < v then None else Some (map of_nat vs))
          else if length vs = 3 then
            (if \<exists>v \<in> set vs. 65535 < v then None
             else Some (concat (map (\<lambda>v. [of_nat (v div 256), of_nat (v mod 256)]) vs)))
          else None)"

section \<open>Round trip\<close>

text \<open>The text ETHER_ADDR_FORMART (\<open>%02x:%02x:...\<close>) prints for a list of bytes.\<close>

definition hexchar :: "nat \<Rightarrow> char" where
  "hexchar n = ''0123456789abcdef'' ! n"

definition hex2 :: "u8 \<Rightarrow> string" where
  "hex2 b = [hexchar (unat b div 16), hexchar (unat b mod 16)]"

fun ether_text :: "u8 list \<Rightarrow> string" where
  "ether_text [] = []"
| "ether_text [b] = hex2 b"
| "ether_text (b # c # bs) = hex2 b @ CHR '':'' # ether_text (c # bs)"

lemma hexchar_facts:
  assumes "n < 16"
  shows "hexval (hexchar n) = Some n" "\<not> isspace (hexchar n)" "hexchar n \<notin> set ''-+xX:''"
proof -
  have "n \<in> {0, 1, 2, 3, 4, 5, 6, 7, 8, 9, 10, 11, 12, 13, 14, 15}" using assms by (simp add: numeral_eq_Suc less_Suc_eq)
  then show "hexval (hexchar n) = Some n" "\<not> isspace (hexchar n)" "hexchar n \<notin> set ''-+xX:''"
    by (elim insertE emptyE; simp add: hexchar_def hexval_def isspace_def)+
qed

lemma hexval_colon [simp]: "hexval (CHR '':'') = None"
  by (simp add: hexval_def)

lemma strtoul16_hex2:
  assumes "rest = [] \<or> hd rest = CHR '':''"
  shows "strtoul16 (hex2 b @ rest) = (unat b, rest, False)"
proof -
  have lt: "unat b < 256" using unat_u8_less [of b] by simp
  let ?x = "unat b div 16" and ?y = "unat b mod 16"
  have d: "?x < 16" "?y < 16" using lt by auto
  note x = hexchar_facts [OF d(1)] and y = hexchar_facts [OF d(2)]
  have "hexdigits (16 * ?x + ?y) rest = (16 * ?x + ?y, rest)"
    using assms by (cases rest) auto
  then have "hexdigits 0 (hex2 b @ rest) = (unat b, rest)"
    using x(1) y(1) by (simp add: hex2_def)
  then show ?thesis
    using x y lt by (simp add: strtoul16_def hex2_def Let_def starts_hex_def)
qed

lemma ether_text_nonempty: "bs \<noteq> [] \<Longrightarrow> ether_text bs \<noteq> []"
  by (cases bs rule: ether_text.cases) (simp_all add: hex2_def)

lemma aton_loop_text:
  "bs \<noteq> [] \<Longrightarrow> i + length bs \<le> 6 \<Longrightarrow> aton_loop i (ether_text bs) vs = Some (vs @ map unat bs, [])"
proof (induction bs arbitrary: i vs rule: ether_text.induct)
  case (2 b)
  then show ?case
    using strtoul16_hex2 [of "[]" b] by (subst aton_loop.simps) (simp add: hex2_def)
next
  case (3 b c bs)
  let ?r = "CHR '':'' # ether_text (c # bs)"
  have s: "strtoul16 (hex2 b @ ?r) = (unat b, ?r, False)" by (rule strtoul16_hex2) simp
  have "aton_loop (Suc i) (ether_text (c # bs)) (vs @ [unat b]) = Some ((vs @ [unat b]) @ map unat (c # bs), [])"
    using "3.prems" by (intro "3.IH") auto
  moreover have "?r \<noteq> hex2 b @ ?r" by (simp add: hex2_def)
  ultimately show ?case
    using s "3.prems"(2) by (subst aton_loop.simps) (simp add: hex2_def)
qed simp

section \<open>Properties\<close>

text \<open>
  C24: al_ether_aton reads back the text printed for a MAC address: six bytes in the form
  xx:xx:xx:xx:xx:xx parse to these six bytes.
\<close>

theorem ether_aton_round_trip:
  assumes "length bs = 6"
  shows "al_ether_aton (ether_text bs) = Some bs"
proof -
  have "bs \<noteq> []" using assms by auto
  then have "aton_loop 0 (ether_text bs) [] = Some (map unat bs, [])"
    using aton_loop_text [of bs 0 "[]"] assms by simp
  moreover have "\<not> 255 < unat b" for b :: u8 using unat_u8_less [of b] by simp
  moreover have "map of_nat (map unat bs) = bs" by (simp add: comp_def)
  ultimately show ?thesis using assms by (simp add: al_ether_aton_def)
qed

theorem ether_aton_round_trip_witness:
  "al_ether_aton ''00:1b:21:ff:0a:9c'' = Some [0x00, 0x1b, 0x21, 0xff, 0x0a, 0x9c]"
proof -
  have "ether_text [0x00, 0x1b, 0x21, 0xff, 0x0a, 0x9c] = ''00:1b:21:ff:0a:9c''"
    by (simp add: hex2_def hexchar_def)
  then show ?thesis using ether_aton_round_trip [of "[0x00, 0x1b, 0x21, 0xff, 0x0a, 0x9c]"] by simp
qed

end
