(* ===== verification/Chain_Interface.thy ===== *)
theory Chain_Interface
  imports Aware_Prelude
begin

text \<open>
  The contract between the intrusive lists of hlist.h and the hash tables built on them
  (sessions, five-tuples, ARP and NDP entries, MAC ports). \<open>chain_lists\<close> is what a table
  relies on: a family of chains, one for every bucket, with search, insertion at the head and
  removal of a member. The table-level lemmas are proved once from it. \<open>keyed_table\<close> is
  the contract the tables in turn promise: they behave as finite maps.
\<close>

section \<open>Chains\<close>

locale chain_lists =
  fixes rep :: "'h \<Rightarrow> ('b \<Rightarrow> 'a list) \<Rightarrow> bool"
    and find_in :: "('a \<Rightarrow> bool) \<Rightarrow> 'h \<Rightarrow> 'b \<Rightarrow> 'a option option"
    and add_head :: "'a \<Rightarrow> 'b \<Rightarrow> 'h \<Rightarrow> 'h"
    and del :: "'a \<Rightarrow> 'h \<Rightarrow> 'h option"
  assumes rep_distinct: "rep h L \<Longrightarrow> distinct (L b)"
    and rep_disjoint: "rep h L \<Longrightarrow> a \<in> set (L b) \<Longrightarrow> a \<in> set (L c) \<Longrightarrow> b = c"
    and rep_find: "rep h L \<Longrightarrow> find_in P h b = Some (List.find P (L b))"
    and rep_add: "rep h L \<Longrightarrow> (\<And>c. a \<notin> set (L c)) \<Longrightarrow> rep (add_head a b h) (L(b := a # L b))"
    and rep_del: "rep h L \<Longrightarrow> a \<in> set (L b) \<Longrightarrow>
      \<exists>h'. del a h = Some h' \<and> rep h' (L(b := remove1 a (L b)))"

section \<open>Keyed chains\<close>

text \<open>
  \<open>keyed_rep rep key bkt h obj L\<close>: the buckets \<open>bkt\<close> can select hold objects whose
  key selects that bucket. A key may be stored more than once; the entries of a key form a
  stack, the one inserted last in front (\<open>chain_stack\<close>). A search returns the top of the
  stack (\<open>chain_map\<close>). Buckets outside the range of \<open>bkt\<close> belong to other tables that
  share the pool of nodes.
\<close>

definition keyed_rep ::
  "('h \<Rightarrow> ('b \<Rightarrow> 'a list) \<Rightarrow> bool) \<Rightarrow> ('e \<Rightarrow> 'k) \<Rightarrow> ('k \<Rightarrow> 'b) \<Rightarrow> 'h \<Rightarrow> ('a \<Rightarrow> 'e) \<Rightarrow>
   ('b \<Rightarrow> 'a list) \<Rightarrow> bool" where
  "keyed_rep rep key bkt h obj L \<longleftrightarrow>
     rep h L \<and> (\<forall>k. \<forall>a \<in> set (L (bkt k)). bkt (key (obj a)) = bkt k)"

definition chain_stack ::
  "('e \<Rightarrow> 'k) \<Rightarrow> ('k \<Rightarrow> 'b) \<Rightarrow> ('a \<Rightarrow> 'e) \<Rightarrow> ('b \<Rightarrow> 'a list) \<Rightarrow> 'k \<Rightarrow> 'a list" where
  "chain_stack key bkt obj L k = filter (\<lambda>a. key (obj a) = k) (L (bkt k))"

definition top_of :: "'a list \<Rightarrow> 'a option" where
  "top_of xs = (case xs of [] \<Rightarrow> None | x # _ \<Rightarrow> Some x)"

definition chain_map ::
  "('e \<Rightarrow> 'k) \<Rightarrow> ('k \<Rightarrow> 'b) \<Rightarrow> ('a \<Rightarrow> 'e) \<Rightarrow> ('b \<Rightarrow> 'a list) \<Rightarrow> 'k \<Rightarrow> 'a option" where
  "chain_map key bkt obj L k = top_of (chain_stack key bkt obj L k)"

definition chain_fresh :: "'a \<Rightarrow> ('b \<Rightarrow> 'a list) \<Rightarrow> bool" where
  "chain_fresh a L \<longleftrightarrow> (\<forall>b. a \<notin> set (L b))"

lemma top_of_simps [simp]: "top_of [] = None" "top_of (x # xs) = Some x"
  by (simp_all add: top_of_def)

lemma top_of_filter: "top_of (filter P xs) = List.find P xs"
  by (induction xs) auto

lemma top_of_SomeD: "top_of xs = Some x \<Longrightarrow> x \<in> set xs"
  by (cases xs) auto

lemma chain_stack_set: "a \<in> set (chain_stack key bkt obj L k) \<longleftrightarrow> a \<in> set (L (bkt k)) \<and> key (obj a) = k"
  by (auto simp: chain_stack_def)

lemma chain_map_SomeD:
  "chain_map key bkt obj L k = Some a \<Longrightarrow> a \<in> set (L (bkt k)) \<and> key (obj a) = k"
  by (auto simp: chain_map_def dest!: top_of_SomeD simp: chain_stack_set)

lemma chain_stack_obj_upd:
  assumes "chain_fresh a L"
  shows "chain_stack key bkt (obj(a := e)) L = chain_stack key bkt obj L"
  using assms by (intro ext) (auto simp: chain_stack_def chain_fresh_def intro!: filter_cong)

lemma chain_stack_same_key:
  assumes "key e = key (obj a)"
  shows "chain_stack key bkt (obj(a := e)) L = chain_stack key bkt obj L"
  using assms by (intro ext) (auto simp: chain_stack_def intro!: filter_cong)

lemma keyed_rep_same_key:
  assumes "keyed_rep rep key bkt h obj L" "key e = key (obj a)"
  shows "keyed_rep rep key bkt h (obj(a := e)) L"
  using assms by (auto simp: keyed_rep_def)

lemma chain_stack_add:
  assumes "chain_fresh a L"
  shows "chain_stack key bkt (obj(a := e)) (L(bkt (key e) := a # L (bkt (key e))))
    = (chain_stack key bkt obj L)(key e := a # chain_stack key bkt obj L (key e))"
proof
  fix k
  have "filter (\<lambda>x. key ((obj(a := e)) x) = k) (L b) = filter (\<lambda>x. key (obj x) = k) (L b)" for b
    using assms by (intro filter_cong) (auto simp: chain_fresh_def)
  then show "chain_stack key bkt (obj(a := e)) (L(bkt (key e) := a # L (bkt (key e)))) k
    = ((chain_stack key bkt obj L)(key e := a # chain_stack key bkt obj L (key e))) k"
    by (cases "k = key e"; cases "bkt k = bkt (key e)") (simp_all add: chain_stack_def del: fun_upd_apply add: fun_upd_same fun_upd_other)
qed

lemma chain_stack_del:
  assumes "chain_stack key bkt obj L k = a # as"
  shows "chain_stack key bkt obj (L(bkt k := remove1 a (L (bkt k)))) = (chain_stack key bkt obj L)(k := as)"
proof
  fix k'
  have a: "key (obj a) = k" using chain_stack_set [of a key bkt obj L k] assms by simp
  then have "k' \<noteq> k \<Longrightarrow> a \<notin> set (filter (\<lambda>x. key (obj x) = k') (L (bkt k)))" by simp
  then show "chain_stack key bkt obj (L(bkt k := remove1 a (L (bkt k)))) k'
    = ((chain_stack key bkt obj L)(k := as)) k'"
    using assms by (auto simp: chain_stack_def filter_remove1 remove1_idem simp del: set_filter)
qed

lemma chain_stack_other:
  "b \<notin> range bkt \<Longrightarrow> chain_stack key bkt obj (L(b := xs)) = chain_stack key bkt obj L"
  by (intro ext) (auto simp: chain_stack_def)

context chain_lists
begin

lemma keyed_find:
  assumes "keyed_rep rep key bkt h obj L"
  shows "find_in (\<lambda>a. key (obj a) = k) h (bkt k) = Some (chain_map key bkt obj L k)"
  using assms by (simp add: keyed_rep_def chain_map_def chain_stack_def top_of_filter rep_find)

lemma keyed_add:
  assumes "keyed_rep rep key bkt h obj L" "chain_fresh a L"
  shows "keyed_rep rep key bkt (add_head a (bkt (key e)) h) (obj(a := e))
    (L(bkt (key e) := a # L (bkt (key e))))"
proof -
  have "rep (add_head a (bkt (key e)) h) (L(bkt (key e) := a # L (bkt (key e))))"
    using assms by (intro rep_add) (auto simp: keyed_rep_def chain_fresh_def)
  then show ?thesis
    using assms by (auto simp: keyed_rep_def chain_fresh_def)
qed

lemma keyed_add_other:
  assumes "keyed_rep rep key bkt h obj L" "chain_fresh a L" "b \<notin> range bkt"
  shows "keyed_rep rep key bkt (add_head a b h) (obj(a := e)) (L(b := a # L b))"
proof -
  have "rep (add_head a b h) (L(b := a # L b))"
    using assms by (intro rep_add) (auto simp: keyed_rep_def chain_fresh_def)
  moreover have "bkt k \<noteq> b" for k using assms(3) by auto
  ultimately show ?thesis
    using assms(1,2) by (auto simp: keyed_rep_def chain_fresh_def)
qed

lemma keyed_del:
  assumes "keyed_rep rep key bkt h obj L" "a \<in> set (L b)"
  obtains h' where "del a h = Some h'" "rep h' (L(b := remove1 a (L b)))"
    "keyed_rep rep key bkt h' obj (L(b := remove1 a (L b)))"
proof -
  from assms rep_del [of h L a b] obtain h' where
    h': "del a h = Some h'" "rep h' (L(b := remove1 a (L b)))"
    by (auto simp: keyed_rep_def)
  have "keyed_rep rep key bkt h' obj (L(b := remove1 a (L b)))"
    using h'(2) assms(1) by (auto simp: keyed_rep_def dest: notin_set_remove1)
  with h' show ?thesis by (rule that)
qed

lemma keyed_fresh_after_del:
  assumes "rep h L" "a \<in> set (L b)"
  shows "chain_fresh a (L(b := remove1 a (L b)))"
  unfolding chain_fresh_def
proof
  fix c
  from assms have "distinct (L b)" "a \<in> set (L c) \<Longrightarrow> c = b"
    by (blast intro: rep_distinct rep_disjoint)+
  then show "a \<notin> set ((L(b := remove1 a (L b))) c)" by auto
qed

end

section \<open>Tables as maps\<close>

text \<open>
  What a table promises to its users: states of the table represent finite maps, a lookup
  returns the map's value, and storing a value under a key updates the map there and nowhere
  else. \<open>fresh\<close> is what the allocation of a new entry has to satisfy.
\<close>

locale keyed_table =
  fixes tab :: "'t \<Rightarrow> ('k \<rightharpoonup> 'v) \<Rightarrow> bool"
    and fresh :: "'x \<Rightarrow> 't \<Rightarrow> bool"
    and lookup :: "'t \<Rightarrow> 'k \<Rightarrow> 'v option option"
    and store :: "'x \<Rightarrow> 'k \<Rightarrow> 'v \<Rightarrow> 't \<Rightarrow> 't option"
  assumes tab_lookup: "tab t m \<Longrightarrow> lookup t k = Some (m k)"
    and tab_store: "tab t m \<Longrightarrow> fresh x t \<Longrightarrow> \<exists>t'. store x k v t = Some t' \<and> tab t' (m(k \<mapsto> v))"
begin

lemma tab_unique: "tab t m \<Longrightarrow> tab t m' \<Longrightarrow> m = m'"
  using tab_lookup [of t m] tab_lookup [of t m'] by (intro ext) simp

lemma lookup_after_store:
  assumes "tab t m" "fresh x t"
  shows "\<exists>t'. store x k v t = Some t' \<and> lookup t' k = Some (Some v)
    \<and> (\<forall>k'. k' \<noteq> k \<longrightarrow> lookup t' k' = lookup t k')"
proof -
  from tab_store [OF assms] obtain t' where "store x k v t = Some t'" "tab t' (m(k \<mapsto> v))"
    by blast
  then show ?thesis using assms by (auto simp: tab_lookup)
qed

lemma store_overwrites:
  assumes "tab t m" "fresh x t" "store x k v t = Some t1" "fresh y t1" "store y k w t1 = Some t2"
    "fresh z t" "store z k w t = Some t3"
  shows "lookup t2 k' = lookup t3 k'"
proof -
  have 1: "tab t1 (m(k \<mapsto> v))" using tab_store [OF assms(1,2), of k v] assms(3) by auto
  have 2: "tab t2 (m(k \<mapsto> w))" using tab_store [OF 1 assms(4), of k w] assms(5) by auto
  have 3: "tab t3 (m(k \<mapsto> w))" using tab_store [OF assms(1,6), of k w] assms(7) by auto
  show ?thesis using tab_lookup [OF 2] tab_lookup [OF 3] by simp
qed

end

text \<open>
  Tables that do not check for an existing entry (sessions, five-tuples) keep a stack of
  values for every key: insertion pushes, removal pops and reports whether there was
  something to pop, and a lookup sees the top.
\<close>

locale stack_table =
  fixes stab :: "'t \<Rightarrow> ('k \<Rightarrow> 'v list) \<Rightarrow> bool"
    and sfresh :: "'x \<Rightarrow> 't \<Rightarrow> bool"
    and slookup :: "'t \<Rightarrow> 'k \<Rightarrow> 'v option option"
    and push :: "'x \<Rightarrow> 'k \<Rightarrow> 'v \<Rightarrow> 't \<Rightarrow> 't option"
    and pop :: "'k \<Rightarrow> 't \<Rightarrow> (bool \<times> 't) option"
  assumes stab_lookup: "stab t S \<Longrightarrow> slookup t k = Some (top_of (S k))"
    and stab_push: "stab t S \<Longrightarrow> sfresh x t \<Longrightarrow>
      \<exists>t'. push x k v t = Some t' \<and> stab t' (S(k := v # S k))"
    and stab_pop: "stab t S \<Longrightarrow> \<exists>t'. pop k t = Some (S k \<noteq> [], t') \<and> stab t' (S(k := tl (S k)))"
begin

lemma lookup_after_push:
  assumes "stab t S" "sfresh x t"
  shows "\<exists>t'. push x k v t = Some t' \<and> slookup t' k = Some (Some v)
    \<and> (\<forall>k'. k' \<noteq> k \<longrightarrow> slookup t' k' = slookup t k')"
proof -
  from stab_push [OF assms] obtain t' where "push x k v t = Some t'" "stab t' (S(k := v # S k))"
    by blast
  then show ?thesis using assms by (auto simp: stab_lookup)
qed

lemma pop_after_push:
  assumes "stab t S" "sfresh x t"
  shows "\<exists>t1 t2. push x k v t = Some t1 \<and> pop k t1 = Some (True, t2)
    \<and> (\<forall>k'. slookup t2 k' = slookup t k')"
proof -
  from stab_push [OF assms] obtain t1 where t1: "push x k v t = Some t1" "stab t1 (S(k := v # S k))"
    by blast
  from stab_pop [OF t1(2), of k] obtain t2 where t2: "pop k t1 = Some (True, t2)" "stab t2 S"
    by auto
  have "slookup t2 k' = slookup t k'" for k'
    using stab_lookup [OF t2(2)] stab_lookup [OF assms(1)] by simp
  then show ?thesis using t1(1) t2(1) by blast
qed

lemma pop_none:
  assumes "stab t S" "slookup t k = Some None"
  shows "\<exists>t'. pop k t = Some (False, t') \<and> (\<forall>k'. slookup t' k' = slookup t k')"
proof -
  have "S k = []" using stab_lookup [OF assms(1), of k] assms(2) by (cases "S k") auto
  with stab_pop [OF assms(1), of k] obtain t' where t': "pop k t = Some (False, t')" "stab t' S"
    by (auto simp: fun_upd_idem)
  then show ?thesis using stab_lookup [OF t'(2)] stab_lookup [OF assms(1)] by auto
qed

end

end
