(* ===== verification/Hlist.thy ===== *)
theory Hlist
  imports Chain_Interface
begin

text \<open>
  The intrusive doubly linked lists of alpha/hlist.h at the level of their pointers. A
  \<open>struct hlist_node **\<close> is the location of a list head's \<open>first\<close> field or of a
  node's \<open>next\<close> field (\<open>slot\<close>). The operations are shown to implement lists:
  \<open>heap_is h L\<close> says that the chain of head \<open>b\<close> is \<open>L b\<close>, with every back
  pointer in place.
\<close>

section \<open>Nodes, heads and their fields\<close>

datatype slot = First addr | Next addr

record hnode =
  nxt :: "addr option"
  pprev :: "slot option"

record hheap =
  heads :: "addr \<Rightarrow> addr option"
  nodes :: "addr \<Rightarrow> hnode"

definition set_next :: "addr \<Rightarrow> addr option \<Rightarrow> hheap \<Rightarrow> hheap" where
  "set_next a v h = h\<lparr>nodes := (nodes h)(a := (nodes h a)\<lparr>nxt := v\<rparr>)\<rparr>"

definition set_pprev :: "addr \<Rightarrow> slot option \<Rightarrow> hheap \<Rightarrow> hheap" where
  "set_pprev a v h = h\<lparr>nodes := (nodes h)(a := (nodes h a)\<lparr>pprev := v\<rparr>)\<rparr>"

definition set_first :: "addr \<Rightarrow> addr option \<Rightarrow> hheap \<Rightarrow> hheap" where
  "set_first b v h = h\<lparr>heads := (heads h)(b := v)\<rparr>"

text \<open>Reading and writing through a \<open>struct hlist_node **\<close>.\<close>

fun slot_val :: "hheap \<Rightarrow> slot \<Rightarrow> addr option" where
  "slot_val h (First b) = heads h b"
| "slot_val h (Next a) = nxt (nodes h a)"

fun slot_set :: "slot \<Rightarrow> addr option \<Rightarrow> hheap \<Rightarrow> hheap" where
  "slot_set (First b) v h = set_first b v h"
| "slot_set (Next a) v h = set_next a v h"

section \<open>The operations\<close>

definition INIT_HLIST_HEAD :: "addr \<Rightarrow> hheap \<Rightarrow> hheap" where
  "INIT_HLIST_HEAD b h = set_first b None h"

definition INIT_HLIST_NODE :: "addr \<Rightarrow> hheap \<Rightarrow> hheap" where
  "INIT_HLIST_NODE a h = set_pprev a None (set_next a None h)"

definition hlist_unhashed :: "hheap \<Rightarrow> addr \<Rightarrow> bool" where
  "hlist_unhashed h a \<longleftrightarrow> pprev (nodes h a) = None"

definition hlist_empty :: "hheap \<Rightarrow> addr \<Rightarrow> bool" where
  "hlist_empty h b \<longleftrightarrow> heads h b = None"

text \<open>\<open>__hlist_del\<close>: writes through \<open>pprev\<close>, so a node that is on no list faults.\<close>

definition hlist_unlink :: "addr \<Rightarrow> hheap \<Rightarrow> hheap option" where
  "hlist_unlink n h =
     (case pprev (nodes h n) of
        None \<Rightarrow> None
      | Some s \<Rightarrow>
          (let next = nxt (nodes h n); h1 = slot_set s next h
           in Some (case next of None \<Rightarrow> h1 | Some a \<Rightarrow> set_pprev a (Some s) h1)))"

definition hlist_del :: "addr \<Rightarrow> hheap \<Rightarrow> hheap option" where
  "hlist_del n h = map_option (\<lambda>h. set_pprev n None (set_next n None h)) (hlist_unlink n h)"

definition hlist_del_init :: "addr \<Rightarrow> hheap \<Rightarrow> hheap option" where
  "hlist_del_init n h =
     (if \<not> hlist_unhashed h n then map_option (INIT_HLIST_NODE n) (hlist_unlink n h) else Some h)"

definition hlist_add_head :: "addr \<Rightarrow> addr \<Rightarrow> hheap \<Rightarrow> hheap" where
  "hlist_add_head n b h =
     (let first = heads h b;
          h1 = set_next n first h;
          h2 = (case first of None \<Rightarrow> h1 | Some f \<Rightarrow> set_pprev f (Some (Next n)) h1);
          h3 = set_first b (Some n) h2
      in set_pprev n (Some (First b)) h3)"

definition hlist_add_before :: "addr \<Rightarrow> addr \<Rightarrow> hheap \<Rightarrow> hheap option" where
  "hlist_add_before n next h =
     (let h1 = set_pprev n (pprev (nodes h next)) h;
          h2 = set_next n (Some next) h1;
          h3 = set_pprev next (Some (Next n)) h2
      in case pprev (nodes h3 n) of None \<Rightarrow> None | Some s \<Rightarrow> Some (slot_set s (Some n) h3))"

definition hlist_add_behind :: "addr \<Rightarrow> addr \<Rightarrow> hheap \<Rightarrow> hheap" where
  "hlist_add_behind n prev h =
     (let h1 = set_next n (nxt (nodes h prev)) h;
          h2 = set_next prev (Some n) h1;
          h3 = set_pprev n (Some (Next prev)) h2
      in case nxt (nodes h3 n) of None \<Rightarrow> h3 | Some a \<Rightarrow> set_pprev a (Some (Next n)) h3)"

definition hlist_add_fake :: "addr \<Rightarrow> hheap \<Rightarrow> hheap" where
  "hlist_add_fake n h = set_pprev n (Some (Next n)) h"

definition hlist_move_list :: "addr \<Rightarrow> addr \<Rightarrow> hheap \<Rightarrow> hheap" where
  "hlist_move_list old new h =
     (let h1 = set_first new (heads h old) h;
          h2 = (case heads h1 new of None \<Rightarrow> h1 | Some a \<Rightarrow> set_pprev a (Some (First new)) h1)
      in set_first old None h2)"

text \<open>
  The iteration macros. \<open>hlist_find\<close> is \<open>hlist_for_each_entry\<close> with a body that leaves
  the loop at the first entry satisfying a test, \<open>hlist_for_each\<close> the same macro with a
  body that runs on every entry. \<open>hlist_for_each_safe\<close> is
  \<open>hlist_for_each_entry_safe\<close>: the successor is read before the body runs, and the body may
  change the lists. None of them returns on a cyclic chain.
\<close>

partial_function (option) hlist_find ::
  "(addr \<Rightarrow> bool) \<Rightarrow> hheap \<Rightarrow> addr option \<Rightarrow> addr option option" where
  "hlist_find P h pos =
     (case pos of
        None \<Rightarrow> Some None
      | Some a \<Rightarrow> if P a then Some (Some a) else hlist_find P h (nxt (nodes h a)))"

partial_function (option) hlist_for_each_safe ::
  "('s \<Rightarrow> hheap) \<Rightarrow> (addr \<Rightarrow> 's \<Rightarrow> 's option) \<Rightarrow> addr option \<Rightarrow> 's \<Rightarrow> 's option" where
  "hlist_for_each_safe hp body pos st =
     (case pos of
        None \<Rightarrow> Some st
      | Some a \<Rightarrow>
          Option.bind (body a st)
            (\<lambda>st'. hlist_for_each_safe hp body (nxt (nodes (hp st) a)) st'))"

partial_function (option) hlist_for_each ::
  "('s \<Rightarrow> hheap) \<Rightarrow> (addr \<Rightarrow> 's \<Rightarrow> 's option) \<Rightarrow> addr option \<Rightarrow> 's \<Rightarrow> 's option" where
  "hlist_for_each hp body pos st =
     (case pos of
        None \<Rightarrow> Some st
      | Some a \<Rightarrow>
          Option.bind (body a st)
            (\<lambda>st'. hlist_for_each hp body (nxt (nodes (hp st') a)) st'))"

section \<open>Representation of lists\<close>

fun hseg :: "hheap \<Rightarrow> slot \<Rightarrow> addr list \<Rightarrow> bool" where
  "hseg h s [] \<longleftrightarrow> slot_val h s = None"
| "hseg h s (a # as) \<longleftrightarrow> slot_val h s = Some a \<and> pprev (nodes h a) = Some s \<and> hseg h (Next a) as"

definition heap_is :: "hheap \<Rightarrow> (addr \<Rightarrow> addr list) \<Rightarrow> bool" where
  "heap_is h L \<longleftrightarrow> (\<forall>b. hseg h (First b) (L b))"

fun hpath :: "hheap \<Rightarrow> slot \<Rightarrow> addr list \<Rightarrow> bool" where
  "hpath h s [] \<longleftrightarrow> True"
| "hpath h s (a # as) \<longleftrightarrow> slot_val h s = Some a \<and> pprev (nodes h a) = Some s \<and> hpath h (Next a) as"

definition slot_after :: "slot \<Rightarrow> addr list \<Rightarrow> slot" where
  "slot_after s as = (if as = [] then s else Next (last as))"

lemmas hfield_defs = set_next_def set_pprev_def set_first_def

lemma slot_after_simps [simp]:
  "slot_after s [] = s" "slot_after s (a # as) = slot_after (Next a) as"
  by (auto simp: slot_after_def)

lemma hseg_append: "hseg h s (us @ vs) \<longleftrightarrow> hpath h s us \<and> hseg h (slot_after s us) vs"
  by (induction us arbitrary: s) auto

lemma hseg_pprev_nth:
  "hseg h s xs \<Longrightarrow> i < length xs \<Longrightarrow>
   pprev (nodes h (xs ! i)) = Some (case i of 0 \<Rightarrow> s | Suc j \<Rightarrow> Next (xs ! j))"
proof (induction xs arbitrary: s i)
  case (Cons a xs)
  then show ?case by (cases i) (auto simp: nth_Cons split: nat.splits)
qed simp

text \<open>Following back pointers from a member leads to the head: members lie on one list, once.\<close>

lemma hseg_nth_eq:
  assumes "hseg h (First b) xs" "hseg h (First c) ys"
  shows "i < length xs \<Longrightarrow> j < length ys \<Longrightarrow> xs ! i = ys ! j \<Longrightarrow> i = j \<and> b = c"
proof (induction i arbitrary: j)
  case 0
  then have "pprev (nodes h (ys ! j)) = Some (First b)"
    using hseg_pprev_nth [OF assms(1), of 0] by simp
  then show ?case
    using hseg_pprev_nth [OF assms(2) \<open>j < length ys\<close>] by (auto split: nat.splits)
next
  case (Suc i)
  then have "pprev (nodes h (ys ! j)) = Some (Next (xs ! i))"
    using hseg_pprev_nth [OF assms(1), of "Suc i"] by simp
  then obtain j' where "j = Suc j'" "xs ! i = ys ! j'"
    using hseg_pprev_nth [OF assms(2) \<open>j < length ys\<close>] by (auto split: nat.splits)
  then show ?case using Suc.IH [of j'] Suc.prems by auto
qed

lemma heap_is_distinct: "heap_is h L \<Longrightarrow> distinct (L b)"
  unfolding heap_is_def distinct_conv_nth using hseg_nth_eq by blast

lemma heap_is_disjoint:
  "heap_is h L \<Longrightarrow> a \<in> set (L b) \<Longrightarrow> a \<in> set (L c) \<Longrightarrow> b = c"
  unfolding heap_is_def in_set_conv_nth using hseg_nth_eq by metis

lemma hseg_unique: "hseg h s xs \<Longrightarrow> hseg h s ys \<Longrightarrow> xs = ys"
proof (induction xs arbitrary: s ys)
  case Nil
  then show ?case by (cases ys) auto
next
  case (Cons a xs)
  then show ?case by (cases ys) auto
qed

lemma heap_is_unique: "heap_is h L \<Longrightarrow> heap_is h M \<Longrightarrow> L = M"
  unfolding heap_is_def using hseg_unique by blast

text \<open>
  A segment depends on the slots it runs through and on the back pointers of its nodes only.
\<close>

abbreviation pp :: "hheap \<Rightarrow> addr \<Rightarrow> slot option" where
  "pp h a \<equiv> pprev (nodes h a)"

lemma hseg_cong:
  "slot_val h' s = slot_val h s \<Longrightarrow>
   (\<And>a. a \<in> set xs \<Longrightarrow> slot_val h' (Next a) = slot_val h (Next a) \<and> pp h' a = pp h a) \<Longrightarrow>
   hseg h' s xs = hseg h s xs"
  by (induction xs arbitrary: s) auto

lemma hpath_cong:
  "(\<And>t. t \<in> insert s (Next ` set us) \<Longrightarrow> t \<noteq> slot_after s us \<Longrightarrow> slot_val h' t = slot_val h t) \<Longrightarrow>
   (\<And>a. a \<in> set us \<Longrightarrow> pp h' a = pp h a) \<Longrightarrow> distinct us \<Longrightarrow> s \<notin> Next ` set us \<Longrightarrow>
   hpath h' s us = hpath h s us"
proof (induction us arbitrary: s)
  case (Cons a us)
  have "hpath h' (Next a) us = hpath h (Next a) us"
    using Cons.prems by (intro Cons.IH) auto
  moreover have "s \<noteq> slot_after (Next a) us"
    using Cons.prems(4) by (cases us rule: rev_cases) (auto simp: slot_after_def)
  ultimately show ?case using Cons.prems(1) [of s] Cons.prems(2) by simp
qed simp

lemma hlist_find_seg:
  "hseg h s xs \<Longrightarrow> hlist_find P h (slot_val h s) = Some (List.find P xs)"
proof (induction xs arbitrary: s)
  case Nil
  then show ?case by (simp add: hlist_find.simps)
next
  case (Cons a xs)
  then have "hlist_find P h (nxt (nodes h a)) = Some (List.find P xs)"
    using Cons.IH [of "Next a"] by simp
  with Cons.prems show ?case by (subst hlist_find.simps) simp
qed

lemma heap_is_find: "heap_is h L \<Longrightarrow> hlist_find P h (heads h b) = Some (List.find P (L b))"
  using hlist_find_seg [of h "First b" "L b" P] by (simp add: heap_is_def)

section \<open>Linking a node in and out\<close>

text \<open>
  Every insertion puts a node between a slot and what that slot pointed to; every removal
  short-cuts a node. Both are stated once, over slots and back pointers.
\<close>

definition linked_in :: "addr \<Rightarrow> slot \<Rightarrow> hheap \<Rightarrow> hheap \<Rightarrow> bool" where
  "linked_in n t h h' \<longleftrightarrow>
     slot_val h' = (slot_val h)(Next n := slot_val h t, t := Some n) \<and>
     (\<forall>x. pp h' x = (if x = n then Some t
                     else if slot_val h t = Some x then Some (Next n) else pp h x))"

definition linked_out :: "addr \<Rightarrow> slot \<Rightarrow> hheap \<Rightarrow> hheap \<Rightarrow> bool" where
  "linked_out n t h h' \<longleftrightarrow>
     slot_val h' = (slot_val h)(t := slot_val h (Next n), Next n := None) \<and>
     (\<forall>x. pp h' x = (if x = n then None
                     else if slot_val h (Next n) = Some x then Some t else pp h x))"

lemma slot_after_First: "slot_after (First b) us = First c \<longleftrightarrow> us = [] \<and> b = c"
  and slot_after_Next: "slot_after (First b) us = Next a \<longleftrightarrow> us \<noteq> [] \<and> a = last us"
    "Next a = slot_after (First b) us \<longleftrightarrow> us \<noteq> [] \<and> a = last us"
  by (auto simp: slot_after_def)

lemma hseg_slot_hd: "hseg h t vs \<Longrightarrow> slot_val h t = (case vs of [] \<Rightarrow> None | v # _ \<Rightarrow> Some v)"
  by (cases vs) auto

lemma heap_is_linked_in:
  assumes L: "heap_is h L" and b: "L b = us @ vs" and n: "chain_fresh n L"
    and h': "linked_in n (slot_after (First b) us) h h'"
  shows "heap_is h' (L(b := us @ n # vs))"
  unfolding heap_is_def
proof
  fix c
  let ?t = "slot_after (First b) us"
  have dist: "distinct (us @ vs)" using heap_is_distinct [OF L, of b] b by simp
  have lst: "us \<noteq> [] \<Longrightarrow> last us \<notin> set vs" using dist last_in_set [of us] by (auto simp: disjoint_iff)
  have seg: "hpath h (First b) us" "hseg h ?t vs"
    using L [unfolded heap_is_def, rule_format, of b] b by (simp_all add: hseg_append)
  note hd = hseg_slot_hd [OF seg(2)]
  have fresh: "n \<notin> set (L c)" for c using n by (simp add: chain_fresh_def)
  have n': "n \<notin> set us" "n \<notin> set vs" using fresh [of b] b by auto
  show "hseg h' (First c) ((L(b := us @ n # vs)) c)"
  proof (cases "c = b")
    case True
    have "hpath h' (First b) us = hpath h (First b) us"
      using h' n' dist hd
      by (intro hpath_cong) (auto simp: linked_in_def split: list.splits)
    moreover have "hseg h' (Next n) vs"
    proof (cases vs)
      case Nil
      then show ?thesis using h' hd n' by (auto simp: linked_in_def slot_after_Next)
    next
      case (Cons v ws)
      have "hseg h' (Next v) ws = hseg h (Next v) ws"
        using h' n' lst hd Cons dist by (intro hseg_cong) (auto simp: linked_in_def slot_after_Next)
      then show ?thesis using Cons seg(2) h' hd n' dist by (auto simp: linked_in_def slot_after_Next)
    qed
    ultimately have "hseg h' (First b) (us @ n # vs)"
      using seg(1) h' by (simp add: hseg_append linked_in_def)
    then show ?thesis using True by simp
  next
    case False
    have notin: "a \<notin> set (us @ vs)" if "a \<in> set (L c)" for a
      using heap_is_disjoint [OF L that, of b] b False by auto
    have "hseg h' (First c) (L c) = hseg h (First c) (L c)"
    proof (rule hseg_cong)
      show "slot_val h' (First c) = slot_val h (First c)"
        using h' False by (auto simp: linked_in_def slot_after_def)
      show "slot_val h' (Next a) = slot_val h (Next a) \<and> pp h' a = pp h a" if "a \<in> set (L c)" for a
        using that notin [OF that] fresh [of c] h' hd
        by (auto simp: linked_in_def slot_after_def split: list.splits if_splits)
    qed
    then show ?thesis using L False by (simp add: heap_is_def)
  qed
qed

lemma heap_is_linked_out:
  assumes L: "heap_is h L" and b: "L b = us @ n # vs"
    and h': "linked_out n (slot_after (First b) us) h h'"
  shows "heap_is h' (L(b := us @ vs))"
  unfolding heap_is_def
proof
  fix c
  let ?t = "slot_after (First b) us"
  have dist: "distinct (us @ n # vs)" using heap_is_distinct [OF L, of b] b by simp
  have lst: "us \<noteq> [] \<Longrightarrow> last us \<notin> set vs" using dist last_in_set [of us] by (auto simp: disjoint_iff)
  have seg: "hpath h (First b) us" "hseg h ?t (n # vs)"
    using L [unfolded heap_is_def, rule_format, of b] b by (simp_all add: hseg_append)
  then have seg': "hseg h (Next n) vs" by simp
  note hd = hseg_slot_hd [OF seg']
  show "hseg h' (First c) ((L(b := us @ vs)) c)"
  proof (cases "c = b")
    case True
    have "hpath h' (First b) us = hpath h (First b) us"
      using h' dist hd
      by (intro hpath_cong) (auto simp: linked_out_def split: list.splits)
    moreover have "hseg h' ?t vs"
    proof (cases vs)
      case Nil
      then show ?thesis using h' hd dist by (auto simp: linked_out_def slot_after_Next)
    next
      case (Cons v ws)
      have "hseg h' (Next v) ws = hseg h (Next v) ws"
        using h' lst hd Cons dist by (intro hseg_cong) (auto simp: linked_out_def slot_after_Next)
      then show ?thesis using Cons seg' h' hd dist by (auto simp: linked_out_def slot_after_Next)
    qed
    ultimately show ?thesis using True seg(1) by (simp add: hseg_append)
  next
    case False
    have notin: "a \<notin> set (us @ n # vs)" if "a \<in> set (L c)" for a
      using heap_is_disjoint [OF L that, of b] b False by auto
    have "hseg h' (First c) (L c) = hseg h (First c) (L c)"
    proof (rule hseg_cong)
      show "slot_val h' (First c) = slot_val h (First c)"
        using h' False by (auto simp: linked_out_def slot_after_def)
      show "slot_val h' (Next a) = slot_val h (Next a) \<and> pp h' a = pp h a" if "a \<in> set (L c)" for a
        using notin [OF that] h' hd
        by (auto simp: linked_out_def slot_after_def split: list.splits if_splits)
    qed
    then show ?thesis using L False by (simp add: heap_is_def)
  qed
qed

section \<open>Correctness of the operations\<close>

lemma slot_fun_eqI: "(\<And>b. f (First b) = g (First b)) \<Longrightarrow> (\<And>a. f (Next a) = g (Next a)) \<Longrightarrow> f = g"
  by (rule ext) (metis slot.exhaust)

lemma slot_val_fields [simp]:
  "slot_val (set_next a v h) = (slot_val h)(Next a := v)"
  "slot_val (set_first b v h) = (slot_val h)(First b := v)"
  "slot_val (set_pprev a w h) = slot_val h"
  by (rule slot_fun_eqI; simp add: hfield_defs)+

lemma slot_val_set [simp]: "slot_val (slot_set t v h) = (slot_val h)(t := v)"
  by (cases t) simp_all

lemma pp_fields [simp]:
  "pp (set_next a v h) x = pp h x" "pp (set_first b v h) x = pp h x" "pp (slot_set t v h) x = pp h x"
  "pp (set_pprev a w h) x = (if x = a then w else pp h x)"
  by (cases t; simp add: hfield_defs)+

lemma heads_slot: "heads h b = slot_val h (First b)" and nxt_slot: "nxt (nodes h a) = slot_val h (Next a)"
  by simp_all

lemma linked_in_add_head:
  assumes "heads h b \<noteq> Some n"
  shows "linked_in n (First b) h (hlist_add_head n b h)"
  using assms unfolding linked_in_def hlist_add_head_def Let_def
  by (cases "heads h b") (auto simp del: slot_val.simps simp: heads_slot nxt_slot)

lemma linked_out_del:
  assumes "pp h n = Some t" "t \<noteq> Next n" "nxt (nodes h n) \<noteq> Some n"
  shows "\<exists>h'. hlist_del n h = Some h' \<and> linked_out n t h h'"
  using assms unfolding linked_out_def hlist_del_def hlist_unlink_def Let_def
  by (cases "nxt (nodes h n)") (auto simp del: slot_val.simps simp: nxt_slot)

lemma linked_in_add_before:
  assumes "pp h next = Some t" "slot_val h t = Some next" "n \<noteq> next" "t \<noteq> Next n"
  shows "\<exists>h'. hlist_add_before n next h = Some h' \<and> linked_in n t h h'"
  using assms unfolding linked_in_def hlist_add_before_def Let_def
  by (auto simp del: slot_val.simps simp: nxt_slot)

lemma linked_in_add_behind:
  assumes "n \<noteq> prev" "nxt (nodes h prev) \<noteq> Some n"
  shows "linked_in n (Next prev) h (hlist_add_behind n prev h)"
  using assms unfolding linked_in_def hlist_add_behind_def Let_def
  by (cases "nxt (nodes h prev)") (auto simp del: slot_val.simps simp: nxt_slot)

lemma heap_is_member:
  assumes "heap_is h L" "L b = us @ n # vs"
  shows "pp h n = Some (slot_after (First b) us)" "slot_val h (slot_after (First b) us) = Some n"
    "nxt (nodes h n) \<noteq> Some n" "slot_after (First b) us \<noteq> Next n"
proof -
  have seg: "hseg h (slot_after (First b) us) (n # vs)"
    using assms(1) [unfolded heap_is_def, rule_format, of b] assms(2) by (simp add: hseg_append)
  then show "pp h n = Some (slot_after (First b) us)" "slot_val h (slot_after (First b) us) = Some n"
    by auto
  have "distinct (us @ n # vs)" using heap_is_distinct [OF assms(1), of b] assms(2) by simp
  then show "nxt (nodes h n) \<noteq> Some n" "slot_after (First b) us \<noteq> Next n"
    using seg by (cases vs; auto simp: slot_after_Next)+
qed

lemma heap_is_add_head:
  assumes "heap_is h L" "chain_fresh n L"
  shows "heap_is (hlist_add_head n b h) (L(b := n # L b))"
proof -
  have "heads h b \<noteq> Some n"
    using assms(1) [unfolded heap_is_def, rule_format, of b] assms(2)
    by (cases "L b") (auto simp: chain_fresh_def, metis list.set_intros(1))
  then have "linked_in n (slot_after (First b) []) h (hlist_add_head n b h)"
    by (simp add: linked_in_add_head)
  from heap_is_linked_in [OF assms(1) _ assms(2) this, of "L b"] show ?thesis by simp
qed

lemma heap_is_del:
  assumes "heap_is h L" "n \<in> set (L b)"
  shows "\<exists>h'. hlist_del n h = Some h' \<and> heap_is h' (L(b := remove1 n (L b)))"
proof -
  obtain us vs where uv: "L b = us @ n # vs" using split_list [OF assms(2)] by blast
  note m = heap_is_member [OF assms(1) uv]
  from linked_out_del [OF m(1,4,3)] obtain h' where
    h': "hlist_del n h = Some h'" "linked_out n (slot_after (First b) us) h h'" by blast
  have "remove1 n (L b) = us @ vs"
    using heap_is_distinct [OF assms(1), of b] uv by (simp add: remove1_append)
  with heap_is_linked_out [OF assms(1) uv h'(2)] h'(1) show ?thesis by auto
qed

lemma heap_is_add_before:
  assumes "heap_is h L" "L b = us @ next # vs" "chain_fresh n L"
  shows "\<exists>h'. hlist_add_before n next h = Some h' \<and> heap_is h' (L(b := us @ n # next # vs))"
proof -
  note m = heap_is_member [OF assms(1,2)]
  have "n \<notin> set (L b)" using assms(3) by (simp add: chain_fresh_def)
  then have "n \<noteq> next" "slot_after (First b) us \<noteq> Next n"
    using assms(2) by (auto simp: slot_after_Next)
  from linked_in_add_before [OF m(1,2) this] obtain h' where
    "hlist_add_before n next h = Some h'" "linked_in n (slot_after (First b) us) h h'" by blast
  with heap_is_linked_in [OF assms(1,2,3)] show ?thesis by blast
qed

lemma heap_is_add_behind:
  assumes "heap_is h L" "L b = us @ prev # vs" "chain_fresh n L"
  shows "heap_is (hlist_add_behind n prev h) (L(b := us @ prev # n # vs))"
proof -
  have n: "n \<notin> set (L b)" using assms(3) by (simp add: chain_fresh_def)
  have "hseg h (Next prev) vs"
    using assms(1) [unfolded heap_is_def, rule_format, of b] assms(2) by (simp add: hseg_append)
  then have "nxt (nodes h prev) \<noteq> Some n" "n \<noteq> prev"
    using n assms(2) by (cases vs; auto)+
  then have "linked_in n (slot_after (First b) (us @ [prev])) h (hlist_add_behind n prev h)"
    by (simp add: linked_in_add_behind slot_after_def)
  from heap_is_linked_in [OF assms(1) _ assms(3) this, of vs] assms(2) show ?thesis by simp
qed

lemma hlist_del_unlinked: "hlist_unhashed h n \<Longrightarrow> hlist_del n h = None"
  by (simp add: hlist_unhashed_def hlist_del_def hlist_unlink_def)

lemma hlist_del_unhashed: "hlist_del n h = Some h' \<Longrightarrow> hlist_unhashed h' n"
  by (auto simp: hlist_unhashed_def hlist_del_def)

lemma heap_is_move_list:
  assumes "heap_is h L" "old \<noteq> new"
  shows "heap_is (hlist_move_list old new h) (L(new := L old, old := []))"
  unfolding heap_is_def
proof
  fix c
  let ?h = "hlist_move_list old new h"
  have seg: "hseg h (First c) (L c)" for c using assms by (simp add: heap_is_def)
  note hd = hseg_slot_hd [OF seg]
  have slots: "slot_val ?h (Next a) = slot_val h (Next a)" for a
    by (simp add: hlist_move_list_def Let_def hfield_defs split: option.splits)
  have firsts: "slot_val ?h (First d) =
      (if d = old then None else if d = new then slot_val h (First old) else slot_val h (First d))" for d
    using assms(2) by (auto simp: hlist_move_list_def Let_def hfield_defs split: option.splits)
  have backs: "pp ?h a = (if slot_val h (First old) = Some a then Some (First new) else pp h a)" for a
    by (auto simp: hlist_move_list_def Let_def hfield_defs split: option.splits)
  show "hseg ?h (First c) ((L(new := L old, old := [])) c)"
  proof (cases "c = new")
    case True
    show ?thesis
    proof (cases "L old")
      case (Cons a as)
      then have "distinct (a # as)" using heap_is_distinct [OF assms(1), of old] by simp
      then have "hseg ?h (Next a) as = hseg h (Next a) as"
        using slots backs hd [of old] Cons by (intro hseg_cong) auto
      then show ?thesis using True assms(2) Cons seg [of old] firsts backs by simp
    qed (use True assms(2) hd [of old] firsts in simp)
  next
    case False
    have "pp ?h a = pp h a" if "a \<in> set (L c)" "c \<noteq> old" for a
      using backs [of a] hd [of old] heap_is_disjoint [OF assms(1) that(1), of old] that(2)
      by (auto split: list.splits)
    then have "c \<noteq> old \<Longrightarrow> hseg ?h (First c) (L c) = hseg h (First c) (L c)"
      using False firsts slots by (intro hseg_cong) auto
    then show ?thesis using False seg [of c] firsts by auto
  qed
qed

text \<open>Loops over a chain.\<close>

lemma heap_is_seg: "heap_is h L \<Longrightarrow> hseg h (First b) (L b)"
  by (simp add: heap_is_def)

lemma sweep_from:
  assumes acc: "\<And>h. hp (upd h st) = h" and upd: "\<And>h h'. upd h' (upd h st) = upd h' st"
    and body: "\<And>a h. a \<in> set xs \<Longrightarrow> body a (upd h st) =
      (if P a then map_option (\<lambda>h'. upd h' (upd h st)) (hlist_del a h) else Some (upd h st))"
    and "heap_is h (L(b := us @ xs))"
  shows "\<exists>h'. hlist_for_each_safe hp body (slot_val h (slot_after (First b) us)) (upd h st) = Some (upd h' st) \<and>
    heap_is h' (L(b := us @ filter (\<lambda>a. \<not> P a) xs))"
  using body assms(4)
proof (induction xs arbitrary: us h)
  case Nil
  then have "slot_val h (slot_after (First b) us) = None"
    using heap_is_seg [OF Nil.prems(2), of b] hseg_append [of h "First b" us "[]"] by simp
  then show ?case using Nil.prems by (auto simp: hlist_for_each_safe.simps)
next
  case (Cons a xs)
  have seg: "hseg h (slot_after (First b) us) (a # xs)"
    using heap_is_seg [OF Cons.prems(2), of b] by (simp add: hseg_append)
  show ?case
  proof (cases "P a")
    case False
    have "\<exists>h'. hlist_for_each_safe hp body (slot_val h (slot_after (First b) (us @ [a]))) (upd h st) = Some (upd h' st) \<and>
        heap_is h' (L(b := (us @ [a]) @ filter (\<lambda>a. \<not> P a) xs))"
      using Cons.prems by (intro Cons.IH) auto
    then show ?thesis
      using False seg Cons.prems(1) [of a h] acc
      by (subst hlist_for_each_safe.simps) (auto simp: slot_after_def)
  next
    case True
    have "distinct (us @ a # xs)" using heap_is_distinct [OF Cons.prems(2), of b] by simp
    then have "remove1 a (us @ a # xs) = us @ xs" by (simp add: remove1_append)
    then obtain h' where h': "hlist_del a h = Some h'" "heap_is h' (L(b := us @ xs))"
      using heap_is_del [OF Cons.prems(2), of a b] by (auto simp del: fun_upd_apply simp: fun_upd_same)
    have seg': "hseg h' (slot_after (First b) us) xs"
      using heap_is_seg [OF h'(2), of b] by (simp add: hseg_append)
    then have "slot_val h (Next a) = slot_val h' (slot_after (First b) us)"
      using seg by (simp only: hseg.simps hseg_slot_hd [of h "Next a" xs] hseg_slot_hd [OF seg'])
    moreover have "\<exists>h''. hlist_for_each_safe hp body (slot_val h' (slot_after (First b) us)) (upd h' st) = Some (upd h'' st) \<and>
        heap_is h'' (L(b := us @ filter (\<lambda>a. \<not> P a) xs))"
      using Cons.prems(1) by (intro Cons.IH h'(2)) auto
    ultimately show ?thesis
      using True seg Cons.prems(1) [of a h] acc upd h'(1)
      by (subst hlist_for_each_safe.simps) auto
  qed
qed

text \<open>The loop that removes the entries satisfying a test leaves the others, in their order.\<close>

lemma heap_is_sweep:
  assumes "heap_is (hp st) L" "upd (hp st) st = st"
    and "\<And>h. hp (upd h st) = h" "\<And>h h'. upd h' (upd h st) = upd h' st"
    and "\<And>a h. a \<in> set (L b) \<Longrightarrow> body a (upd h st) =
      (if P a then map_option (\<lambda>h'. upd h' (upd h st)) (hlist_del a h) else Some (upd h st))"
  shows "\<exists>h'. hlist_for_each_safe hp body (heads (hp st) b) st = Some (upd h' st) \<and>
    heap_is h' (L(b := filter (\<lambda>a. \<not> P a) (L b)))"
  using sweep_from [of hp upd st "L b" body P "hp st" L b "[]"] assms by simp

lemma for_each_seg:
  "hseg h s xs \<Longrightarrow> hlist_for_each (\<lambda>_. h) (\<lambda>a v. Some (f a v)) (slot_val h s) v = Some (fold f xs v)"
proof (induction xs arbitrary: s v)
  case Nil
  then show ?case by (simp add: hlist_for_each.simps)
next
  case (Cons a xs)
  have "hlist_for_each (\<lambda>_. h) (\<lambda>a v. Some (f a v)) (slot_val h (Next a)) (f a v) = Some (fold f xs (f a v))"
    using Cons.prems Cons.IH [of "Next a" "f a v"] by (simp del: slot_val.simps)
  then show ?case using Cons.prems by (subst hlist_for_each.simps) simp
qed

lemma heap_is_for_each:
  "heap_is h L \<Longrightarrow> hlist_for_each (\<lambda>_. h) (\<lambda>a v. Some (f a v)) (heads h b) v = Some (fold f (L b) v)"
  using for_each_seg [OF heap_is_seg [of h L b], of f v] by simp

lemma for_each_safe_seg:
  assumes "hseg h s xs" "I st"
    and "\<And>a st. a \<in> set xs \<Longrightarrow> I st \<Longrightarrow> hp st = h \<and> body a st = Some (f a st) \<and> I (f a st)"
  shows "hlist_for_each_safe hp body (slot_val h s) st = Some (fold f xs st) \<and> I (fold f xs st)"
  using assms
proof (induction xs arbitrary: s st)
  case Nil
  then show ?case by (simp add: hlist_for_each_safe.simps)
next
  case (Cons a xs)
  have "hlist_for_each_safe hp body (slot_val h (Next a)) (f a st) = Some (fold f xs (f a st)) \<and> I (fold f xs (f a st))"
    using Cons.prems by (intro Cons.IH) auto
  moreover have "hp st = h" "body a st = Some (f a st)" using Cons.prems by auto
  ultimately show ?case using Cons.prems(1) by (subst hlist_for_each_safe.simps) simp
qed

text \<open>A loop whose body leaves the lists alone runs over all entries of the chain.\<close>

lemma heap_is_for_each_safe:
  assumes "heap_is h L" "I st"
    and "\<And>a st. a \<in> set (L b) \<Longrightarrow> I st \<Longrightarrow> hp st = h \<and> body a st = Some (f a st) \<and> I (f a st)"
  shows "hlist_for_each_safe hp body (heads h b) st = Some (fold f (L b) st)" "I (fold f (L b) st)"
  using for_each_safe_seg [OF heap_is_seg [OF assms(1), of b], of I st hp body f] assms(2,3) by simp_all

interpretation hl: chain_lists heap_is "\<lambda>P h b. hlist_find P h (heads h b)" hlist_add_head hlist_del
  by unfold_locales
    (auto intro: heap_is_distinct heap_is_disjoint heap_is_find heap_is_add_head heap_is_del
      simp: chain_fresh_def)

text \<open>A node that is on none of the lists of a heap: what an allocation returns.\<close>

definition unlinked :: "addr \<Rightarrow> hheap \<Rightarrow> bool" where
  "unlinked a h \<longleftrightarrow> (\<forall>L. heap_is h L \<longrightarrow> chain_fresh a L)"

lemma unlinked_iff: "heap_is h L \<Longrightarrow> unlinked a h \<longleftrightarrow> chain_fresh a L"
  unfolding unlinked_def by (metis heap_is_unique)

lemma keyed_unlinked: "keyed_rep heap_is key bkt h obj L \<Longrightarrow> unlinked a h \<Longrightarrow> chain_fresh a L"
  by (simp add: keyed_rep_def unlinked_def)

lemma heap_is_empty: "heap_is h (\<lambda>_. []) \<longleftrightarrow> heads h = (\<lambda>_. None)"
  by (auto simp: heap_is_def fun_eq_iff)

lemma heads_fold_INIT: "heads (fold INIT_HLIST_HEAD bs h) b = (if b \<in> set bs then None else heads h b)"
  by (induction bs arbitrary: h) (auto simp: INIT_HLIST_HEAD_def hfield_defs)

text \<open>
  \<open>live G h\<close> is the heap with the lists of the heads \<open>G\<close> only: where list heads are parts of records
  that are allocated and freed, the heads in freed memory do not count.
\<close>

definition live :: "addr set \<Rightarrow> hheap \<Rightarrow> hheap" where
  "live G h = h\<lparr>heads := \<lambda>b. if b \<in> G then heads h b else None\<rparr>"

lemma live_simps [simp]: "nodes (live G h) = nodes h" "heads (live G h) b = (if b \<in> G then heads h b else None)"
  by (simp_all add: live_def)

lemma live_seg: "heap_is (live G h) L \<Longrightarrow> c \<in> G \<Longrightarrow> hseg h (First c) (L c)"
proof -
  assume h: "heap_is (live G h) L" and c: "c \<in> G"
  have "hseg h (Next a) as = hseg (live G h) (Next a) as" for a as by (induction as arbitrary: a) simp_all
  then show ?thesis using heap_is_seg [OF h, of c] c by (cases "L c") auto
qed

lemma live_find: "heap_is (live G h) L \<Longrightarrow> c \<in> G \<Longrightarrow> hlist_find P h (heads h c) = Some (List.find P (L c))"
  using hlist_find_seg [OF live_seg, of G h L c P] by simp

lemma live_for_each_safe:
  assumes "heap_is (live G h) L" "c \<in> G" "I st"
    and "\<And>a st. a \<in> set (L c) \<Longrightarrow> I st \<Longrightarrow> hp st = h \<and> body a st = Some (f a st) \<and> I (f a st)"
  shows "hlist_for_each_safe hp body (heads h c) st = Some (fold f (L c) st)"
  using for_each_safe_seg [OF live_seg [OF assms(1,2)], of I st hp body f] assms(3,4) by simp

lemma live_add_head: "c \<in> G \<Longrightarrow> live G (hlist_add_head a c h) = hlist_add_head a c (live G h)"
  by (auto simp: hlist_add_head_def live_def hfield_defs Let_def fun_eq_iff split: option.splits)

lemma live_init: "c \<notin> G \<Longrightarrow> live (insert c G) (INIT_HLIST_HEAD c h) = live G h"
  by (auto simp: live_def INIT_HLIST_HEAD_def hfield_defs fun_eq_iff)

end
