(* ===== verification/Macport.thy ===== *)
theory Macport
  imports Hlist
begin

text \<open>
  al_macport.c: the table from which the switch learns behind which port a hardware address
  lives, and the sweep that forgets old addresses. An entry expires \<open>g_mac_live\<close> seconds after
  it was last confirmed. \<open>mac_state\<close> holds the list heap of al_macport_hash (list head \<open>i\<close> is
  bucket \<open>i\<close>), the objects of the pool, and the static variable of portid_clear. Hardware
  addresses are 48-bit words, the first byte lowest; time_t is an unbounded integer.
\<close>

section \<open>State and operations\<close>

record mac_port =
  mp_addr :: u48
  mp_port :: u8
  mp_time :: int

record mac_state =
  mp_lists :: hheap
  mp_obj :: "addr \<Rightarrow> mac_port"
  mp_last :: int

definition MAX_MAC_UINTE :: nat where "MAX_MAC_UINTE = 4096"

definition g_mac_live :: int where "g_mac_live = 60 * 5"

definition al_macport_mask :: u32 where
  "al_macport_mask = of_nat (HASHSIZE MAX_MAC_UINTE - 1)"

definition mac_hash :: "u48 \<Rightarrow> u32" where
  "mac_hash mac =
     (let p16 = (ucast mac :: u16); p32 = (ucast (drop_bit 16 mac) :: u16); p48 = (ucast (drop_bit 32 mac) :: u16)
      in ucast (p16 XOR p32 XOR p48) AND al_macport_mask)"

definition init_macport :: "bool \<Rightarrow> mac_state \<Rightarrow> int \<times> mac_state" where
  "init_macport pool st =
     (if \<not> pool then (-1, st)
      else (0, st\<lparr>mp_lists := fold INIT_HLIST_HEAD [0..<HASHSIZE MAX_MAC_UINTE] (mp_lists st)\<rparr>))"

definition portid_lookup :: "u48 \<Rightarrow> mac_state \<Rightarrow> u8 option" where
  "portid_lookup mac st =
     hlist_for_each (\<lambda>_. mp_lists st)
       (\<lambda>pos portid. Some (if mp_addr (mp_obj st pos) = mac then mp_port (mp_obj st pos) else portid))
       (heads (mp_lists st) (unat (mac_hash mac))) 0xFF"

text \<open>
  portid_update: \<open>now\<close> is g_sys_time, \<open>got\<close> the result of rte_mempool_get. The port of an
  address that is already known is left as it is.
\<close>

definition portid_update :: "int \<Rightarrow> addr option \<Rightarrow> u48 \<Rightarrow> u8 \<Rightarrow> mac_state \<Rightarrow> mac_state option" where
  "portid_update now got mac portid st =
     do {
       let table = unat (mac_hash mac);
       found \<leftarrow> hlist_find (\<lambda>pos. mp_addr (mp_obj st pos) = mac) (mp_lists st) (heads (mp_lists st) table);
       let (port, st1) =
         (case found of
            None \<Rightarrow> (0xFF, st)
          | Some pos \<Rightarrow>
              (portid, st\<lparr>mp_obj := (mp_obj st)(pos := (mp_obj st pos)\<lparr>mp_time := now + g_mac_live\<rparr>)\<rparr>));
       if port = 0xFF then
         (case got of
            None \<Rightarrow> Some st1
          | Some obj \<Rightarrow>
              Some (st1\<lparr>mp_obj := (mp_obj st1)(obj := \<lparr>mp_addr = mac, mp_port = portid, mp_time = now + g_mac_live\<rparr>),
                        mp_lists := hlist_add_head obj table (mp_lists st1)\<rparr>))
       else Some st1
     }"

text \<open>portid_clear: \<open>clear_body\<close> is the body of the inner loop, \<open>clear_upto n\<close> the outer loop over \<open>n\<close> buckets.\<close>

definition clear_body :: "int \<Rightarrow> addr \<Rightarrow> mac_state \<Rightarrow> mac_state option" where
  "clear_body now pos st =
     (if mp_time (mp_obj st pos) - now < 0
      then do { h \<leftarrow> hlist_del pos (mp_lists st); Some (st\<lparr>mp_lists := h\<rparr>) }
      else Some st)"

primrec clear_upto :: "int \<Rightarrow> nat \<Rightarrow> mac_state \<Rightarrow> mac_state option" where
  "clear_upto now 0 st = Some st"
| "clear_upto now (Suc hash) st =
     do {
       st' \<leftarrow> clear_upto now hash st;
       hlist_for_each_safe mp_lists (clear_body now) (heads (mp_lists st') hash) st'
     }"

definition portid_clear :: "int \<Rightarrow> mac_state \<Rightarrow> mac_state option" where
  "portid_clear now st =
     (if now - mp_last st \<ge> 5
      then clear_upto now (HASHSIZE MAX_MAC_UINTE) (st\<lparr>mp_last := now\<rparr>)
      else Some st)"

section \<open>The table as a map\<close>

text \<open>
  \<open>mac_view st m\<close>: the lists are well formed, no address has two entries, and \<open>m\<close> gives the
  port and the expiry time of every known address.
\<close>

definition mac_key :: "mac_port \<Rightarrow> u48" where "mac_key e = mp_addr e"
definition mbkt :: "u48 \<Rightarrow> addr" where "mbkt mac = unat (mac_hash mac)"

definition mac_stack :: "mac_state \<Rightarrow> (addr \<Rightarrow> addr list) \<Rightarrow> u48 \<Rightarrow> addr list" where
  "mac_stack st L = chain_stack mac_key mbkt (mp_obj st) L"

definition mac_rep :: "mac_state \<Rightarrow> (addr \<Rightarrow> addr list) \<Rightarrow> bool" where
  "mac_rep st L \<longleftrightarrow> keyed_rep heap_is mac_key mbkt (mp_lists st) (mp_obj st) L \<and> (\<forall>k. length (mac_stack st L k) \<le> 1)"

definition mac_val :: "mac_port \<Rightarrow> u8 \<times> int" where
  "mac_val e = (mp_port e, mp_time e)"

definition mac_view :: "mac_state \<Rightarrow> (u48 \<rightharpoonup> u8 \<times> int) \<Rightarrow> bool" where
  "mac_view st m \<longleftrightarrow>
     (\<exists>L. mac_rep st L \<and> m = (\<lambda>k. map_option (\<lambda>a. mac_val (mp_obj st a)) (top_of (mac_stack st L k))))"

abbreviation mac_fresh :: "addr \<Rightarrow> mac_state \<Rightarrow> bool" where
  "mac_fresh a st \<equiv> unlinked a (mp_lists st)"

lemma mac_rep_heap: "mac_rep st L \<Longrightarrow> heap_is (mp_lists st) L"
  by (simp add: mac_rep_def keyed_rep_def)

lemma hash_size_mac [simp]: "HASHSIZE MAX_MAC_UINTE = 4096"
  using HASHSIZE_pow2 [of 12] by (simp add: MAX_MAC_UINTE_def)

lemma mbkt_less: "mbkt k < 4096"
proof -
  have "al_macport_mask = mask 12" by (simp add: al_macport_mask_def mask_eq_exp_minus_1)
  moreover have "unat (x AND (mask 12 :: u32)) < 4096" for x
    using unat_and_mask_less [of x 12] by simp
  ultimately show ?thesis by (simp add: mbkt_def mac_hash_def Let_def)
qed

lemma mac_find:
  assumes "mac_rep st L"
  shows "hlist_find (\<lambda>pos. mp_addr (mp_obj st pos) = k) (mp_lists st) (heads (mp_lists st) (unat (mac_hash k)))
    = Some (top_of (mac_stack st L k))"
  using assms hl.keyed_find [of mac_key mbkt "mp_lists st" "mp_obj st" L k]
  by (simp add: mac_rep_def mac_stack_def chain_map_def mbkt_def mac_key_def)

lemma fold_last_match:
  "length (filter P xs) \<le> 1 \<Longrightarrow>
   fold (\<lambda>x v. if P x then f x else v) xs d = (case top_of (filter P xs) of None \<Rightarrow> d | Some x \<Rightarrow> f x)"
proof (induction xs arbitrary: d)
  case (Cons x xs)
  have "fold (\<lambda>x v. if P x then f x else v) xs e = e" if "filter P xs = []" for e
    using that by (induction xs arbitrary: e) (auto split: if_splits)
  with Cons show ?case by (cases "filter P xs") auto
qed simp

lemma mac_lookup_view:
  assumes "mac_view st m"
  shows "portid_lookup k st = Some (case m k of None \<Rightarrow> 0xFF | Some (p, t) \<Rightarrow> p)"
proof -
  from assms obtain L where L: "mac_rep st L" and m: "m = (\<lambda>k. map_option (\<lambda>a. mac_val (mp_obj st a)) (top_of (mac_stack st L k)))"
    by (auto simp: mac_view_def)
  have "length (filter (\<lambda>a. mp_addr (mp_obj st a) = k) (L (mbkt k))) \<le> 1"
    using L by (simp add: mac_rep_def mac_stack_def chain_stack_def mac_key_def)
  from fold_last_match [OF this, of "\<lambda>a. mp_port (mp_obj st a)" "0xFF"] show ?thesis
    using heap_is_for_each [OF mac_rep_heap [OF L], of
        "\<lambda>pos portid. if mp_addr (mp_obj st pos) = k then mp_port (mp_obj st pos) else portid" "mbkt k" "0xFF"]
    by (simp add: portid_lookup_def mbkt_def [symmetric] m mac_stack_def chain_stack_def mac_key_def mac_val_def
        split: option.splits)
qed

lemma mac_top_in:
  assumes "top_of (mac_stack st L k) = Some a"
  shows "a \<in> set (L (mbkt k))" "mp_addr (mp_obj st a) = k"
  using top_of_SomeD [OF assms] by (simp_all add: mac_stack_def chain_stack_set mac_key_def)

lemma mac_refresh:
  assumes L: "mac_rep st L" and m: "m = (\<lambda>k. map_option (\<lambda>a. mac_val (mp_obj st a)) (top_of (mac_stack st L k)))"
    and a: "top_of (mac_stack st L k) = Some a" and e: "mp_addr e = mp_addr (mp_obj st a)"
  shows "mac_view (st\<lparr>mp_obj := (mp_obj st)(a := e)\<rparr>) (m(k \<mapsto> mac_val e))"
proof -
  let ?st = "st\<lparr>mp_obj := (mp_obj st)(a := e)\<rparr>"
  have key: "mac_key e = mac_key (mp_obj st a)" using e by (simp add: mac_key_def)
  have stack: "mac_stack ?st L = mac_stack st L" using key by (simp add: mac_stack_def chain_stack_same_key)
  then have rep: "mac_rep ?st L" using L key by (simp add: mac_rep_def keyed_rep_same_key)
  have "top_of (mac_stack st L j) \<noteq> Some a" if "j \<noteq> k" for j
    using mac_top_in(2) [OF a] mac_top_in(2) [of st L j a] that by auto
  then have "(m(k \<mapsto> mac_val e)) j = map_option (\<lambda>a. mac_val (mp_obj ?st a)) (top_of (mac_stack ?st L j))" for j
    using a unfolding stack m by (cases "top_of (mac_stack st L j)") auto
  then show ?thesis unfolding mac_view_def using rep by blast
qed

lemma mac_insert:
  assumes L: "mac_rep st L" and m: "m = (\<lambda>k. map_option (\<lambda>a. mac_val (mp_obj st a)) (top_of (mac_stack st L k)))"
    and a: "mac_fresh a st" and k: "mp_addr e = k" "top_of (mac_stack st L k) = None"
  shows "mac_view (st\<lparr>mp_obj := (mp_obj st)(a := e), mp_lists := hlist_add_head a (mbkt k) (mp_lists st)\<rparr>) (m(k \<mapsto> mac_val e))"
proof -
  let ?st = "st\<lparr>mp_obj := (mp_obj st)(a := e), mp_lists := hlist_add_head a (mbkt k) (mp_lists st)\<rparr>"
  let ?L = "L(mbkt k := a # L (mbkt k))"
  have key: "mac_key e = k" using k(1) by (simp add: mac_key_def)
  have fresh: "chain_fresh a L" using a unlinked_iff [OF mac_rep_heap [OF L]] by simp
  have stack: "mac_stack ?st ?L = (mac_stack st L)(k := a # mac_stack st L k)"
    using chain_stack_add [OF fresh, of mac_key mbkt "mp_obj st" e] key by (simp add: mac_stack_def)
  have "mac_stack st L k = []" using k(2) by (cases "mac_stack st L k") auto
  then have rep: "mac_rep ?st ?L"
    using hl.keyed_add [of mac_key mbkt "mp_lists st" "mp_obj st" L a e] L fresh key
    by (simp add: mac_rep_def stack)
  have "top_of (mac_stack st L j) \<noteq> Some a" for j
    using fresh mac_top_in(1) [of st L j a] by (auto simp: chain_fresh_def)
  then have "(m(k \<mapsto> mac_val e)) j = map_option (\<lambda>a. mac_val (mp_obj ?st a)) (top_of (mac_stack ?st ?L j))" for j
    unfolding stack m by (cases "top_of (mac_stack st L j)") auto
  then show ?thesis unfolding mac_view_def using rep by blast
qed

lemma mac_update_view:
  assumes "mac_view st m" "mac_fresh a st" "portid \<noteq> 0xFF"
  shows "\<exists>st'. portid_update now (Some a) k portid st = Some st' \<and> mp_last st' = mp_last st \<and>
    mac_view st' (m(k \<mapsto> (case m k of None \<Rightarrow> portid | Some (p, t) \<Rightarrow> p, now + g_mac_live)))"
proof -
  from assms obtain L where L: "mac_rep st L" and m: "m = (\<lambda>k. map_option (\<lambda>a. mac_val (mp_obj st a)) (top_of (mac_stack st L k)))"
    by (auto simp: mac_view_def)
  show ?thesis
  proof (cases "top_of (mac_stack st L k)")
    case None
    have "m k = None" using None by (simp add: m)
    with None mac_insert [OF L m assms(2), of "\<lparr>mp_addr = k, mp_port = portid, mp_time = now + g_mac_live\<rparr>" k]
    show ?thesis by (simp add: portid_update_def mac_find [OF L] mac_val_def mbkt_def)
  next
    case (Some b)
    have "m k = Some (mac_val (mp_obj st b))" using Some by (simp add: m)
    with Some mac_refresh [OF L m Some, of "(mp_obj st b)\<lparr>mp_time := now + g_mac_live\<rparr>"] assms(3)
    show ?thesis by (simp add: portid_update_def mac_find [OF L] mac_val_def)
  qed
qed

lemma clear_body_eq:
  "clear_body now a (st\<lparr>mp_lists := h\<rparr>) =
     (if mp_time (mp_obj st a) < now then map_option (\<lambda>h'. st\<lparr>mp_lists := h'\<rparr>) (hlist_del a h)
      else Some (st\<lparr>mp_lists := h\<rparr>))"
  by (cases "hlist_del a h") (auto simp: clear_body_def)

lemma clear_upto_heap:
  assumes "heap_is (mp_lists st) L"
  shows "\<exists>h. clear_upto now n st = Some (st\<lparr>mp_lists := h\<rparr>) \<and>
    heap_is h (\<lambda>b. if b < n then filter (\<lambda>a. \<not> mp_time (mp_obj st a) < now) (L b) else L b)"
proof (induction n)
  case 0
  then show ?case using assms by (intro exI [of _ "mp_lists st"]) simp
next
  case (Suc n)
  let ?live = "\<lambda>a. \<not> mp_time (mp_obj st a) < now"
  let ?M = "\<lambda>n b. if b < n then filter ?live (L b) else L b"
  from Suc obtain h where h: "clear_upto now n st = Some (st\<lparr>mp_lists := h\<rparr>)" "heap_is h (?M n)" by blast
  obtain h' where h': "hlist_for_each_safe mp_lists (clear_body now) (heads h n) (st\<lparr>mp_lists := h\<rparr>) = Some (st\<lparr>mp_lists := h'\<rparr>)"
    "heap_is h' ((?M n)(n := filter ?live (L n)))"
    using heap_is_sweep [of mp_lists "st\<lparr>mp_lists := h\<rparr>" "?M n" "\<lambda>h st. st\<lparr>mp_lists := h\<rparr>" n "clear_body now"
        "\<lambda>a. mp_time (mp_obj st a) < now"] h(2)
    by (simp add: clear_body_eq cong: if_cong) blast
  have "(?M n)(n := filter ?live (L n)) = ?M (Suc n)" by (auto simp: fun_eq_iff less_Suc_eq)
  with h(1) h' show ?case by auto
qed

lemma mac_clear_view:
  assumes "mac_view st m" "now - mp_last st \<ge> 5"
  shows "\<exists>st'. portid_clear now st = Some st' \<and> mp_last st' = now \<and>
    mac_view st' (\<lambda>k. case m k of None \<Rightarrow> None | Some (p, t) \<Rightarrow> if t < now then None else Some (p, t))"
proof -
  from assms obtain L where L: "mac_rep st L" and m: "m = (\<lambda>k. map_option (\<lambda>a. mac_val (mp_obj st a)) (top_of (mac_stack st L k)))"
    by (auto simp: mac_view_def)
  let ?live = "\<lambda>a. \<not> mp_time (mp_obj st a) < now"
  let ?M = "\<lambda>b. if b < 4096 then filter ?live (L b) else L b"
  obtain h where h: "clear_upto now 4096 (st\<lparr>mp_last := now\<rparr>) = Some (st\<lparr>mp_last := now, mp_lists := h\<rparr>)" "heap_is h ?M"
    using clear_upto_heap [of "st\<lparr>mp_last := now\<rparr>" L now 4096] mac_rep_heap [OF L]
    by (simp cong: if_cong) blast
  let ?st = "st\<lparr>mp_last := now, mp_lists := h\<rparr>"
  have stack: "mac_stack ?st ?M k = filter ?live (mac_stack st L k)" for k
    using mbkt_less [of k] by (simp add: mac_stack_def chain_stack_def conj_commute)
  have "keyed_rep heap_is mac_key mbkt h (mp_obj st) ?M"
    using L h(2) mbkt_less by (auto simp: mac_rep_def keyed_rep_def)
  then have rep: "mac_rep ?st ?M"
    using L by (auto simp: mac_rep_def stack intro: order_trans [OF length_filter_le])
  have "(case m k of None \<Rightarrow> None | Some (p, t) \<Rightarrow> if t < now then None else Some (p, t)) =
      map_option (\<lambda>a. mac_val (mp_obj ?st a)) (top_of (mac_stack ?st ?M k))" for k
  proof (cases "mac_stack st L k")
    case (Cons a as)
    moreover have "length (mac_stack st L k) \<le> 1" using L by (simp add: mac_rep_def)
    ultimately show ?thesis by (simp add: stack m mac_val_def)
  qed (simp add: stack m)
  then have "mac_view ?st (\<lambda>k. case m k of None \<Rightarrow> None | Some (p, t) \<Rightarrow> if t < now then None else Some (p, t))"
    unfolding mac_view_def using rep by blast
  then show ?thesis using h(1) assms(2) by (simp add: portid_clear_def)
qed

section \<open>Properties\<close>

text \<open>
  portid_update records the port of an address that was not known, and leaves the answers
  for all other addresses alone. For a known address it keeps the recorded port, whatever port
  the address is now seen on: a host that moves to another port is sent to the old one.
\<close>

theorem mac_update_lookup:
  assumes "mac_view st m" and "mac_fresh a st" and "portid \<noteq> 0xFF"
  shows "\<exists>st'. portid_update now (Some a) mac portid st = Some st' \<and>
    portid_lookup mac st' = Some (case m mac of None \<Rightarrow> portid | Some (old, t) \<Rightarrow> old) \<and>
    (\<forall>k. k \<noteq> mac \<longrightarrow> portid_lookup k st' = portid_lookup k st) \<and> (\<exists>m'. mac_view st' m')"
proof -
  from mac_update_view [OF assms, of now mac] obtain st' where
    st': "portid_update now (Some a) mac portid st = Some st'"
    "mac_view st' (m(mac \<mapsto> (case m mac of None \<Rightarrow> portid | Some (p, t) \<Rightarrow> p, now + g_mac_live)))" by blast
  show ?thesis
    using st'(1) mac_lookup_view [OF st'(2)] mac_lookup_view [OF assms(1)] st'(2) by auto
qed

definition empty_macs :: mac_state where
  "empty_macs = \<lparr>mp_lists = \<lparr>heads = \<lambda>_. None, nodes = \<lambda>_. \<lparr>nxt = None, pprev = None\<rparr>\<rparr>,
     mp_obj = \<lambda>_. \<lparr>mp_addr = 0, mp_port = 0, mp_time = 0\<rparr>, mp_last = 0\<rparr>"

lemma empty_macs_view: "mac_view empty_macs (\<lambda>_. None)" "mac_fresh a empty_macs"
proof -
  have h: "heap_is (mp_lists empty_macs) (\<lambda>_. [])" by (simp add: heap_is_empty empty_macs_def)
  then show "mac_view empty_macs (\<lambda>_. None)"
    by (auto simp: mac_view_def mac_rep_def keyed_rep_def mac_stack_def chain_stack_def fun_eq_iff intro!: exI [of _ "\<lambda>_. []"])
  show "mac_fresh a empty_macs" using unlinked_iff [OF h] by (simp add: chain_fresh_def)
qed

theorem mac_update_lookup_witness:
  "\<exists>st'. portid_update 100 (Some 1) 0x0A0B0C0D0E0F 3 empty_macs = Some st' \<and>
     portid_lookup 0x0A0B0C0D0E0F st' = Some 3 \<and> portid_lookup 0x0A0B0C0D0E00 st' = Some 0xFF"
proof -
  have "portid_lookup 0x0A0B0C0D0E00 empty_macs = Some 0xFF"
    using mac_lookup_view [OF empty_macs_view(1)] by simp
  then show ?thesis
    using mac_update_lookup [OF empty_macs_view(1) empty_macs_view(2), of 3 100 1 "0x0A0B0C0D0E0F"] by fastforce
qed

text \<open>
  C26: an address seen at time \<open>t0\<close> is known to a sweep of portid_clear at \<open>t1\<close>, at least five
  seconds after the sweep before, exactly until \<open>t0 + 300\<close>; afterwards it is forgotten. Every
  other address survives the sweep exactly if it has not expired.
\<close>

theorem mac_expiry:
  assumes "mac_view st m" and "mac_fresh a st" and "portid \<noteq> 0xFF" and "mp_last st + 5 \<le> t1"
  shows "\<exists>st1 st2. portid_update t0 (Some a) mac portid st = Some st1 \<and> portid_clear t1 st1 = Some st2 \<and>
    portid_lookup mac st2 = (if t1 \<le> t0 + 300 then portid_lookup mac st1 else Some 0xFF) \<and>
    (\<forall>k. k \<noteq> mac \<longrightarrow> portid_lookup k st2 =
      Some (case m k of None \<Rightarrow> 0xFF | Some (p, t) \<Rightarrow> if t1 \<le> t then p else 0xFF))"
proof -
  let ?m = "m(mac \<mapsto> (case m mac of None \<Rightarrow> portid | Some (p, t) \<Rightarrow> p, t0 + g_mac_live))"
  from mac_update_view [OF assms(1-3), of t0 mac] obtain st1 where
    st1: "portid_update t0 (Some a) mac portid st = Some st1" "mp_last st1 = mp_last st" "mac_view st1 ?m" by blast
  from mac_clear_view [OF st1(3), of t1] st1(2) assms(4) obtain st2 where
    st2: "portid_clear t1 st1 = Some st2"
    "mac_view st2 (\<lambda>k. case ?m k of None \<Rightarrow> None | Some (p, t) \<Rightarrow> if t < t1 then None else Some (p, t))" by auto
  show ?thesis
    using st1(1) st2(1) mac_lookup_view [OF st2(2)] mac_lookup_view [OF st1(3)]
    by (auto simp: g_mac_live_def split: option.splits)
qed

theorem mac_expiry_witness:
  "\<exists>st1 st2. portid_update 100 (Some 1) 7 3 empty_macs = Some st1 \<and> portid_clear 401 st1 = Some st2 \<and>
     portid_lookup 7 st2 = Some 0xFF"
  using mac_expiry [OF empty_macs_view(1) empty_macs_view(2), of 3 401 100 1 7]
  by (simp add: empty_macs_def) blast

end
