(* ===== verification/Session_Types.thy ===== *)
theory Session_Types
  imports Aware_Prelude
begin

text \<open>
  The session record of al_session.h and the hash functions of its table. Bit fields keep
  their width; \<open>s_up\<close> is the address of the peer session and \<open>s_handler\<close> the code
  address of the packet handler.
\<close>

type_synonym ether_addr = "48 word"

record session_t =
  s_stype :: "3 word"
  s_is_ups :: "1 word"
  s_port_alloc :: "1 word"
  s_proto :: u8
  s_is_dr :: "1 word"
  s_ftype :: u8
  s_in_type :: "1 word"
  s_portid :: u8
  s_stout :: "12 word"
  s_up :: "addr option"
  s_local_addr :: ipcs_t
  s_remote_addr :: ipcs_t
  s_local_port :: u16
  s_remote_port :: u16
  s_to_haddr :: ether_addr
  s_from_haddr :: ether_addr
  s_fid :: u32
  s_mid :: u32
  s_arpid :: u32
  s_handler :: addr

definition MAX_SESSION_COUNTER :: nat where
  "MAX_SESSION_COUNTER = 2 ^ 16"

definition SESSION_IDLE_TIMEOUT :: "12 word" where
  "SESSION_IDLE_TIMEOUT = 60 * 5"

definition LISTEN_KEY :: "u32 \<Rightarrow> u16 \<Rightarrow> u8 \<Rightarrow> u32 \<Rightarrow> u32" where
  "LISTEN_KEY ip port proto msk = (ip XOR ucast port XOR ucast proto) AND msk"

definition pcb4_key :: "u32 \<Rightarrow> u16 \<Rightarrow> u32 \<Rightarrow> u16 \<Rightarrow> u8 \<Rightarrow> u32 \<Rightarrow> u32" where
  "pcb4_key rip rport lip lport proto msk =
     (let rkey = rip XOR drop_bit 16 rip;
          lkey = lip XOR drop_bit 16 lip
      in ((rkey XOR lkey) XOR (ucast lport XOR ucast rport) XOR ucast proto) AND msk)"

definition pcb6_key :: "u128 \<Rightarrow> u16 \<Rightarrow> u128 \<Rightarrow> u16 \<Rightarrow> u8 \<Rightarrow> u32 \<Rightarrow> u32" where
  "pcb6_key rip rport lip lport proto msk =
     (let rkey = rip XOR lip
      in pcb4_key (ucast rkey) rport (ucast (drop_bit 32 rkey)) lport proto msk)"

lemma hash_size_sessions [simp]: "HASHSIZE MAX_SESSION_COUNTER = 65536"
  by (simp only: MAX_SESSION_COUNTER_def HASHSIZE_pow2) simp

text \<open>The key of a connection does not depend on which end is called remote.\<close>

lemma pcb4_key_sym: "pcb4_key rip rport lip lport proto msk = pcb4_key lip lport rip rport proto msk"
  by (simp add: pcb4_key_def Let_def ac_simps)

lemma pcb4_key_in_table: "unat (pcb4_key rip rport lip lport proto msk AND 65535) < 65536"
  using unat_and_mask_less [of "pcb4_key rip rport lip lport proto msk" 16] by (simp add: mask_eq_exp_minus_1)

end
