(* ===== verification/Tuple5.thy ===== *)
theory Tuple5
  imports Hlist Session_Types
begin

text \<open>
  al_tuple5.h and al_tuple5.c: the tables of connections in use (one for IPv4 and one for
  IPv6) that map a five-tuple to the thread owning it, and the allocation of local ports.

  \<open>port_state\<close> holds the list heap shared by both tables, the pool objects, and the
  rotating \<open>port_start\<close>. Bucket \<open>i\<close> of port_table_v4 is list head \<open>i\<close> and bucket
  \<open>i\<close> of port_table_v6 is list head \<open>65536 + i\<close>. The answers of al_filter4_search and
  al_filter6_search (0 when a filter covers the address, port and protocol) are arguments.
\<close>

section \<open>Data and operations\<close>

record port_t =
  p_rip :: ipcs_t
  p_lip :: ipcs_t
  p_rport :: u16
  p_lport :: u16
  p_proto_type :: u8
  p_thread_id :: u8

record port_state =
  p_lists :: hheap
  p_obj :: "addr \<Rightarrow> port_t"
  p_start :: u16

definition connect_session_key_v6 :: "u128 \<Rightarrow> u16 \<Rightarrow> u128 \<Rightarrow> u16 \<Rightarrow> u8 \<Rightarrow> u32 \<Rightarrow> u32" where
  "connect_session_key_v6 rip rport lip lport proto msk =
     (let key = ((rip XOR lip) OR ucast (rport XOR lport)) OR ucast proto
      in ucast (((key AND 0xFFFFFFFF) XOR drop_bit 32 key) AND ucast msk))"

definition connect_session_key_v4 :: "u32 \<Rightarrow> u16 \<Rightarrow> u32 \<Rightarrow> u16 \<Rightarrow> u8 \<Rightarrow> u32 \<Rightarrow> u32" where
  "connect_session_key_v4 rip rport lip lport proto msk =
     (((rip XOR lip) OR ucast (rport XOR lport)) OR ucast proto) AND msk"

definition TCP_LOCAL_PORT_RANGE_START :: u16 where "TCP_LOCAL_PORT_RANGE_START = 0x0001"
definition TCP_LOCAL_PORT_RANGE_END :: u16 where "TCP_LOCAL_PORT_RANGE_END = 0xea60"

definition TCP_ENSURE_LOCAL_PORT_RANGE :: "u16 \<Rightarrow> u16" where
  "TCP_ENSURE_LOCAL_PORT_RANGE port =
     (port AND NOT TCP_LOCAL_PORT_RANGE_START) + TCP_LOCAL_PORT_RANGE_START"

text \<open>The mask set by port_init, and the list heads of the two tables.\<close>

definition port_mask :: u32 where
  "port_mask = of_nat (HASHSIZE MAX_SESSION_COUNTER - 1)"

definition port_table_v4 :: "u32 \<Rightarrow> addr" where "port_table_v4 key = unat key"
definition port_table_v6 :: "u32 \<Rightarrow> addr" where "port_table_v6 key = 65536 + unat key"

text \<open>port_init, with the outcome of rte_mempool_create and the value of rand().\<close>

definition port_init :: "bool \<Rightarrow> u16 \<Rightarrow> port_state \<Rightarrow> int \<times> port_state" where
  "port_init pool rnd st =
     (let n = HASHSIZE MAX_SESSION_COUNTER;
          h1 = fold (\<lambda>i. INIT_HLIST_HEAD (port_table_v4 (of_nat i))) [0..<n] (p_lists st);
          h2 = fold (\<lambda>i. INIT_HLIST_HEAD (port_table_v6 (of_nat i))) [0..<n] h1;
          st1 = st\<lparr>p_lists := h2\<rparr>
      in if \<not> pool then (-1, st1)
         else (0, st1\<lparr>p_start := TCP_ENSURE_LOCAL_PORT_RANGE rnd\<rparr>))"

text \<open>
  port_create ignores the result of rte_mempool_get and tests the pointer it should have
  set: when the pool is empty the pointer is indeterminate.
\<close>

definition port_create :: "addr option \<Rightarrow> addr option option" where
  "port_create got = (case got of None \<Rightarrow> None | Some a \<Rightarrow> Some (Some a))"

definition al_port_insert_v4 ::
  "u32 \<Rightarrow> addr option \<Rightarrow> u32 \<Rightarrow> u32 \<Rightarrow> u16 \<Rightarrow> u16 \<Rightarrow> u8 \<Rightarrow> port_state \<Rightarrow> (int \<times> port_state) option" where
  "al_port_insert_v4 lcoreid got rip lip rport lport proto_type st =
     do {
       tp \<leftarrow> port_create got;
       (case tp of
          None \<Rightarrow> Some (-1, st)
        | Some a \<Rightarrow>
            (let e = p_obj st a;
                 e' = \<lparr>p_rip = set_ipv4 rip (p_rip e), p_lip = set_ipv4 lip (p_lip e),
                       p_rport = rport, p_lport = lport, p_proto_type = proto_type,
                       p_thread_id = ucast lcoreid\<rparr>;
                 key = connect_session_key_v4 rip rport lip lport proto_type port_mask
             in Some (0, st\<lparr>p_obj := (p_obj st)(a := e'),
                            p_lists := hlist_add_head a (port_table_v4 key) (p_lists st)\<rparr>)))
     }"

definition al_port_insert_v6 ::
  "u32 \<Rightarrow> addr option \<Rightarrow> u128 \<Rightarrow> u128 \<Rightarrow> u16 \<Rightarrow> u16 \<Rightarrow> u8 \<Rightarrow> port_state \<Rightarrow> (int \<times> port_state) option" where
  "al_port_insert_v6 lcoreid got rip lip rport lport proto_type st =
     do {
       tp \<leftarrow> port_create got;
       (case tp of
          None \<Rightarrow> Some (-1, st)
        | Some a \<Rightarrow>
            (let e' = \<lparr>p_rip = rip, p_lip = lip,
                       p_rport = rport, p_lport = lport, p_proto_type = proto_type,
                       p_thread_id = ucast lcoreid\<rparr>;
                 key = connect_session_key_v6 rip rport lip lport proto_type port_mask
             in Some (0, st\<lparr>p_obj := (p_obj st)(a := e'),
                            p_lists := hlist_add_head a (port_table_v6 key) (p_lists st)\<rparr>)))
     }"

definition al_port_del_v4 ::
  "u32 \<Rightarrow> u32 \<Rightarrow> u16 \<Rightarrow> u16 \<Rightarrow> u8 \<Rightarrow> port_state \<Rightarrow> (int \<times> port_state) option" where
  "al_port_del_v4 rip lip rport lport proto_type st =
     do {
       let table = port_table_v4 (connect_session_key_v4 rip rport lip lport proto_type port_mask);
       pos1 \<leftarrow> hlist_find (\<lambda>pos. p_proto_type (p_obj st pos) = proto_type \<and> ipv4 (p_rip (p_obj st pos)) = rip \<and>
           ipv4 (p_lip (p_obj st pos)) = lip \<and> p_rport (p_obj st pos) = rport \<and> p_lport (p_obj st pos) = lport)
         (p_lists st) (heads (p_lists st) table);
       (case pos1 of
          None \<Rightarrow> Some (0, st)
        | Some a \<Rightarrow> do { h \<leftarrow> hlist_del a (p_lists st); Some (1, st\<lparr>p_lists := h\<rparr>) })
     }"

definition al_port_del_v6 ::
  "u128 \<Rightarrow> u128 \<Rightarrow> u16 \<Rightarrow> u16 \<Rightarrow> u8 \<Rightarrow> port_state \<Rightarrow> (int \<times> port_state) option" where
  "al_port_del_v6 rip lip rport lport proto_type st =
     do {
       let table = port_table_v6 (connect_session_key_v6 rip rport lip lport proto_type port_mask);
       pos1 \<leftarrow> hlist_find (\<lambda>pos. p_proto_type (p_obj st pos) = proto_type \<and> p_rip (p_obj st pos) = rip \<and>
           p_lip (p_obj st pos) = lip \<and> p_rport (p_obj st pos) = rport \<and> p_lport (p_obj st pos) = lport)
         (p_lists st) (heads (p_lists st) table);
       (case pos1 of
          None \<Rightarrow> Some (0, st)
        | Some a \<Rightarrow> do { h \<leftarrow> hlist_del a (p_lists st); Some (1, st\<lparr>p_lists := h\<rparr>) })
     }"

definition al_port_insert :: "u32 \<Rightarrow> addr option \<Rightarrow> session_t \<Rightarrow> port_state \<Rightarrow> (int \<times> port_state) option" where
  "al_port_insert lcoreid got u st =
     do {
       (rc, st') \<leftarrow> (if s_in_type u = 0
         then al_port_insert_v4 lcoreid got (ipv4 (s_remote_addr u)) (ipv4 (s_local_addr u))
                (s_remote_port u) (s_local_port u) (s_proto u) st
         else al_port_insert_v6 lcoreid got (s_remote_addr u) (s_local_addr u)
                (s_remote_port u) (s_local_port u) (s_proto u) st);
       Some (if rc = -1 then -1 else 0, st')
     }"

text \<open>The IPv6 branch of al_port_del inserts.\<close>

definition al_port_del :: "u32 \<Rightarrow> addr option \<Rightarrow> session_t \<Rightarrow> port_state \<Rightarrow> (int \<times> port_state) option" where
  "al_port_del lcoreid got u st =
     do {
       (rc, st') \<leftarrow> (if s_in_type u = 0
         then al_port_del_v4 (ipv4 (s_remote_addr u)) (ipv4 (s_local_addr u))
                (s_remote_port u) (s_local_port u) (s_proto u) st
         else al_port_insert_v6 lcoreid got (s_remote_addr u) (s_local_addr u)
                (s_remote_port u) (s_local_port u) (s_proto u) st);
       Some (if rc = -1 then -1 else 0, st')
     }"

definition which_thread_v4 :: "u32 \<Rightarrow> u32 \<Rightarrow> u16 \<Rightarrow> u16 \<Rightarrow> u8 \<Rightarrow> port_state \<Rightarrow> int option" where
  "which_thread_v4 rip lip rport lport proto_type st =
     do {
       let table = port_table_v4 (connect_session_key_v4 rip rport lip lport proto_type port_mask);
       pos \<leftarrow> hlist_find (\<lambda>pos. ipv4 (p_rip (p_obj st pos)) = rip \<and> ipv4 (p_lip (p_obj st pos)) = lip \<and>
           p_rport (p_obj st pos) = rport \<and> p_lport (p_obj st pos) = lport \<and> p_proto_type (p_obj st pos) = proto_type)
         (p_lists st) (heads (p_lists st) table);
       Some (case pos of None \<Rightarrow> -1 | Some a \<Rightarrow> uint (p_thread_id (p_obj st a)))
     }"

definition which_thread_v6 :: "u128 \<Rightarrow> u128 \<Rightarrow> u16 \<Rightarrow> u16 \<Rightarrow> u8 \<Rightarrow> port_state \<Rightarrow> int option" where
  "which_thread_v6 rip lip rport lport proto_type st =
     do {
       let table = port_table_v6 (connect_session_key_v6 rip rport lip lport proto_type port_mask);
       pos \<leftarrow> hlist_find (\<lambda>pos. p_rip (p_obj st pos) = rip \<and> p_lip (p_obj st pos) = lip \<and>
           p_rport (p_obj st pos) = rport \<and> p_lport (p_obj st pos) = lport \<and> p_proto_type (p_obj st pos) = proto_type)
         (p_lists st) (heads (p_lists st) table);
       Some (case pos of None \<Rightarrow> -1 | Some a \<Rightarrow> uint (p_thread_id (p_obj st a)))
     }"

definition is_connect_port_already_used_v4 ::
  "u32 \<Rightarrow> u32 \<Rightarrow> u16 \<Rightarrow> u16 \<Rightarrow> u8 \<Rightarrow> port_state \<Rightarrow> int option" where
  "is_connect_port_already_used_v4 rip lip rport lport proto_type st =
     do {
       let table = port_table_v4 (connect_session_key_v4 rip rport lip lport proto_type port_mask);
       pos1 \<leftarrow> hlist_find (\<lambda>pos. p_lport (p_obj st pos) = lport \<and>
           (ipv4 (p_rip (p_obj st pos)) = rip \<or> rip = 0) \<and> (ipv4 (p_lip (p_obj st pos)) = lip \<or> lip = 0) \<and>
           p_rport (p_obj st pos) = rport \<and> p_proto_type (p_obj st pos) = proto_type)
         (p_lists st) (heads (p_lists st) table);
       Some (if pos1 = None then 0 else 1)
     }"

definition is_connect_port_already_used_v6 ::
  "u128 \<Rightarrow> u128 \<Rightarrow> u16 \<Rightarrow> u16 \<Rightarrow> u8 \<Rightarrow> port_state \<Rightarrow> int option" where
  "is_connect_port_already_used_v6 rip lip rport lport proto_type st =
     do {
       let table = port_table_v6 (connect_session_key_v6 rip rport lip lport proto_type port_mask);
       pos1 \<leftarrow> hlist_find (\<lambda>pos. p_lport (p_obj st pos) = lport \<and>
           (p_rip (p_obj st pos) = rip \<or> rip = 0) \<and> (p_lip (p_obj st pos) = lip \<or> lip = 0) \<and>
           p_rport (p_obj st pos) = rport \<and> p_proto_type (p_obj st pos) = proto_type)
         (p_lists st) (heads (p_lists st) table);
       Some (if pos1 = None then 0 else 1)
     }"

text \<open>
  al_new_port_with_session. The IPv6 branch passes the first four bytes of the addresses to
  the table functions.
\<close>

definition al_new_port_with_session ::
  "(u32 \<Rightarrow> u16 \<Rightarrow> u8 \<Rightarrow> int) \<Rightarrow> (u128 \<Rightarrow> u16 \<Rightarrow> u8 \<Rightarrow> int) \<Rightarrow> u32 \<Rightarrow> addr option \<Rightarrow> session_t \<Rightarrow> port_state \<Rightarrow>
   (int \<times> session_t \<times> port_state) option" where
  "al_new_port_with_session al_filter4_search al_filter6_search lcoreid got s st =
     (let lport = s_local_port s
      in if s_in_type s = 0 then
           if al_filter4_search (ipv4 (s_local_addr s)) lport (s_proto s) = 0 then Some (-1, s, st)
           else do {
             used \<leftarrow> is_connect_port_already_used_v4 (ipv4 (s_remote_addr s)) (ipv4 (s_local_addr s))
                      (s_remote_port s) lport (s_proto s) st;
             if used = 1 then Some (-1, s, st)
             else do {
               (rc, st') \<leftarrow> al_port_insert_v4 lcoreid got (ipv4 (s_remote_addr s)) (ipv4 (s_local_addr s))
                            (s_remote_port s) lport (s_proto s) st;
               Some (if rc = -1 then (-1, s, st') else (0, s\<lparr>s_port_alloc := 1\<rparr>, st'))
             }
           }
         else
           if al_filter6_search (s_local_addr s) lport (s_proto s) = 0 then Some (-1, s, st)
           else do {
             used \<leftarrow> is_connect_port_already_used_v6 (ucast (ipv4 (s_remote_addr s))) (ucast (ipv4 (s_local_addr s)))
                      (s_remote_port s) lport (s_proto s) st;
             if used = 1 then Some (-1, s, st)
             else do {
               (rc, st') \<leftarrow> al_port_insert_v6 lcoreid got (ucast (ipv4 (s_remote_addr s))) (ucast (ipv4 (s_local_addr s)))
                            (s_remote_port s) lport (s_proto s) st;
               Some (if rc = -1 then (-1, s, st') else (0, s\<lparr>s_port_alloc := 1\<rparr>, st'))
             }
           })"

text \<open>
  The loop of al_alocate_new_port_with_session. \<open>port_start_next\<close> is the statement
  \<open>if (port_start++ == END) port_start = START\<close>; \<open>port_busy\<close> is the test of one
  candidate; \<open>alloc_scan\<close> is the code from the label again to the choice of a port, with
  the final \<open>port_start\<close> and the chosen port, if any. The filter of the IPv6 branch is
  asked with the address truncated to 32 bits.
\<close>

definition port_start_next :: "u16 \<Rightarrow> u16" where
  "port_start_next p =
     (if p = TCP_LOCAL_PORT_RANGE_END then TCP_LOCAL_PORT_RANGE_START else p + 1)"

definition port_busy ::
  "(u32 \<Rightarrow> u16 \<Rightarrow> u8 \<Rightarrow> int) \<Rightarrow> session_t \<Rightarrow> port_state \<Rightarrow> u16 \<Rightarrow> bool option" where
  "port_busy al_filter4_search s st lport =
     (if s_in_type s = 0 then
        if al_filter4_search (ipv4 (s_local_addr s)) lport (s_proto s) = 0 then Some True
        else map_option (\<lambda>u. u = 1)
               (is_connect_port_already_used_v4 (ipv4 (s_remote_addr s)) (ipv4 (s_local_addr s))
                  (s_remote_port s) lport (s_proto s) st)
      else
        if al_filter4_search (ucast (s_local_addr s)) lport (s_proto s) = 0 then Some True
        else map_option (\<lambda>u. u = 1)
               (is_connect_port_already_used_v6 (s_remote_addr s) (s_local_addr s)
                  (s_remote_port s) lport (s_proto s) st))"

function alloc_scan ::
  "(u32 \<Rightarrow> u16 \<Rightarrow> u8 \<Rightarrow> int) \<Rightarrow> session_t \<Rightarrow> port_state \<Rightarrow> u16 \<Rightarrow> u16 \<Rightarrow> (u16 \<times> u16 option) option" where
  "alloc_scan al_filter4_search s st port_start n =
     (let port_start' = port_start_next port_start;
          lport = bswap16 port_start';
          again = (if n + 1 \<le> TCP_LOCAL_PORT_RANGE_END - TCP_LOCAL_PORT_RANGE_START
                   then alloc_scan al_filter4_search s st port_start' (n + 1)
                   else Some (port_start', None))
      in case port_busy al_filter4_search s st lport of
           None \<Rightarrow> None
         | Some True \<Rightarrow> again
         | Some False \<Rightarrow> Some (port_start', Some lport))"
  by pat_completeness auto

termination alloc_scan
proof (relation "measure (\<lambda>(f, s, st, p, n). unat (TCP_LOCAL_PORT_RANGE_END - TCP_LOCAL_PORT_RANGE_START - n))", goal_cases)
  case (2 f s st p n)
  let ?r = "TCP_LOCAL_PORT_RANGE_END - TCP_LOCAL_PORT_RANGE_START"
  have "n + 1 \<le> ?r" using 2 by simp
  then have "unat (?r - (n + 1)) \<le> unat ?r" by (simp only: unat_sub word_le_nat_alt)
  also have "unat ?r = 59999" by (simp add: TCP_LOCAL_PORT_RANGE_END_def TCP_LOCAL_PORT_RANGE_START_def)
  finally have "unat (?r - (n + 1) + 1) = unat (?r - (n + 1)) + 1"
    by (intro unat_plus1) simp
  moreover have "?r - (n + 1) + 1 = ?r - n" by simp
  ultimately show ?case by simp
qed simp

declare alloc_scan.simps [simp del]

definition al_alocate_new_port_with_session ::
  "(u32 \<Rightarrow> u16 \<Rightarrow> u8 \<Rightarrow> int) \<Rightarrow> u32 \<Rightarrow> addr option \<Rightarrow> session_t \<Rightarrow> port_state \<Rightarrow>
   (int \<times> session_t \<times> port_state) option" where
  "al_alocate_new_port_with_session al_filter4_search lcoreid got s st =
     do {
       (ps, r) \<leftarrow> alloc_scan al_filter4_search s st (p_start st) 0;
       let st1 = st\<lparr>p_start := ps\<rparr>;
       (case r of
          None \<Rightarrow> Some (-1, s, st1)
        | Some lport \<Rightarrow>
            do {
              let s1 = s\<lparr>s_local_port := lport\<rparr>;
              (rc, st2) \<leftarrow> al_port_insert lcoreid got s1 st1;
              Some (if rc = -1 then -1 else 0, s1, st2)
            })
     }"

section \<open>The tables as stacks of owners\<close>

text \<open>
  A five-tuple is a key of one of the two tables. \<open>port_view st S\<close>: the state's lists are
  well formed and \<open>S k\<close> are the owners registered for \<open>k\<close>, the latest first.
\<close>

type_synonym key4 = "u32 \<times> u32 \<times> u16 \<times> u16 \<times> u8"
type_synonym key6 = "u128 \<times> u128 \<times> u16 \<times> u16 \<times> u8"

definition port_key4 :: "port_t \<Rightarrow> key4" where
  "port_key4 e = (ipv4 (p_rip e), ipv4 (p_lip e), p_rport e, p_lport e, p_proto_type e)"

definition port_key6 :: "port_t \<Rightarrow> key6" where
  "port_key6 e = (p_rip e, p_lip e, p_rport e, p_lport e, p_proto_type e)"

fun bkt4 :: "key4 \<Rightarrow> addr" where
  "bkt4 (rip, lip, rport, lport, proto) =
     port_table_v4 (connect_session_key_v4 rip rport lip lport proto port_mask)"

fun bkt6 :: "key6 \<Rightarrow> addr" where
  "bkt6 (rip, lip, rport, lport, proto) =
     port_table_v6 (connect_session_key_v6 rip rport lip lport proto port_mask)"

definition port_rep :: "port_state \<Rightarrow> (addr \<Rightarrow> addr list) \<Rightarrow> bool" where
  "port_rep st L \<longleftrightarrow>
     keyed_rep heap_is port_key4 bkt4 (p_lists st) (p_obj st) L \<and>
     keyed_rep heap_is port_key6 bkt6 (p_lists st) (p_obj st) L"

definition port_stacks :: "port_state \<Rightarrow> (addr \<Rightarrow> addr list) \<Rightarrow> key4 + key6 \<Rightarrow> addr list" where
  "port_stacks st L = case_sum (chain_stack port_key4 bkt4 (p_obj st) L) (chain_stack port_key6 bkt6 (p_obj st) L)"

definition owners :: "port_state \<Rightarrow> addr list \<Rightarrow> u8 list" where
  "owners st as = map (\<lambda>a. p_thread_id (p_obj st a)) as"

definition port_view :: "port_state \<Rightarrow> (key4 + key6 \<Rightarrow> u8 list) \<Rightarrow> bool" where
  "port_view st S \<longleftrightarrow> (\<exists>L. port_rep st L \<and> S = (\<lambda>k. owners st (port_stacks st L k)))"

abbreviation port_fresh :: "addr \<Rightarrow> port_state \<Rightarrow> bool" where
  "port_fresh a st \<equiv> unlinked a (p_lists st)"

lemma port_mask_eq: "port_mask = mask 16"
  by (simp add: port_mask_def mask_eq_exp_minus_1)

lemma connect_key_v4_in_table [al_keys]: "unat (connect_session_key_v4 rip rport lip lport proto port_mask) < 65536"
  using unat_and_mask_less [of _ 16] by (simp add: connect_session_key_v4_def port_mask_eq)

lemma connect_key_v6_in_table [al_keys]: "unat (connect_session_key_v6 rip rport lip lport proto port_mask) < 65536"
proof -
  have "ucast (x AND ucast m) = ucast x AND m" for x :: u128 and m :: u32
    by (rule bit_word_eqI) (auto simp: bit_simps)
  then show ?thesis
    using unat_and_mask_less [of _ 16] by (simp add: connect_session_key_v6_def Let_def port_mask_eq)
qed

lemma bkt_ranges: "bkt4 k < 65536" "65536 \<le> bkt6 k'" "bkt6 k' \<notin> range bkt4" "bkt4 k \<notin> range bkt6"
proof -
  have 4: "bkt4 k < 65536" for k by (cases k) (simp add: port_table_v4_def al_keys)
  have 6: "65536 \<le> bkt6 k" for k by (cases k) (simp add: port_table_v6_def)
  show "bkt4 k < 65536" "65536 \<le> bkt6 k'" by (rule 4, rule 6)
  show "bkt6 k' \<notin> range bkt4"
  proof
    assume "bkt6 k' \<in> range bkt4"
    then obtain j where "bkt6 k' = bkt4 j" by blast
    with 4 [of j] 6 [of k'] show False by simp
  qed
  show "bkt4 k \<notin> range bkt6"
  proof
    assume "bkt4 k \<in> range bkt6"
    then obtain j where "bkt4 k = bkt6 j" by blast
    with 4 [of k] 6 [of j] show False by simp
  qed
qed

lemma port_key4_eq:
  "port_key4 e = (rip, lip, rport, lport, proto) \<longleftrightarrow>
     ipv4 (p_rip e) = rip \<and> ipv4 (p_lip e) = lip \<and> p_rport e = rport \<and> p_lport e = lport \<and> p_proto_type e = proto"
  and port_key6_eq:
  "port_key6 e = (rip6, lip6, rport, lport, proto) \<longleftrightarrow>
     p_rip e = rip6 \<and> p_lip e = lip6 \<and> p_rport e = rport \<and> p_lport e = lport \<and> p_proto_type e = proto"
  by (auto simp: port_key4_def port_key6_def)

text \<open>The searches of the tables find the top of a stack.\<close>

lemma port_find4:
  assumes "port_rep st L"
  shows "hlist_find (\<lambda>pos. port_key4 (p_obj st pos) = k) (p_lists st) (heads (p_lists st) (bkt4 k))
    = Some (top_of (port_stacks st L (Inl k)))"
  using hl.keyed_find [of port_key4 bkt4] assms by (simp add: port_rep_def port_stacks_def chain_map_def)

lemma port_find6:
  assumes "port_rep st L"
  shows "hlist_find (\<lambda>pos. port_key6 (p_obj st pos) = k) (p_lists st) (heads (p_lists st) (bkt6 k))
    = Some (top_of (port_stacks st L (Inr k)))"
  using hl.keyed_find [of port_key6 bkt6] assms by (simp add: port_rep_def port_stacks_def chain_map_def)

lemma which_thread_v4_find:
  "which_thread_v4 rip lip rport lport proto st =
     map_option (\<lambda>pos. case pos of None \<Rightarrow> -1 | Some a \<Rightarrow> uint (p_thread_id (p_obj st a)))
       (hlist_find (\<lambda>pos. port_key4 (p_obj st pos) = (rip, lip, rport, lport, proto))
          (p_lists st) (heads (p_lists st) (bkt4 (rip, lip, rport, lport, proto))))"
  by (simp add: which_thread_v4_def port_key4_eq bind_Some_map)

lemma which_thread_v6_find:
  "which_thread_v6 rip lip rport lport proto st =
     map_option (\<lambda>pos. case pos of None \<Rightarrow> -1 | Some a \<Rightarrow> uint (p_thread_id (p_obj st a)))
       (hlist_find (\<lambda>pos. port_key6 (p_obj st pos) = (rip, lip, rport, lport, proto))
          (p_lists st) (heads (p_lists st) (bkt6 (rip, lip, rport, lport, proto))))"
  by (simp add: which_thread_v6_def port_key6_eq bind_Some_map)

text \<open>Both removals: find the key, unlink what was found.\<close>

definition port_unlink :: "addr option \<Rightarrow> port_state \<Rightarrow> (int \<times> port_state) option" where
  "port_unlink pos st =
     (case pos of None \<Rightarrow> Some (0, st)
      | Some a \<Rightarrow> map_option (\<lambda>h. (1, st\<lparr>p_lists := h\<rparr>)) (hlist_del a (p_lists st)))"

lemma al_port_del_v4_find:
  "al_port_del_v4 rip lip rport lport proto st =
     Option.bind (hlist_find (\<lambda>pos. port_key4 (p_obj st pos) = (rip, lip, rport, lport, proto))
          (p_lists st) (heads (p_lists st) (bkt4 (rip, lip, rport, lport, proto))))
       (\<lambda>pos. port_unlink pos st)"
proof -
  have "port_key4 e = (rip, lip, rport, lport, proto) \<longleftrightarrow>
     p_proto_type e = proto \<and> ipv4 (p_rip e) = rip \<and> ipv4 (p_lip e) = lip \<and> p_rport e = rport \<and> p_lport e = lport" for e
    by (auto simp: port_key4_def)
  then show ?thesis
    by (simp add: al_port_del_v4_def port_unlink_def bind_Some_map)
qed

lemma al_port_del_v6_find:
  "al_port_del_v6 rip lip rport lport proto st =
     Option.bind (hlist_find (\<lambda>pos. port_key6 (p_obj st pos) = (rip, lip, rport, lport, proto))
          (p_lists st) (heads (p_lists st) (bkt6 (rip, lip, rport, lport, proto))))
       (\<lambda>pos. port_unlink pos st)"
proof -
  have "port_key6 e = (rip, lip, rport, lport, proto) \<longleftrightarrow>
     p_proto_type e = proto \<and> p_rip e = rip \<and> p_lip e = lip \<and> p_rport e = rport \<and> p_lport e = lport" for e
    by (auto simp: port_key6_def)
  then show ?thesis
    by (simp add: al_port_del_v6_def port_unlink_def bind_Some_map)
qed

text \<open>Insertion pushes, removal pops, on the level of the lists.\<close>

lemma port_rep_heap: "port_rep st L \<Longrightarrow> heap_is (p_lists st) L"
  by (simp add: port_rep_def keyed_rep_def)

lemma port_rep_insert4:
  assumes "port_rep st L" "chain_fresh a L"
  defines "st' e \<equiv> st\<lparr>p_obj := (p_obj st)(a := e), p_lists := hlist_add_head a (bkt4 (port_key4 e)) (p_lists st)\<rparr>"
    and "L' e \<equiv> L(bkt4 (port_key4 e) := a # L (bkt4 (port_key4 e)))"
  shows "port_rep (st' e) (L' e)"
    and "port_stacks (st' e) (L' e) = (port_stacks st L)(Inl (port_key4 e) := a # port_stacks st L (Inl (port_key4 e)))"
proof -
  show "port_rep (st' e) (L' e)"
    using assms(1,2) hl.keyed_add [of port_key4 bkt4 "p_lists st" "p_obj st" L a e]
      hl.keyed_add_other [of port_key6 bkt6 "p_lists st" "p_obj st" L a "bkt4 (port_key4 e)" e]
    by (simp add: port_rep_def st'_def L'_def bkt_ranges)
  have "chain_stack port_key6 bkt6 ((p_obj st)(a := e)) (L' e) = chain_stack port_key6 bkt6 (p_obj st) L"
    using assms(2) by (simp add: L'_def chain_stack_other bkt_ranges chain_stack_obj_upd)
  then show "port_stacks (st' e) (L' e) = (port_stacks st L)(Inl (port_key4 e) := a # port_stacks st L (Inl (port_key4 e)))"
    using chain_stack_add [OF assms(2), of port_key4 bkt4 "p_obj st" e]
    by (simp add: port_stacks_def st'_def L'_def case_sum_upd)
qed

lemma port_rep_insert6:
  assumes "port_rep st L" "chain_fresh a L"
  defines "st' e \<equiv> st\<lparr>p_obj := (p_obj st)(a := e), p_lists := hlist_add_head a (bkt6 (port_key6 e)) (p_lists st)\<rparr>"
    and "L' e \<equiv> L(bkt6 (port_key6 e) := a # L (bkt6 (port_key6 e)))"
  shows "port_rep (st' e) (L' e)"
    and "port_stacks (st' e) (L' e) = (port_stacks st L)(Inr (port_key6 e) := a # port_stacks st L (Inr (port_key6 e)))"
proof -
  show "port_rep (st' e) (L' e)"
    using assms(1,2) hl.keyed_add [of port_key6 bkt6 "p_lists st" "p_obj st" L a e]
      hl.keyed_add_other [of port_key4 bkt4 "p_lists st" "p_obj st" L a "bkt6 (port_key6 e)" e]
    by (simp add: port_rep_def st'_def L'_def bkt_ranges)
  have "chain_stack port_key4 bkt4 ((p_obj st)(a := e)) (L' e) = chain_stack port_key4 bkt4 (p_obj st) L"
    using assms(2) by (simp add: L'_def chain_stack_other bkt_ranges chain_stack_obj_upd)
  then show "port_stacks (st' e) (L' e) = (port_stacks st L)(Inr (port_key6 e) := a # port_stacks st L (Inr (port_key6 e)))"
    using chain_stack_add [OF assms(2), of port_key6 bkt6 "p_obj st" e]
    by (simp add: port_stacks_def st'_def L'_def case_sum_upd)
qed

definition bkt46 :: "key4 + key6 \<Rightarrow> addr" where
  "bkt46 = case_sum bkt4 bkt6"

lemma port_stacks_bkt: "a \<in> set (port_stacks st L k) \<Longrightarrow> a \<in> set (L (bkt46 k))"
  by (cases k) (simp_all add: port_stacks_def bkt46_def chain_stack_set)

lemma port_rep_unlink:
  assumes L: "port_rep st L"
  obtains st' L' where "port_unlink (top_of (port_stacks st L k)) st = Some (if port_stacks st L k = [] then 0 else 1, st')"
    "port_rep st' L'" "p_obj st' = p_obj st" "p_start st' = p_start st"
    "port_stacks st' L' = (port_stacks st L)(k := tl (port_stacks st L k))"
    "\<And>a. chain_fresh a L \<Longrightarrow> chain_fresh a L'"
proof (cases "port_stacks st L k")
  case Nil
  then show ?thesis using that [of st L] L by (simp add: port_unlink_def fun_upd_idem)
next
  case (Cons a as)
  then have a: "a \<in> set (L (bkt46 k))" using port_stacks_bkt [of a st L k] by simp
  let ?L = "L(bkt46 k := remove1 a (L (bkt46 k)))"
  from L have "keyed_rep heap_is port_key4 bkt4 (p_lists st) (p_obj st) L" by (simp add: port_rep_def)
  from hl.keyed_del [OF this a] obtain h where h: "hlist_del a (p_lists st) = Some h" "heap_is h ?L"
    "keyed_rep heap_is port_key4 bkt4 h (p_obj st) ?L" by blast
  moreover from L have "keyed_rep heap_is port_key6 bkt6 (p_lists st) (p_obj st) L" by (simp add: port_rep_def)
  from hl.keyed_del [OF this a] h(1) have "keyed_rep heap_is port_key6 bkt6 h (p_obj st) ?L" by auto
  ultimately have rep: "port_rep (st\<lparr>p_lists := h\<rparr>) ?L" by (simp add: port_rep_def)
  have "port_stacks (st\<lparr>p_lists := h\<rparr>) ?L = (port_stacks st L)(k := as)"
  proof (cases k)
    case (Inl k4)
    then show ?thesis
      using Cons chain_stack_del [of port_key4 bkt4 "p_obj st" L k4 a as] bkt_ranges(4) [of k4]
      by (simp add: port_stacks_def bkt46_def chain_stack_other case_sum_upd)
  next
    case (Inr k6)
    then show ?thesis
      using Cons chain_stack_del [of port_key6 bkt6 "p_obj st" L k6 a as] bkt_ranges(3) [of k6]
      by (simp add: port_stacks_def bkt46_def chain_stack_other case_sum_upd)
  qed
  moreover have "chain_fresh x L \<Longrightarrow> chain_fresh x ?L" for x
    by (auto simp: chain_fresh_def dest: notin_set_remove1)
  ultimately show ?thesis
    using that [of "st\<lparr>p_lists := h\<rparr>" ?L] Cons h(1) rep by (simp add: port_unlink_def)
qed

text \<open>The operations of both tables under one key type.\<close>

fun port_lookup :: "port_state \<Rightarrow> key4 + key6 \<Rightarrow> u8 option option" where
  "port_lookup st (Inl (rip, lip, rport, lport, proto)) =
     map_option (\<lambda>rc. if rc = -1 then None else Some (word_of_int rc)) (which_thread_v4 rip lip rport lport proto st)"
| "port_lookup st (Inr (rip, lip, rport, lport, proto)) =
     map_option (\<lambda>rc. if rc = -1 then None else Some (word_of_int rc)) (which_thread_v6 rip lip rport lport proto st)"

fun port_push :: "addr \<Rightarrow> key4 + key6 \<Rightarrow> u8 \<Rightarrow> port_state \<Rightarrow> port_state option" where
  "port_push a (Inl (rip, lip, rport, lport, proto)) t st =
     map_option snd (al_port_insert_v4 (ucast t) (Some a) rip lip rport lport proto st)"
| "port_push a (Inr (rip, lip, rport, lport, proto)) t st =
     map_option snd (al_port_insert_v6 (ucast t) (Some a) rip lip rport lport proto st)"

fun port_pop :: "key4 + key6 \<Rightarrow> port_state \<Rightarrow> (bool \<times> port_state) option" where
  "port_pop (Inl (rip, lip, rport, lport, proto)) st =
     map_option (\<lambda>(rc, st'). (rc = 1, st')) (al_port_del_v4 rip lip rport lport proto st)"
| "port_pop (Inr (rip, lip, rport, lport, proto)) st =
     map_option (\<lambda>(rc, st'). (rc = 1, st')) (al_port_del_v6 rip lip rport lport proto st)"

lemma top_of_map: "top_of (map f xs) = map_option f (top_of xs)"
  by (cases xs) simp_all

lemma uint_not_minus1 [simp]: "uint (w :: 'a::len word) \<noteq> -1" "-1 \<noteq> uint (w :: 'a::len word)"
  using uint_ge_0 [of w] by linarith+

lemma which_thread_v4_stack:
  "port_rep st L \<Longrightarrow> which_thread_v4 rip lip rport lport proto st =
     Some (case top_of (port_stacks st L (Inl (rip, lip, rport, lport, proto))) of
             None \<Rightarrow> -1 | Some a \<Rightarrow> uint (p_thread_id (p_obj st a)))"
  and which_thread_v6_stack:
  "port_rep st L \<Longrightarrow> which_thread_v6 rip6 lip6 rport lport proto st =
     Some (case top_of (port_stacks st L (Inr (rip6, lip6, rport, lport, proto))) of
             None \<Rightarrow> -1 | Some a \<Rightarrow> uint (p_thread_id (p_obj st a)))"
  by (simp_all add: which_thread_v4_find which_thread_v6_find port_find4 port_find6 del: bkt4.simps bkt6.simps)

lemma port_view_insert:
  assumes "port_rep st' L'" "port_stacks st' L' = (port_stacks st L)(k := a # port_stacks st L k)"
    "S = (\<lambda>k. owners st (port_stacks st L k))" "chain_fresh a L" "p_obj st' = (p_obj st)(a := e)"
  shows "port_view st' (S(k := p_thread_id e # S k))"
proof -
  have "x \<in> set (port_stacks st L j) \<Longrightarrow> x \<noteq> a" for x j
    using assms(4) port_stacks_bkt [of x st L j] by (auto simp: chain_fresh_def)
  then have "S(k := p_thread_id e # S k) = (\<lambda>k. owners st' (port_stacks st' L' k))"
    unfolding assms(2) by (auto simp: fun_eq_iff owners_def assms(3,5))
  with assms(1) show ?thesis unfolding port_view_def by blast
qed

lemma al_port_insert_v4_ok:
  fixes rip lip :: u32 and rport lport :: u16 and proto :: u8
  assumes S: "port_view st S" and a: "port_fresh a st"
  defines "k \<equiv> Inl (rip, lip, rport, lport, proto)"
  shows "\<exists>st'. al_port_insert_v4 lc (Some a) rip lip rport lport proto st = Some (0, st') \<and>
    port_view st' (S(k := ucast lc # S k)) \<and> p_start st' = p_start st"
proof -
  from S obtain L where L: "port_rep st L" and SL: "S = (\<lambda>k. owners st (port_stacks st L k))"
    by (auto simp: port_view_def)
  have fresh: "chain_fresh a L" using a L by (simp add: unlinked_iff [OF port_rep_heap])
  define e where "e = \<lparr>p_rip = set_ipv4 rip (p_rip (p_obj st a)), p_lip = set_ipv4 lip (p_lip (p_obj st a)),
    p_rport = rport, p_lport = lport, p_proto_type = proto, p_thread_id = ucast lc\<rparr>"
  have k: "port_key4 e = (rip, lip, rport, lport, proto)" by (simp add: port_key4_def e_def)
  have thr: "p_thread_id e = ucast lc" by (simp add: e_def)
  note ins = port_rep_insert4 [OF L fresh, of e]
  let ?st = "st\<lparr>p_obj := (p_obj st)(a := e), p_lists := hlist_add_head a (bkt4 (port_key4 e)) (p_lists st)\<rparr>"
  have "al_port_insert_v4 lc (Some a) rip lip rport lport proto st = Some (0, ?st)"
    by (simp add: al_port_insert_v4_def port_create_def Let_def e_def k [unfolded e_def])
  moreover have "port_view ?st (S(k := ucast lc # S k))"
    using port_view_insert [OF ins SL fresh, of e] thr by (simp add: k k_def)
  ultimately show ?thesis by simp
qed

lemma al_port_insert_v6_ok:
  fixes rip lip :: u128 and rport lport :: u16 and proto :: u8
  assumes S: "port_view st S" and a: "port_fresh a st"
  defines "k \<equiv> Inr (rip, lip, rport, lport, proto)"
  shows "\<exists>st'. al_port_insert_v6 lc (Some a) rip lip rport lport proto st = Some (0, st') \<and>
    port_view st' (S(k := ucast lc # S k)) \<and> p_start st' = p_start st"
proof -
  from S obtain L where L: "port_rep st L" and SL: "S = (\<lambda>k. owners st (port_stacks st L k))"
    by (auto simp: port_view_def)
  have fresh: "chain_fresh a L" using a L by (simp add: unlinked_iff [OF port_rep_heap])
  define e where "e = \<lparr>p_rip = rip, p_lip = lip,
    p_rport = rport, p_lport = lport, p_proto_type = proto, p_thread_id = ucast lc\<rparr>"
  have k: "port_key6 e = (rip, lip, rport, lport, proto)" by (simp add: port_key6_def e_def)
  have thr: "p_thread_id e = ucast lc" by (simp add: e_def)
  note ins = port_rep_insert6 [OF L fresh, of e]
  let ?st = "st\<lparr>p_obj := (p_obj st)(a := e), p_lists := hlist_add_head a (bkt6 (port_key6 e)) (p_lists st)\<rparr>"
  have "al_port_insert_v6 lc (Some a) rip lip rport lport proto st = Some (0, ?st)"
    by (simp add: al_port_insert_v6_def port_create_def Let_def e_def k [unfolded e_def])
  moreover have "port_view ?st (S(k := ucast lc # S k))"
    using port_view_insert [OF ins SL fresh, of e] thr by (simp add: k k_def)
  ultimately show ?thesis by simp
qed

lemma port_unlink_ok:
  assumes L: "port_rep st L" and SL: "S = (\<lambda>k. owners st (port_stacks st L k))"
  shows "\<exists>st'. port_unlink (top_of (port_stacks st L k)) st = Some (if S k = [] then 0 else 1, st') \<and>
    port_view st' (S(k := tl (S k))) \<and> p_start st' = p_start st \<and> (\<forall>a. port_fresh a st \<longrightarrow> port_fresh a st')"
proof -
  obtain st' L' where st': "port_unlink (top_of (port_stacks st L k)) st = Some (if port_stacks st L k = [] then 0 else 1, st')"
    "port_rep st' L'" "p_obj st' = p_obj st" "p_start st' = p_start st"
    "port_stacks st' L' = (port_stacks st L)(k := tl (port_stacks st L k))"
    "\<And>a. chain_fresh a L \<Longrightarrow> chain_fresh a L'" using port_rep_unlink [OF L, of k] by blast
  have "(\<lambda>k. owners st' (port_stacks st' L' k)) = S(k := tl (S k))"
    by (simp add: fun_eq_iff st'(3,5) owners_def SL map_tl)
  then have "port_view st' (S(k := tl (S k)))" using st'(2) by (auto simp: port_view_def)
  moreover have "port_fresh a st \<Longrightarrow> port_fresh a st'" for a
    using st'(6) unlinked_iff [OF port_rep_heap [OF L]] unlinked_iff [OF port_rep_heap [OF st'(2)]] by blast
  ultimately show ?thesis using st'(1,4) by (simp add: SL owners_def)
qed

lemma al_port_del_v4_ok:
  fixes rip lip :: u32 and rport lport :: u16 and proto :: u8
  assumes "port_view st S"
  defines "k \<equiv> Inl (rip, lip, rport, lport, proto)"
  shows "\<exists>st'. al_port_del_v4 rip lip rport lport proto st = Some (if S k = [] then 0 else 1, st') \<and>
    port_view st' (S(k := tl (S k))) \<and> p_start st' = p_start st \<and> (\<forall>a. port_fresh a st \<longrightarrow> port_fresh a st')"
proof -
  from assms(1) obtain L where L: "port_rep st L" "S = (\<lambda>k. owners st (port_stacks st L k))"
    by (auto simp: port_view_def)
  then show ?thesis
    using port_unlink_ok [OF L, of k] by (simp add: al_port_del_v4_find port_find4 k_def del: bkt4.simps)
qed

lemma al_port_del_v6_ok:
  fixes rip lip :: u128 and rport lport :: u16 and proto :: u8
  assumes "port_view st S"
  defines "k \<equiv> Inr (rip, lip, rport, lport, proto)"
  shows "\<exists>st'. al_port_del_v6 rip lip rport lport proto st = Some (if S k = [] then 0 else 1, st') \<and>
    port_view st' (S(k := tl (S k))) \<and> p_start st' = p_start st \<and> (\<forall>a. port_fresh a st \<longrightarrow> port_fresh a st')"
proof -
  from assms(1) obtain L where L: "port_rep st L" "S = (\<lambda>k. owners st (port_stacks st L k))"
    by (auto simp: port_view_def)
  then show ?thesis
    using port_unlink_ok [OF L, of k] by (simp add: al_port_del_v6_find port_find6 k_def del: bkt6.simps)
qed

interpretation pt: stack_table port_view port_fresh port_lookup port_push port_pop
proof
  fix st S and k :: "key4 + key6" and a :: addr and t :: u8
  assume S: "port_view st S"
  then obtain L where L: "port_rep st L" and SL: "S = (\<lambda>k. owners st (port_stacks st L k))"
    by (auto simp: port_view_def)
  show "port_lookup st k = Some (top_of (S k))"
    by (cases "(st, k)" rule: port_lookup.cases)
      (auto simp: which_thread_v4_stack [OF L] which_thread_v6_stack [OF L] SL owners_def top_of_map split: option.splits)
  show "\<exists>st'. port_pop k st = Some (S k \<noteq> [], st') \<and> port_view st' (S(k := tl (S k)))"
  proof (cases "(k, st)" rule: port_pop.cases)
    case (1 rip lip rport lport proto)
    then show ?thesis using al_port_del_v4_ok [OF S, of rip lip rport lport proto] by auto
  next
    case (2 rip lip rport lport proto)
    then show ?thesis using al_port_del_v6_ok [OF S, of rip lip rport lport proto] by auto
  qed
  assume a: "port_fresh a st"
  show "\<exists>st'. port_push a k t st = Some st' \<and> port_view st' (S(k := t # S k))"
  proof (cases "(a, k, t, st)" rule: port_push.cases)
    case (1 _ rip lip rport lport proto)
    then show ?thesis using al_port_insert_v4_ok [OF S a, of "ucast t" rip lip rport lport proto] by auto
  next
    case (2 _ rip lip rport lport proto)
    then show ?thesis using al_port_insert_v6_ok [OF S a, of "ucast t" rip lip rport lport proto] by auto
  qed
qed

section \<open>Port allocation\<close>

definition session_key :: "session_t \<Rightarrow> key4 + key6" where
  "session_key s =
     (if s_in_type s = 0
      then Inl (ipv4 (s_remote_addr s), ipv4 (s_local_addr s), s_remote_port s, s_local_port s, s_proto s)
      else Inr (s_remote_addr s, s_local_addr s, s_remote_port s, s_local_port s, s_proto s))"

text \<open>An address of zero is a wild card of the test for a used port.\<close>

definition no_wildcard :: "session_t \<Rightarrow> bool" where
  "no_wildcard s \<longleftrightarrow>
     (if s_in_type s = 0 then ipv4 (s_remote_addr s) \<noteq> 0 \<and> ipv4 (s_local_addr s) \<noteq> 0
      else s_remote_addr s \<noteq> 0 \<and> s_local_addr s \<noteq> 0)"

definition filtered :: "(u32 \<Rightarrow> u16 \<Rightarrow> u8 \<Rightarrow> int) \<Rightarrow> session_t \<Rightarrow> u16 \<Rightarrow> bool" where
  "filtered f s lport \<longleftrightarrow> f (ipv4 (s_local_addr s)) lport (s_proto s) = 0"

lemma port_used_v4:
  fixes rip lip :: u32 and rport lport :: u16 and proto :: u8
  assumes "port_view st S"
  defines "k \<equiv> Inl (rip, lip, rport, lport, proto)"
  obtains used where "is_connect_port_already_used_v4 rip lip rport lport proto st = Some (if used then 1 else 0)"
    "\<not> used \<Longrightarrow> S k = []" "used \<Longrightarrow> rip \<noteq> 0 \<Longrightarrow> lip \<noteq> 0 \<Longrightarrow> S k \<noteq> []"
proof -
  from assms(1) obtain L where L: "port_rep st L" "S = (\<lambda>k. owners st (port_stacks st L k))"
    by (auto simp: port_view_def)
  let ?B = "L (bkt4 (rip, lip, rport, lport, proto))"
  let ?P = "\<lambda>a. p_lport (p_obj st a) = lport \<and> (ipv4 (p_rip (p_obj st a)) = rip \<or> rip = 0) \<and>
    (ipv4 (p_lip (p_obj st a)) = lip \<or> lip = 0) \<and> p_rport (p_obj st a) = rport \<and> p_proto_type (p_obj st a) = proto"
  have S: "S k = [] \<longleftrightarrow> (\<forall>a \<in> set ?B. port_key4 (p_obj st a) \<noteq> (rip, lip, rport, lport, proto))"
    by (simp add: L(2) owners_def port_stacks_def k_def chain_stack_def filter_empty_conv del: bkt4.simps)
  have "List.find ?P ?B = None \<longleftrightarrow> \<not> (\<exists>a \<in> set ?B. ?P a)" by (auto simp: find_None_iff)
  then have eq: "is_connect_port_already_used_v4 rip lip rport lport proto st = Some (if \<exists>a \<in> set ?B. ?P a then 1 else 0)"
    by (simp add: is_connect_port_already_used_v4_def heap_is_find [OF port_rep_heap [OF L(1)]])
  show ?thesis by (rule that [OF eq]) (auto simp: S port_key4_eq)
qed

lemma port_used_v6:
  fixes rip lip :: u128 and rport lport :: u16 and proto :: u8
  assumes "port_view st S"
  defines "k \<equiv> Inr (rip, lip, rport, lport, proto)"
  obtains used where "is_connect_port_already_used_v6 rip lip rport lport proto st = Some (if used then 1 else 0)"
    "\<not> used \<Longrightarrow> S k = []" "used \<Longrightarrow> rip \<noteq> 0 \<Longrightarrow> lip \<noteq> 0 \<Longrightarrow> S k \<noteq> []"
proof -
  from assms(1) obtain L where L: "port_rep st L" "S = (\<lambda>k. owners st (port_stacks st L k))"
    by (auto simp: port_view_def)
  let ?B = "L (bkt6 (rip, lip, rport, lport, proto))"
  let ?P = "\<lambda>a. p_lport (p_obj st a) = lport \<and> (p_rip (p_obj st a) = rip \<or> rip = 0) \<and>
    (p_lip (p_obj st a) = lip \<or> lip = 0) \<and> p_rport (p_obj st a) = rport \<and> p_proto_type (p_obj st a) = proto"
  have S: "S k = [] \<longleftrightarrow> (\<forall>a \<in> set ?B. port_key6 (p_obj st a) \<noteq> (rip, lip, rport, lport, proto))"
    by (simp add: L(2) owners_def port_stacks_def k_def chain_stack_def filter_empty_conv del: bkt6.simps)
  have "List.find ?P ?B = None \<longleftrightarrow> \<not> (\<exists>a \<in> set ?B. ?P a)" by (auto simp: find_None_iff)
  then have eq: "is_connect_port_already_used_v6 rip lip rport lport proto st = Some (if \<exists>a \<in> set ?B. ?P a then 1 else 0)"
    by (simp add: is_connect_port_already_used_v6_def heap_is_find [OF port_rep_heap [OF L(1)]])
  show ?thesis by (rule that [OF eq]) (auto simp: S port_key6_eq)
qed

lemma port_busy_ok:
  assumes S: "port_view st S"
  obtains busy where "port_busy f s st lport = Some busy"
    "\<not> busy \<Longrightarrow> \<not> filtered f s lport \<and> S (session_key (s\<lparr>s_local_port := lport\<rparr>)) = []"
    "busy \<Longrightarrow> no_wildcard s \<Longrightarrow> filtered f s lport \<or> S (session_key (s\<lparr>s_local_port := lport\<rparr>)) \<noteq> []"
proof (cases "s_in_type s = 0")
  case True
  obtain used where "is_connect_port_already_used_v4 (ipv4 (s_remote_addr s)) (ipv4 (s_local_addr s))
      (s_remote_port s) lport (s_proto s) st = Some (if used then 1 else 0)"
    "\<not> used \<Longrightarrow> S (session_key (s\<lparr>s_local_port := lport\<rparr>)) = []"
    "used \<Longrightarrow> no_wildcard s \<Longrightarrow> S (session_key (s\<lparr>s_local_port := lport\<rparr>)) \<noteq> []"
    by (rule port_used_v4 [OF S, of "ipv4 (s_remote_addr s)" "ipv4 (s_local_addr s)" "s_remote_port s" lport "s_proto s"])
      (use True in \<open>auto simp: session_key_def no_wildcard_def\<close>)
  then show ?thesis
    by (intro that [of "filtered f s lport \<or> used"]) (simp_all add: port_busy_def filtered_def True, blast)
next
  case False
  obtain used where "is_connect_port_already_used_v6 (s_remote_addr s) (s_local_addr s)
      (s_remote_port s) lport (s_proto s) st = Some (if used then 1 else 0)"
    "\<not> used \<Longrightarrow> S (session_key (s\<lparr>s_local_port := lport\<rparr>)) = []"
    "used \<Longrightarrow> no_wildcard s \<Longrightarrow> S (session_key (s\<lparr>s_local_port := lport\<rparr>)) \<noteq> []"
    by (rule port_used_v6 [OF S, of "s_remote_addr s" "s_local_addr s" "s_remote_port s" lport "s_proto s"])
      (use False in \<open>auto simp: session_key_def no_wildcard_def\<close>)
  then show ?thesis
    by (intro that [of "filtered f s lport \<or> used"]) (simp_all add: port_busy_def filtered_def False ipv4_def, blast)
qed

text \<open>The candidates the loop looks at, and the port it stops at.\<close>

primrec candidates :: "u16 \<Rightarrow> nat \<Rightarrow> u16 list" where
  "candidates p 0 = []"
| "candidates p (Suc m) = port_start_next p # candidates (port_start_next p) m"

definition port_free :: "(u32 \<Rightarrow> u16 \<Rightarrow> u8 \<Rightarrow> int) \<Rightarrow> session_t \<Rightarrow> port_state \<Rightarrow> u16 \<Rightarrow> bool" where
  "port_free f s st p \<longleftrightarrow> port_busy f s st (bswap16 p) = Some False"

lemma alloc_scan_find:
  assumes busy: "\<And>lport. port_busy f s st lport \<noteq> None" and "unat n + m = 60000" "0 < m"
  shows "alloc_scan f s st p n = Some
    (case List.find (port_free f s st) (candidates p m) of
       None \<Rightarrow> (last (candidates p m), None) | Some q \<Rightarrow> (q, Some (bswap16 q)))"
  using assms(2,3)
proof (induction m arbitrary: n p)
  case (Suc m)
  let ?q = "port_start_next p"
  obtain b where b: "port_busy f s st (bswap16 ?q) = Some b" using busy by blast
  have r: "TCP_LOCAL_PORT_RANGE_END - TCP_LOCAL_PORT_RANGE_START = (59999 :: u16)"
    by (simp add: TCP_LOCAL_PORT_RANGE_END_def TCP_LOCAL_PORT_RANGE_START_def)
  have n1: "unat (n + 1) = unat n + 1" using Suc.prems by (intro unat_plus1) simp
  show ?case
  proof (cases "m = 0")
    case True
    then have "\<not> n + 1 \<le> 59999" using Suc.prems n1 by (simp add: word_le_nat_alt)
    with True b show ?thesis
      by (subst alloc_scan.simps) (simp add: r port_free_def Let_def split: bool.splits)
  next
    case False
    then have "n + 1 \<le> 59999" using Suc.prems n1 by (simp add: word_le_nat_alt)
    moreover have "alloc_scan f s st ?q (n + 1) = Some
      (case List.find (port_free f s st) (candidates ?q m) of
         None \<Rightarrow> (last (candidates ?q m), None) | Some q \<Rightarrow> (q, Some (bswap16 q)))"
      using Suc.prems n1 False by (intro Suc.IH) simp_all
    moreover have "candidates ?q m \<noteq> []" using False by (cases m) simp_all
    ultimately show ?thesis using b
      by (subst alloc_scan.simps) (simp add: r port_free_def Let_def split: bool.splits option.splits)
  qed
qed simp

text \<open>
  From a start in the range the candidates run once around the whole range 1, \<dots>, 60000.
\<close>

lemma port_start_next_mod:
  assumes "unat p \<le> 60000"
  shows "unat (port_start_next p) = unat p mod 60000 + 1"
proof (cases "p = 60000")
  case False
  then have "unat p \<noteq> unat (60000 :: u16)" by (metis word_unat_eq_iff)
  then have "unat p < 60000" using assms by simp
  then show ?thesis using False by (simp add: port_start_next_def TCP_LOCAL_PORT_RANGE_END_def unat_plus1)
qed (simp add: port_start_next_def TCP_LOCAL_PORT_RANGE_END_def TCP_LOCAL_PORT_RANGE_START_def)

lemma candidates_nth:
  "unat p \<le> 60000 \<Longrightarrow> i < m \<Longrightarrow> unat (candidates p m ! i) = (unat p + i) mod 60000 + 1"
proof (induction m arbitrary: p i)
  case (Suc m)
  show ?case
  proof (cases i)
    case 0
    then show ?thesis using Suc.prems by (simp add: port_start_next_mod)
  next
    case (Suc j)
    have "unat (port_start_next p) \<le> 60000"
      using mod_less_divisor [of 60000 "unat p"] port_start_next_mod [OF Suc.prems(1)] by linarith
    then have "unat (candidates (port_start_next p) m ! j) = (unat p mod 60000 + 1 + j) mod 60000 + 1"
      using Suc.IH [of "port_start_next p" j] Suc Suc.prems by (simp add: port_start_next_mod)
    also have "(unat p mod 60000 + 1 + j) mod 60000 = (unat p + i) mod 60000"
      unfolding Suc add.assoc by (simp only: mod_add_left_eq) simp
    finally show ?thesis using Suc by simp
  qed
qed simp

lemma length_candidates [simp]: "length (candidates p m) = m"
  by (induction m arbitrary: p) simp_all

lemma candidates_range:
  assumes "unat p \<le> 60000"
  shows "set (candidates p 60000) = {q. 1 \<le> unat q \<and> unat q \<le> 60000}"
proof (intro set_eqI iffI)
  fix q assume "q \<in> set (candidates p 60000)"
  then obtain i where "i < 60000" "q = candidates p 60000 ! i" by (auto simp: in_set_conv_nth)
  then have "unat q = (unat p + i) mod 60000 + 1" using candidates_nth [OF assms] by blast
  moreover have "(unat p + i) mod 60000 < 60000" by simp
  ultimately show "q \<in> {q. 1 \<le> unat q \<and> unat q \<le> 60000}" by simp
next
  fix q :: u16 assume q: "q \<in> {q. 1 \<le> unat q \<and> unat q \<le> 60000}"
  define i where "i = (unat q - 1 + (60000 - unat p)) mod 60000"
  have i: "i < 60000" by (simp add: i_def)
  have "(unat p + i) mod 60000 = (unat p + (unat q - 1 + (60000 - unat p))) mod 60000"
    by (simp add: i_def mod_simps)
  also have "unat p + (unat q - 1 + (60000 - unat p)) = (unat q - 1) + 60000" using assms by simp
  also have "\<dots> mod 60000 = unat q - 1" using q by (subst mod_add_self2, intro mod_less) auto
  finally have "(unat p + i) mod 60000 + 1 = unat q" using q by simp
  then have "candidates p 60000 ! i = q" using candidates_nth [OF assms i] by (simp add: word_unat_eq_iff)
  then show "q \<in> set (candidates p 60000)" using i by (metis length_candidates nth_mem)
qed

text \<open>
  From a start above the range, which port_init allows, the candidates run up to 65535, on to 0,
  and from there through the range as far as the 60000 rounds of the loop go. \<open>tried p\<close> are the
  candidates in both cases.
\<close>

definition tried :: "u16 \<Rightarrow> u16 set" where
  "tried p = (if unat p \<le> 60000 then {q. 1 \<le> unat q \<and> unat q \<le> 60000} else {q. p < q \<or> unat q + 5536 \<le> unat p})"

lemma candidates_plain:
  "i < m \<Longrightarrow> (\<forall>k \<le> i. p + of_nat k \<noteq> TCP_LOCAL_PORT_RANGE_END) \<Longrightarrow> candidates p m ! i = p + 1 + of_nat i"
proof (induction m arbitrary: p i)
  case (Suc m)
  have "p + of_nat 0 \<noteq> TCP_LOCAL_PORT_RANGE_END" using Suc.prems(2) by blast
  then have n: "port_start_next p = p + 1" by (simp add: port_start_next_def)
  show ?case
  proof (cases i)
    case (Suc j)
    have "p + 1 + of_nat k \<noteq> TCP_LOCAL_PORT_RANGE_END" if "k \<le> j" for k
      using Suc.prems(2) [rule_format, of "Suc k"] that Suc by (simp add: ac_simps)
    then show ?thesis using Suc.IH [of j "p + 1"] Suc Suc.prems(1) n by (simp add: ac_simps)
  qed (simp add: n)
qed simp

lemma candidates_above:
  assumes "\<not> unat p \<le> 60000"
  shows "set (candidates p 60000) = {q. p < q \<or> unat q + 5536 \<le> unat p}"
proof -
  have p: "unat p < 65536" using unsigned_less [of p, where 'a = nat] by simp
  have sum: "unat (p + of_nat k) = (if unat p + k < 65536 then unat p + k else unat p + k - 65536)" if "k \<le> 60000" for k
    using p that by (simp add: unat_word_ariths unat_of_nat mod_if)
  have nth: "candidates p 60000 ! i = p + of_nat (Suc i)" if "i < 60000" for i
  proof -
    have "p + of_nat k \<noteq> TCP_LOCAL_PORT_RANGE_END" if "k \<le> i" for k
      using sum [of k] that \<open>i < 60000\<close> assms p by (auto simp: TCP_LOCAL_PORT_RANGE_END_def split: if_splits)
    then show ?thesis using candidates_plain [OF that, of p] by (simp add: ac_simps)
  qed
  show ?thesis
  proof (intro set_eqI iffI)
    fix q assume "q \<in> set (candidates p 60000)"
    then obtain i where i: "i < 60000" "q = p + of_nat (Suc i)" using nth by (auto simp: in_set_conv_nth)
    then show "q \<in> {q. p < q \<or> unat q + 5536 \<le> unat p}"
      using sum [of "Suc i"] p by (auto simp: word_less_nat_alt split: if_splits)
  next
    fix q assume "q \<in> {q. p < q \<or> unat q + 5536 \<le> unat p}"
    then have q: "unat p < unat q \<or> unat q + 5536 \<le> unat p" by (simp add: word_less_nat_alt)
    have q2: "unat q < 65536" using unsigned_less [of q, where 'a = nat] by simp
    define i where "i = (if unat p < unat q then unat q - unat p - 1 else unat q + 65535 - unat p)"
    have i: "i < 60000" using q q2 assms p by (auto simp: i_def)
    have "unat (p + of_nat (Suc i)) = unat q" using sum [of "Suc i"] i q q2 p by (auto simp: i_def)
    then have "candidates p 60000 ! i = q" using nth [OF i] by (simp add: word_unat_eq_iff)
    then show "q \<in> set (candidates p 60000)" using i by (metis length_candidates nth_mem)
  qed
qed

lemma set_candidates: "set (candidates p 60000) = tried p"
  using candidates_range [of p] candidates_above [of p] by (simp add: tried_def)

lemma port_insert_session_ok:
  assumes "port_view st S" "port_fresh a st"
  obtains st' where "al_port_insert lc (Some a) s st = Some (0, st')"
    "port_view st' (S(session_key s := ucast lc # S (session_key s)))" "p_start st' = p_start st"
proof (cases "s_in_type s = 0")
  case True
  with al_port_insert_v4_ok [OF assms, of lc "ipv4 (s_remote_addr s)" "ipv4 (s_local_addr s)"
      "s_remote_port s" "s_local_port s" "s_proto s"]
  show ?thesis by (auto simp: al_port_insert_def session_key_def intro: that)
next
  case False
  with al_port_insert_v6_ok [OF assms, of lc "s_remote_addr s" "s_local_addr s"
      "s_remote_port s" "s_local_port s" "s_proto s"]
  show ?thesis by (auto simp: al_port_insert_def session_key_def intro: that)
qed

lemma port_view_start [simp]: "port_view (st\<lparr>p_start := p\<rparr>) S = port_view st S"
  by (simp add: port_view_def port_rep_def port_stacks_def owners_def)

lemma alloc_result:
  assumes S: "port_view st S" and a: "port_fresh a st"
  shows "\<exists>st'. al_alocate_new_port_with_session f lc (Some a) s st =
    (case List.find (port_free f s st) (candidates (p_start st) 60000) of
       None \<Rightarrow> Some (-1, s, st\<lparr>p_start := last (candidates (p_start st) 60000)\<rparr>)
     | Some q \<Rightarrow> Some (0, s\<lparr>s_local_port := bswap16 q\<rparr>, st')) \<and>
    (\<forall>q. List.find (port_free f s st) (candidates (p_start st) 60000) = Some q \<longrightarrow>
       port_view st' (S(session_key (s\<lparr>s_local_port := bswap16 q\<rparr>) :=
         ucast lc # S (session_key (s\<lparr>s_local_port := bswap16 q\<rparr>)))) \<and> p_start st' = q)"
proof -
  have "port_busy f s st lport \<noteq> None" for lport
    by (rule port_busy_ok [OF S, of f s lport]) simp
  then have scan: "alloc_scan f s st (p_start st) 0 = Some
    (case List.find (port_free f s st) (candidates (p_start st) 60000) of
       None \<Rightarrow> (last (candidates (p_start st) 60000), None) | Some q \<Rightarrow> (q, Some (bswap16 q)))"
    by (intro alloc_scan_find) simp_all
  show ?thesis
  proof (cases "List.find (port_free f s st) (candidates (p_start st) 60000)")
    case None
    then show ?thesis by (simp add: al_alocate_new_port_with_session_def scan)
  next
    case (Some q)
    obtain st' where "al_port_insert lc (Some a) (s\<lparr>s_local_port := bswap16 q\<rparr>) (st\<lparr>p_start := q\<rparr>) = Some (0, st')"
      "port_view st' (S(session_key (s\<lparr>s_local_port := bswap16 q\<rparr>) := ucast lc # S (session_key (s\<lparr>s_local_port := bswap16 q\<rparr>))))"
      "p_start st' = q"
      by (rule port_insert_session_ok [of "st\<lparr>p_start := q\<rparr>" S a lc "s\<lparr>s_local_port := bswap16 q\<rparr>"])
        (use S a in simp_all)
    then show ?thesis using Some by (auto simp: al_alocate_new_port_with_session_def scan)
  qed
qed

lemma port_free_iff:
  assumes "port_view st S"
  shows "port_free f s st q \<Longrightarrow> \<not> filtered f s (bswap16 q) \<and> S (session_key (s\<lparr>s_local_port := bswap16 q\<rparr>)) = []"
    and "no_wildcard s \<Longrightarrow> \<not> filtered f s (bswap16 q) \<Longrightarrow> S (session_key (s\<lparr>s_local_port := bswap16 q\<rparr>)) = []
      \<Longrightarrow> port_free f s st q"
  by (rule port_busy_ok [OF assms, of f s "bswap16 q"]; auto simp: port_free_def)+

lemma port_view_empty:
  assumes "heads (p_lists st) = (\<lambda>_. None)"
  shows "port_view st (\<lambda>_. [])" "port_fresh a st"
proof -
  have h: "heap_is (p_lists st) (\<lambda>_. [])" using assms by (simp add: heap_is_empty)
  then have "port_rep st (\<lambda>_. [])" by (simp add: port_rep_def keyed_rep_def)
  moreover have "port_stacks st (\<lambda>_. []) = (\<lambda>_. [])"
    by (auto simp: fun_eq_iff port_stacks_def chain_stack_def split: sum.splits)
  ultimately show "port_view st (\<lambda>_. [])" unfolding port_view_def by (auto simp: owners_def)
  show "port_fresh a st" using unlinked_iff [OF h] by (simp add: chain_fresh_def)
qed

section \<open>Properties\<close>

lemma alloc_step:
  assumes "port_view st S" and "port_fresh a st" and "no_wildcard s"
  shows "\<exists>rc s' st'. al_alocate_new_port_with_session f lc (Some a) s st = Some (rc, s', st') \<and>
    (rc = 0 \<longleftrightarrow> (\<exists>q \<in> tried (p_start st). \<not> filtered f s (bswap16 q) \<and> S (session_key (s\<lparr>s_local_port := bswap16 q\<rparr>)) = [])) \<and>
    (rc = 0 \<longrightarrow> (\<exists>q \<in> tried (p_start st). \<not> filtered f s (bswap16 q) \<and>
        s' = s\<lparr>s_local_port := bswap16 q\<rparr> \<and> S (session_key s') = [] \<and>
        port_view st' (S(session_key s' := [ucast lc])))) \<and>
    (rc \<noteq> 0 \<longrightarrow> rc = -1 \<and> s' = s \<and> port_view st' S) \<and>
    p_start st' \<in> tried (p_start st)"
proof -
  let ?c = "candidates (p_start st) 60000"
  note range = set_candidates [of "p_start st"] and free = port_free_iff [OF assms(1), where f = f and s = s]
  obtain st' where st': "al_alocate_new_port_with_session f lc (Some a) s st =
      (case List.find (port_free f s st) ?c of None \<Rightarrow> Some (-1, s, st\<lparr>p_start := last ?c\<rparr>)
       | Some q \<Rightarrow> Some (0, s\<lparr>s_local_port := bswap16 q\<rparr>, st'))"
    "\<And>q. List.find (port_free f s st) ?c = Some q \<Longrightarrow>
       port_view st' (S(session_key (s\<lparr>s_local_port := bswap16 q\<rparr>) :=
         ucast lc # S (session_key (s\<lparr>s_local_port := bswap16 q\<rparr>)))) \<and> p_start st' = q"
    using alloc_result [OF assms(1,2), of f lc s] by blast
  show ?thesis
  proof (cases "List.find (port_free f s st) ?c")
    case None
    have "?c \<noteq> []" using length_candidates [of "p_start st" 60000] by fastforce
    then have "last ?c \<in> tried (p_start st)" unfolding range [symmetric] by (rule last_in_set)
    moreover have "\<not> (\<exists>q \<in> tried (p_start st). \<not> filtered f s (bswap16 q) \<and> S (session_key (s\<lparr>s_local_port := bswap16 q\<rparr>)) = [])"
      using None range free(2) [OF assms(3)] by (auto simp only: find_None_iff)
    ultimately show ?thesis
      using None st'(1) assms(1)
      by (intro exI [of _ "-1"] exI [of _ s] exI [of _ "st\<lparr>p_start := last ?c\<rparr>"]) simp
  next
    case (Some q)
    then have "q \<in> set ?c" "port_free f s st q" by (auto dest: find_Some_in_set)
    then have q: "q \<in> tried (p_start st)" "\<not> filtered f s (bswap16 q)" "S (session_key (s\<lparr>s_local_port := bswap16 q\<rparr>)) = []"
      using range free(1) [where q = q] by blast+
    have r: "al_alocate_new_port_with_session f lc (Some a) s st = Some (0, s\<lparr>s_local_port := bswap16 q\<rparr>, st')"
      using Some st'(1) by simp
    have v: "port_view st' (S(session_key (s\<lparr>s_local_port := bswap16 q\<rparr>) := [ucast lc]))" "p_start st' \<in> tried (p_start st)"
      using st'(2) [OF Some] q by simp_all
    show ?thesis
      by (intro exI [of _ 0] exI [of _ "s\<lparr>s_local_port := bswap16 q\<rparr>"] exI [of _ st'] conjI)
        (use r v q in blast)+
  qed
qed

lemma alocate_new_port_step:
  assumes "port_view st S" and "port_fresh a st" and "unat (p_start st) \<le> 60000" and "no_wildcard s"
  shows "\<exists>rc s' st'. al_alocate_new_port_with_session f lc (Some a) s st = Some (rc, s', st') \<and>
    (rc = 0 \<longleftrightarrow> (\<exists>q. 1 \<le> unat q \<and> unat q \<le> 60000 \<and> \<not> filtered f s (bswap16 q) \<and>
        S (session_key (s\<lparr>s_local_port := bswap16 q\<rparr>)) = [])) \<and>
    (rc = 0 \<longrightarrow> (\<exists>q. s' = s\<lparr>s_local_port := bswap16 q\<rparr>))"
  using alloc_step [OF assms(1,2,4), of f lc] assms(3) by (auto simp: tried_def)

text \<open>
  C3: allocating a local port (al_alocate_new_port_with_session) is complete and sound, for a
  session whose two addresses are not zero, and whatever the rotating start is. The call succeeds
  exactly when some port it tries is neither covered by a filter nor registered for the session's
  addresses; the session then gets such a port, in network byte order, and exactly its five-tuple
  is registered, for the calling thread. When it fails, session and tables are unchanged. With the
  start in the range the ports tried are exactly 1, \<dots>, 60000, and the start stays in the range;
  with a start above it, which port_init may choose, they are those above the start, 0, and those
  up to 5536 below the start, so that ports outside the range are handed out.
\<close>

theorem alocate_new_port_complete:
  assumes "port_view st S" and "port_fresh a st" and "no_wildcard s"
  shows "\<exists>rc s' st'. al_alocate_new_port_with_session f lc (Some a) s st = Some (rc, s', st') \<and>
    (rc = 0 \<longleftrightarrow> (\<exists>q \<in> tried (p_start st). \<not> filtered f s (bswap16 q) \<and> S (session_key (s\<lparr>s_local_port := bswap16 q\<rparr>)) = [])) \<and>
    (rc = 0 \<longrightarrow> (\<exists>q \<in> tried (p_start st). \<not> filtered f s (bswap16 q) \<and>
        s' = s\<lparr>s_local_port := bswap16 q\<rparr> \<and> S (session_key s') = [] \<and>
        port_view st' (S(session_key s' := [ucast lc])))) \<and>
    (rc \<noteq> 0 \<longrightarrow> rc = -1 \<and> s' = s \<and> port_view st' S) \<and>
    p_start st' \<in> tried (p_start st)"
  by (rule alloc_step [OF assms])

definition empty_ports :: "u16 \<Rightarrow> port_state" where
  "empty_ports p = \<lparr>p_lists = \<lparr>heads = \<lambda>_. None, nodes = \<lambda>_. \<lparr>nxt = None, pprev = None\<rparr>\<rparr>,
     p_obj = \<lambda>_. \<lparr>p_rip = 0, p_lip = 0, p_rport = 0, p_lport = 0, p_proto_type = 0, p_thread_id = 0\<rparr>,
     p_start = p\<rparr>"

definition sample_session :: session_t where
  "sample_session = \<lparr>s_stype = 1, s_is_ups = 0, s_port_alloc = 0, s_proto = 6, s_is_dr = 0, s_ftype = 0,
     s_in_type = 0, s_portid = 0, s_stout = 300, s_up = None, s_local_addr = 0x0A000001,
     s_remote_addr = 0x0A000002, s_local_port = 0, s_remote_port = 80, s_to_haddr = 0, s_from_haddr = 0,
     s_fid = 0, s_mid = 0, s_arpid = 0, s_handler = 0\<rparr>"

lemma empty_ports_view: "port_view (empty_ports p) (\<lambda>_. [])" "port_fresh a (empty_ports p)"
  by (rule port_view_empty; simp add: empty_ports_def)+

theorem alocate_new_port_complete_witness:
  "\<exists>s' st'. al_alocate_new_port_with_session (\<lambda>_ _ _. -1) 3 (Some 7) sample_session (empty_ports 60000)
    = Some (0, s', st') \<and> port_view st' ((\<lambda>_. [])(session_key s' := [3])) \<and> p_start st' \<in> tried 60000"
proof -
  have "no_wildcard sample_session" by (simp add: no_wildcard_def sample_session_def ipv4_def)
  from alocate_new_port_complete [OF empty_ports_view(1) [of 60000] empty_ports_view(2) this, of "\<lambda>_ _ _. -1" 3 7]
  obtain rc s' st' where r: "al_alocate_new_port_with_session (\<lambda>_ _ _. -1) 3 (Some 7) sample_session (empty_ports 60000)
      = Some (rc, s', st')" "p_start st' \<in> tried 60000"
    "rc = 0 \<longleftrightarrow> (\<exists>q \<in> tried 60000. \<not> filtered (\<lambda>_ _ _. -1) sample_session (bswap16 q))"
    "rc = 0 \<longrightarrow> port_view st' ((\<lambda>_. [])(session_key s' := [ucast (3 :: u32)]))" by (auto simp: empty_ports_def)
  have "rc = 0" unfolding r(3) by (rule bexI [of _ 1]) (simp_all add: filtered_def tried_def)
  with r(1,2,4) show ?thesis by auto
qed

lemma which_thread_view:
  assumes "port_view st S"
  shows "which_thread_v4 rip lip rport lport proto st =
      Some (case top_of (S (Inl (rip, lip, rport, lport, proto))) of None \<Rightarrow> -1 | Some t \<Rightarrow> uint t)"
    and "which_thread_v6 rip6 lip6 rport lport proto st =
      Some (case top_of (S (Inr (rip6, lip6, rport, lport, proto))) of None \<Rightarrow> -1 | Some t \<Rightarrow> uint t)"
proof -
  from assms obtain L where L: "port_rep st L" and SL: "S = (\<lambda>k. owners st (port_stacks st L k))"
    by (auto simp: port_view_def)
  show "which_thread_v4 rip lip rport lport proto st =
      Some (case top_of (S (Inl (rip, lip, rport, lport, proto))) of None \<Rightarrow> -1 | Some t \<Rightarrow> uint t)"
    "which_thread_v6 rip6 lip6 rport lport proto st =
      Some (case top_of (S (Inr (rip6, lip6, rport, lport, proto))) of None \<Rightarrow> -1 | Some t \<Rightarrow> uint t)"
    by (auto simp: which_thread_v4_stack [OF L] which_thread_v6_stack [OF L] SL owners_def top_of_map split: option.splits)
qed

text \<open>
  after al_port_insert_v4 the five-tuple is owned by the inserting thread (which_thread_v4
  answers its id, cut to the eight bits of the field), and every other IPv4 five-tuple and
  every IPv6 five-tuple has the owner it had before.
\<close>

theorem port_insert_v4_owner:
  assumes "port_view st S" and "port_fresh a st"
  shows "\<exists>st'. al_port_insert_v4 lc (Some a) rip lip rport lport proto st = Some (0, st') \<and>
    which_thread_v4 rip lip rport lport proto st' = Some (uint (ucast lc :: u8)) \<and>
    (\<forall>r l rp lp p. (r, l, rp, lp, p) \<noteq> (rip, lip, rport, lport, proto) \<longrightarrow>
       which_thread_v4 r l rp lp p st' = which_thread_v4 r l rp lp p st) \<and>
    (\<forall>r l rp lp p. which_thread_v6 r l rp lp p st' = which_thread_v6 r l rp lp p st)"
proof -
  let ?k = "Inl (rip, lip, rport, lport, proto) :: key4 + key6"
  obtain st' where st': "al_port_insert_v4 lc (Some a) rip lip rport lport proto st = Some (0, st')"
    "port_view st' (S(?k := ucast lc # S ?k))"
    using al_port_insert_v4_ok [OF assms, of lc rip lip rport lport proto] by blast
  show ?thesis
    using st'(1) by (intro exI [of _ st']) (simp add: which_thread_view [OF st'(2)] which_thread_view [OF assms(1)])
qed

theorem port_insert_v4_owner_witness:
  "\<exists>st'. al_port_insert_v4 259 (Some 7) 1 2 80 1024 6 (empty_ports 1) = Some (0, st') \<and>
     which_thread_v4 1 2 80 1024 6 st' = Some 3 \<and> which_thread_v4 1 2 80 1025 6 st' = Some (-1)"
proof -
  have "which_thread_v4 1 2 80 1025 6 (empty_ports 1) = Some (-1)"
    by (simp add: which_thread_view [OF empty_ports_view(1)])
  with port_insert_v4_owner [OF empty_ports_view(1) empty_ports_view(2), of 259 7 1 2 80 1024 6 1] show ?thesis
    by auto
qed

text \<open>
  C19: al_port_del_v4 undoes al_port_insert_v4: it reports success, and afterwards every
  five-tuple of both tables has the owner it had before the insertion. On a five-tuple that
  nobody owns it reports 0 and leaves the state as it is.
\<close>

theorem port_del_v4_undo:
  assumes "port_view st S" and "port_fresh a st"
  shows "(\<exists>st1 st2. al_port_insert_v4 lc (Some a) rip lip rport lport proto st = Some (0, st1) \<and>
      al_port_del_v4 rip lip rport lport proto st1 = Some (1, st2) \<and>
      (\<forall>k. port_lookup st2 k = port_lookup st k)) \<and>
    (which_thread_v4 rip lip rport lport proto st = Some (-1) \<longrightarrow>
      al_port_del_v4 rip lip rport lport proto st = Some (0, st))"
proof (intro conjI impI)
  let ?k = "Inl (rip, lip, rport, lport, proto) :: key4 + key6"
  obtain st1 where st1: "al_port_insert_v4 lc (Some a) rip lip rport lport proto st = Some (0, st1)"
    "port_view st1 (S(?k := ucast lc # S ?k))"
    using al_port_insert_v4_ok [OF assms, of lc rip lip rport lport proto] by blast
  obtain st2 where st2: "al_port_del_v4 rip lip rport lport proto st1 = Some (1, st2)" "port_view st2 S"
    using al_port_del_v4_ok [OF st1(2), of rip lip rport lport proto] by auto
  have "port_lookup st2 k = port_lookup st k" for k
    using pt.stab_lookup [OF st2(2)] pt.stab_lookup [OF assms(1)] by simp
  with st1(1) st2(1) show "\<exists>st1 st2. al_port_insert_v4 lc (Some a) rip lip rport lport proto st = Some (0, st1) \<and>
      al_port_del_v4 rip lip rport lport proto st1 = Some (1, st2) \<and> (\<forall>k. port_lookup st2 k = port_lookup st k)"
    by blast
next
  assume "which_thread_v4 rip lip rport lport proto st = Some (-1)"
  moreover from assms(1) obtain L where L: "port_rep st L" by (auto simp: port_view_def)
  ultimately have "top_of (port_stacks st L (Inl (rip, lip, rport, lport, proto))) = None"
    by (simp add: which_thread_v4_stack [OF L] split: option.splits)
  then show "al_port_del_v4 rip lip rport lport proto st = Some (0, st)"
    by (simp add: al_port_del_v4_find port_find4 [OF L] port_unlink_def del: bkt4.simps)
qed

theorem port_del_v4_undo_witness:
  "(\<exists>st1 st2. al_port_insert_v4 3 (Some 7) 1 2 80 1024 6 (empty_ports 1) = Some (0, st1) \<and>
     al_port_del_v4 1 2 80 1024 6 st1 = Some (1, st2) \<and>
     port_lookup st2 (Inl (1, 2, 80, 1024, 6)) = Some None) \<and>
   al_port_del_v4 1 2 80 1024 6 (empty_ports 1) = Some (0, empty_ports 1)"
proof -
  have w: "which_thread_v4 1 2 80 1024 6 (empty_ports 1) = Some (-1)"
    by (simp add: which_thread_view [OF empty_ports_view(1)])
  then have "port_lookup (empty_ports 1) (Inl (1, 2, 80, 1024, 6)) = Some None" by simp
  with w port_del_v4_undo [OF empty_ports_view(1) empty_ports_view(2), of 3 7 1 2 80 1024 6 1] show ?thesis
    by metis
qed

text \<open>
  al_port_del does not remove an IPv6 session from the tables, it registers it once more:
  the call answers 0 and pushes the calling thread on the owners of the five-tuple.
\<close>

theorem port_del_v6_inserts:
  assumes "port_view st S" and "port_fresh a st" and "s_in_type u \<noteq> 0"
  shows "\<exists>st'. al_port_del lc (Some a) u st = Some (0, st') \<and>
    port_view st' (S(session_key u := ucast lc # S (session_key u)))"
  using al_port_insert_v6_ok [OF assms(1,2), of lc "s_remote_addr u" "s_local_addr u" "s_remote_port u"
      "s_local_port u" "s_proto u"] assms(3)
  by (auto simp: al_port_del_def session_key_def)

theorem port_del_v6_inserts_witness:
  "\<exists>st'. al_port_del 3 (Some 7) (sample_session\<lparr>s_in_type := 1\<rparr>) (empty_ports 1) = Some (0, st') \<and>
     port_view st' ((\<lambda>_. [])(session_key (sample_session\<lparr>s_in_type := 1\<rparr>) := [3]))"
  using port_del_v6_inserts [OF empty_ports_view(1) empty_ports_view(2), of "sample_session\<lparr>s_in_type := 1\<rparr>" 3 7 1]
  by simp

end
