(* ===== verification/Session.thy ===== *)
theory Session
  imports Tuple5
begin

text \<open>
  al_session.c: the session table of a worker thread, its lookups, and the idle timer.
  \<open>sess_state\<close> holds the list heap of session_table (list head \<open>i\<close> is bucket \<open>i\<close>),
  the objects of the session pool, and the five-tuple tables a released session is removed
  from.
\<close>

section \<open>State and operations\<close>

record sess_state =
  ss_lists :: hheap
  ss_obj :: "addr \<Rightarrow> session_t"
  ss_ports :: port_state

definition session_mask :: u32 where
  "session_mask = of_nat (HASHSIZE MAX_SESSION_COUNTER - 1)"

text \<open>session_init and session_thread_init, with the outcome of the allocation they make.\<close>

definition session_init :: "bool \<Rightarrow> int" where
  "session_init pool = (if \<not> pool then -1 else 0)"

definition session_thread_init :: "bool \<Rightarrow> sess_state \<Rightarrow> int \<times> sess_state" where
  "session_thread_init table st =
     (if \<not> table then (-1, st)
      else (0, st\<lparr>ss_lists := fold INIT_HLIST_HEAD [0..<HASHSIZE MAX_SESSION_COUNTER] (ss_lists st)\<rparr>))"

definition al_session_create :: "addr option \<Rightarrow> sess_state \<Rightarrow> addr option \<times> sess_state" where
  "al_session_create got st =
     (case got of
        None \<Rightarrow> (None, st)
      | Some a \<Rightarrow> (Some a, st\<lparr>ss_obj := (ss_obj st)(a := (ss_obj st a)
            \<lparr>s_port_alloc := 0, s_proto := 0, s_is_dr := 0, s_stout := SESSION_IDLE_TIMEOUT\<rparr>)\<rparr>))"

definition al_session_free :: "addr \<Rightarrow> sess_state \<Rightarrow> sess_state option" where
  "al_session_free a st =
     do {
       let s = ss_obj st a;
       (rc, ps) \<leftarrow> (if s_in_type s = 0
         then al_port_del_v4 (ipv4 (s_remote_addr s)) (ipv4 (s_local_addr s)) (s_remote_port s) (s_local_port s)
                (s_proto s) (ss_ports st)
         else al_port_del_v6 (s_remote_addr s) (s_local_addr s) (s_remote_port s) (s_local_port s)
                (s_proto s) (ss_ports st));
       Some (st\<lparr>ss_ports := ps\<rparr>)
     }"

definition tcp6_session_get ::
  "u128 \<Rightarrow> u16 \<Rightarrow> u128 \<Rightarrow> u16 \<Rightarrow> u8 \<Rightarrow> sess_state \<Rightarrow> addr option option" where
  "tcp6_session_get rip rport lip lport proto_type st =
     (let key = pcb6_key rip rport lip lport proto_type session_mask;
          table = unat (key AND session_mask)
      in hlist_find (\<lambda>pos. s_local_port (ss_obj st pos) = lport \<and> s_remote_port (ss_obj st pos) = rport \<and>
             s_local_addr (ss_obj st pos) = lip \<and> s_remote_addr (ss_obj st pos) = rip \<and>
             s_proto (ss_obj st pos) = proto_type)
           (ss_lists st) (heads (ss_lists st) table))"

definition tcp4_session_get ::
  "u32 \<Rightarrow> u16 \<Rightarrow> u32 \<Rightarrow> u16 \<Rightarrow> u8 \<Rightarrow> sess_state \<Rightarrow> addr option option" where
  "tcp4_session_get rip rport lip lport proto_type st =
     (let key = pcb4_key rip rport lip lport proto_type session_mask;
          table = unat (key AND session_mask)
      in hlist_find (\<lambda>pos. s_local_port (ss_obj st pos) = lport \<and> s_remote_port (ss_obj st pos) = rport \<and>
             ipv4 (s_local_addr (ss_obj st pos)) = lip \<and> ipv4 (s_remote_addr (ss_obj st pos)) = rip \<and>
             s_proto (ss_obj st pos) = proto_type)
           (ss_lists st) (heads (ss_lists st) table))"

definition al_session_add :: "addr \<Rightarrow> sess_state \<Rightarrow> sess_state" where
  "al_session_add a st =
     (let s = ss_obj st a;
          key = (if s_in_type s = 0
                 then pcb4_key (ipv4 (s_remote_addr s)) (s_remote_port s) (ipv4 (s_local_addr s)) (s_local_port s)
                        (s_proto s) session_mask
                 else pcb6_key (s_remote_addr s) (s_remote_port s) (s_local_addr s) (s_local_port s)
                        (s_proto s) session_mask);
          table = unat (key AND session_mask)
      in st\<lparr>ss_lists := hlist_add_head a table (ss_lists st)\<rparr>)"

text \<open>
  al_session_timeout. \<open>session_tick\<close> is the statement
  \<open>x = s->stout > 0 ? --s->stout : 0\<close>; \<open>timeout_body\<close> is the body of the inner loop. The
  outer loop runs over the first \<open>n\<close> buckets; al_session_timeout takes all of them.
\<close>

definition session_tick :: "addr \<Rightarrow> sess_state \<Rightarrow> 12 word \<times> sess_state" where
  "session_tick a st =
     (let s = ss_obj st a
      in if s_stout s > 0
         then (s_stout s - 1, st\<lparr>ss_obj := (ss_obj st)(a := s\<lparr>s_stout := s_stout s - 1\<rparr>)\<rparr>)
         else (0, st))"

definition session_drop :: "addr \<Rightarrow> sess_state \<Rightarrow> sess_state option" where
  "session_drop a st =
     do { h \<leftarrow> hlist_del a (ss_lists st); al_session_free a (st\<lparr>ss_lists := h\<rparr>) }"

definition timeout_body :: "addr \<Rightarrow> sess_state \<Rightarrow> sess_state option" where
  "timeout_body a st =
     do {
       u \<leftarrow> s_up (ss_obj st a);
       let (ss, st1) = session_tick a st;
       let (su, st2) = session_tick u st1;
       if ss = 0 \<and> su = 0 then do { st3 \<leftarrow> session_drop a st2; session_drop u st3 }
       else Some st2
     }"

primrec al_session_timeout_upto :: "nat \<Rightarrow> sess_state \<Rightarrow> sess_state option" where
  "al_session_timeout_upto 0 st = Some st"
| "al_session_timeout_upto (Suc i) st =
     do {
       st' \<leftarrow> al_session_timeout_upto i st;
       hlist_for_each_safe ss_lists timeout_body (heads (ss_lists st') i) st'
     }"

definition al_session_timeout :: "sess_state \<Rightarrow> sess_state option" where
  "al_session_timeout = al_session_timeout_upto (HASHSIZE MAX_SESSION_COUNTER)"

section \<open>Lookups\<close>

text \<open>
  The key of a session as each of the two lookups reads it, and the bucket it belongs to.
  Neither lookup looks at the address family of a session.
\<close>

definition skey4 :: "session_t \<Rightarrow> key4" where
  "skey4 s = (ipv4 (s_remote_addr s), ipv4 (s_local_addr s), s_remote_port s, s_local_port s, s_proto s)"

definition skey6 :: "session_t \<Rightarrow> key6" where
  "skey6 s = (s_remote_addr s, s_local_addr s, s_remote_port s, s_local_port s, s_proto s)"

fun sbkt4 :: "key4 \<Rightarrow> addr" where
  "sbkt4 (rip, lip, rport, lport, proto) = unat (pcb4_key rip rport lip lport proto session_mask AND session_mask)"

fun sbkt6 :: "key6 \<Rightarrow> addr" where
  "sbkt6 (rip, lip, rport, lport, proto) = unat (pcb6_key rip rport lip lport proto session_mask AND session_mask)"

definition session_bucket :: "session_t \<Rightarrow> addr" where
  "session_bucket s = (if s_in_type s = 0 then sbkt4 (skey4 s) else sbkt6 (skey6 s))"

abbreviation found4 :: "sess_state \<Rightarrow> (addr \<Rightarrow> addr list) \<Rightarrow> key4 \<Rightarrow> addr option" where
  "found4 st \<equiv> chain_map skey4 sbkt4 (ss_obj st)"

abbreviation found6 :: "sess_state \<Rightarrow> (addr \<Rightarrow> addr list) \<Rightarrow> key6 \<Rightarrow> addr option" where
  "found6 st \<equiv> chain_map skey6 sbkt6 (ss_obj st)"

lemma session_bucket_bound: "session_bucket s < HASHSIZE MAX_SESSION_COUNTER"
proof -
  have "session_mask = mask 16" by (simp add: session_mask_def mask_eq_exp_minus_1)
  then have "unat (k AND session_mask) < 65536" for k using unat_and_mask_less [of k 16] by simp
  then show ?thesis by (simp add: session_bucket_def skey4_def skey6_def)
qed

lemma tcp4_session_get_found:
  assumes "heap_is (ss_lists st) L"
  shows "tcp4_session_get rip rport lip lport proto st = Some (found4 st L (rip, lip, rport, lport, proto))"
proof -
  have "skey4 s = (rip, lip, rport, lport, proto) \<longleftrightarrow> s_local_port s = lport \<and> s_remote_port s = rport \<and>
    ipv4 (s_local_addr s) = lip \<and> ipv4 (s_remote_addr s) = rip \<and> s_proto s = proto" for s
    by (auto simp: skey4_def)
  then show ?thesis
    by (simp add: tcp4_session_get_def Let_def heap_is_find [OF assms] chain_map_def chain_stack_def top_of_filter)
qed

lemma tcp6_session_get_found:
  assumes "heap_is (ss_lists st) L"
  shows "tcp6_session_get rip rport lip lport proto st = Some (found6 st L (rip, lip, rport, lport, proto))"
proof -
  have "skey6 s = (rip, lip, rport, lport, proto) \<longleftrightarrow> s_local_port s = lport \<and> s_remote_port s = rport \<and>
    s_local_addr s = lip \<and> s_remote_addr s = rip \<and> s_proto s = proto" for s
    by (auto simp: skey6_def)
  then show ?thesis
    by (simp add: tcp6_session_get_def Let_def heap_is_find [OF assms] chain_map_def chain_stack_def top_of_filter)
qed

lemma al_session_add_heap:
  assumes "heap_is (ss_lists st) L" "unlinked a (ss_lists st)"
  shows "heap_is (ss_lists (al_session_add a st))
      (L(session_bucket (ss_obj st a) := a # L (session_bucket (ss_obj st a))))"
    and "ss_obj (al_session_add a st) = ss_obj st" "ss_ports (al_session_add a st) = ss_ports st"
proof -
  have "al_session_add a st = st\<lparr>ss_lists := hlist_add_head a (session_bucket (ss_obj st a)) (ss_lists st)\<rparr>"
    by (simp add: al_session_add_def Let_def session_bucket_def skey4_def skey6_def)
  then show "heap_is (ss_lists (al_session_add a st))
      (L(session_bucket (ss_obj st a) := a # L (session_bucket (ss_obj st a))))"
    "ss_obj (al_session_add a st) = ss_obj st" "ss_ports (al_session_add a st) = ss_ports st"
    using heap_is_add_head [OF assms(1)] unlinked_iff [OF assms(1)] assms(2) by simp_all
qed

lemma found_add:
  "bkt k \<noteq> b \<or> key (obj a) \<noteq> k \<Longrightarrow> chain_map key bkt obj (L(b := a # L b)) k = chain_map key bkt obj L k"
  "bkt k = b \<Longrightarrow> key (obj a) = k \<Longrightarrow> chain_map key bkt obj (L(b := a # L b)) k = Some a"
  by (auto simp: chain_map_def chain_stack_def)

definition sess_wf :: "sess_state \<Rightarrow> (addr \<Rightarrow> addr list) \<Rightarrow> bool" where
  "sess_wf st L \<longleftrightarrow> heap_is (ss_lists st) L \<and> (\<forall>b. \<forall>a \<in> set (L b). session_bucket (ss_obj st a) = b)"

lemma sess_wf_add:
  assumes "sess_wf st L" "unlinked a (ss_lists st)"
  shows "sess_wf (al_session_add a st)
    (L(session_bucket (ss_obj st a) := a # L (session_bucket (ss_obj st a))))"
  using assms al_session_add_heap [of st L a] by (auto simp: sess_wf_def)

text \<open>
  C10: al_session_add makes a session findable: the lookup of its family on its own addresses,
  ports and protocol returns it, the invariant of the table is kept, and no lookup with another
  key changes.
\<close>

theorem session_add_get:
  assumes "sess_wf st L" and "unlinked a (ss_lists st)"
  defines "s \<equiv> ss_obj st a" and "st' \<equiv> al_session_add a st"
  shows "(\<exists>L'. sess_wf st' L') \<and>
    (s_in_type s = 0 \<longrightarrow> tcp4_session_get (ipv4 (s_remote_addr s)) (s_remote_port s) (ipv4 (s_local_addr s))
       (s_local_port s) (s_proto s) st' = Some (Some a)) \<and>
    (s_in_type s \<noteq> 0 \<longrightarrow> tcp6_session_get (s_remote_addr s) (s_remote_port s) (s_local_addr s)
       (s_local_port s) (s_proto s) st' = Some (Some a)) \<and>
    (\<forall>rip rport lip lport proto. (rip, lip, rport, lport, proto) \<noteq> skey4 s \<longrightarrow>
       tcp4_session_get rip rport lip lport proto st' = tcp4_session_get rip rport lip lport proto st) \<and>
    (\<forall>rip rport lip lport proto. (rip, lip, rport, lport, proto) \<noteq> skey6 s \<longrightarrow>
       tcp6_session_get rip rport lip lport proto st' = tcp6_session_get rip rport lip lport proto st)"
proof -
  note wf = sess_wf_add [OF assms(1,2)]
  have h: "heap_is (ss_lists st) L" using assms(1) by (simp add: sess_wf_def)
  note add = al_session_add_heap [OF h assms(2)]
  note get = tcp4_session_get_found [OF h] tcp6_session_get_found [OF h]
    tcp4_session_get_found [OF add(1)] tcp6_session_get_found [OF add(1)]
  have s4: "skey4 s = (ipv4 (s_remote_addr s), ipv4 (s_local_addr s), s_remote_port s, s_local_port s, s_proto s)"
    and s6: "skey6 s = (s_remote_addr s, s_local_addr s, s_remote_port s, s_local_port s, s_proto s)"
    by (simp_all add: skey4_def skey6_def)
  have "s_in_type s = 0 \<Longrightarrow> found4 st' (L(session_bucket s := a # L (session_bucket s))) (skey4 s) = Some a"
    "s_in_type s \<noteq> 0 \<Longrightarrow> found6 st' (L(session_bucket s := a # L (session_bucket s))) (skey6 s) = Some a"
    by (rule found_add(2); simp add: session_bucket_def s_def st'_def add(2))+
  moreover have "k \<noteq> skey4 s \<Longrightarrow> found4 st' (L(session_bucket s := a # L (session_bucket s))) k = found4 st L k"
    "k6 \<noteq> skey6 s \<Longrightarrow> found6 st' (L(session_bucket s := a # L (session_bucket s))) k6 = found6 st L k6" for k k6
    unfolding st'_def add(2) by (rule found_add(1); simp add: s_def)+
  ultimately show ?thesis
    using wf unfolding st'_def s4 s6 by (simp add: get s_def; blast)
qed

text \<open>
  C23: the lookups are exact for their family: the session returned carries the five-tuple that
  was asked for, and when nothing is returned no session of that family with this five-tuple
  is in the table.
\<close>

theorem session_get_exact:
  assumes "sess_wf st L"
  shows "(\<exists>r. tcp4_session_get rip rport lip lport proto st = Some r \<and>
      (\<forall>a. r = Some a \<longrightarrow> (\<exists>b. a \<in> set (L b)) \<and> skey4 (ss_obj st a) = (rip, lip, rport, lport, proto)) \<and>
      (r = None \<longrightarrow> (\<forall>b. \<forall>a \<in> set (L b). s_in_type (ss_obj st a) = 0 \<longrightarrow> skey4 (ss_obj st a) \<noteq> (rip, lip, rport, lport, proto)))) \<and>
    (\<exists>r. tcp6_session_get rip6 rport lip6 lport proto st = Some r \<and>
      (\<forall>a. r = Some a \<longrightarrow> (\<exists>b. a \<in> set (L b)) \<and> skey6 (ss_obj st a) = (rip6, lip6, rport, lport, proto)) \<and>
      (r = None \<longrightarrow> (\<forall>b. \<forall>a \<in> set (L b). s_in_type (ss_obj st a) \<noteq> 0 \<longrightarrow> skey6 (ss_obj st a) \<noteq> (rip6, lip6, rport, lport, proto))))"
proof -
  have h: "heap_is (ss_lists st) L" and b: "\<And>b a. a \<in> set (L b) \<Longrightarrow> session_bucket (ss_obj st a) = b"
    using assms by (auto simp: sess_wf_def)
  have none: "chain_map key bkt obj L k = None \<longleftrightarrow> (\<forall>a \<in> set (L (bkt k)). key (obj a) \<noteq> k)"
    for key :: "session_t \<Rightarrow> 'k" and bkt obj k
    by (auto simp: chain_map_def chain_stack_def top_of_filter find_None_iff)
  show ?thesis
  proof (intro conjI exI)
    show "tcp4_session_get rip rport lip lport proto st = Some (found4 st L (rip, lip, rport, lport, proto))"
      "tcp6_session_get rip6 rport lip6 lport proto st = Some (found6 st L (rip6, lip6, rport, lport, proto))"
      by (rule tcp4_session_get_found [OF h] tcp6_session_get_found [OF h])+
  next
    show "\<forall>a. found4 st L (rip, lip, rport, lport, proto) = Some a \<longrightarrow>
        (\<exists>b. a \<in> set (L b)) \<and> skey4 (ss_obj st a) = (rip, lip, rport, lport, proto)"
      "\<forall>a. found6 st L (rip6, lip6, rport, lport, proto) = Some a \<longrightarrow>
        (\<exists>b. a \<in> set (L b)) \<and> skey6 (ss_obj st a) = (rip6, lip6, rport, lport, proto)"
      by (blast dest: chain_map_SomeD)+
  next
    show "found4 st L (rip, lip, rport, lport, proto) = None \<longrightarrow>
      (\<forall>b. \<forall>a \<in> set (L b). s_in_type (ss_obj st a) = 0 \<longrightarrow> skey4 (ss_obj st a) \<noteq> (rip, lip, rport, lport, proto))"
      unfolding none by (metis b session_bucket_def)
    show "found6 st L (rip6, lip6, rport, lport, proto) = None \<longrightarrow>
      (\<forall>b. \<forall>a \<in> set (L b). s_in_type (ss_obj st a) \<noteq> 0 \<longrightarrow> skey6 (ss_obj st a) \<noteq> (rip6, lip6, rport, lport, proto))"
      unfolding none by (metis b session_bucket_def)
  qed
qed
definition empty_sessions :: sess_state where
  "empty_sessions = \<lparr>ss_lists = \<lparr>heads = \<lambda>_. None, nodes = \<lambda>_. \<lparr>nxt = None, pprev = None\<rparr>\<rparr>,
     ss_obj = \<lambda>_. sample_session, ss_ports = empty_ports 1\<rparr>"

lemma empty_sessions_wf: "sess_wf empty_sessions (\<lambda>_. [])" "unlinked a (ss_lists empty_sessions)"
proof -
  have h: "heap_is (ss_lists empty_sessions) (\<lambda>_. [])" by (simp add: empty_sessions_def heap_is_empty)
  then show "sess_wf empty_sessions (\<lambda>_. [])" by (simp add: sess_wf_def)
  show "unlinked a (ss_lists empty_sessions)" using unlinked_iff [OF h] by (simp add: chain_fresh_def)
qed

theorem session_add_get_witness:
  "tcp4_session_get 0x0A000002 80 0x0A000001 0 6 (al_session_add 5 empty_sessions) = Some (Some 5)"
  using session_add_get [OF empty_sessions_wf(1) empty_sessions_wf(2), of 5]
  by (simp add: empty_sessions_def sample_session_def ipv4_def)

theorem session_get_exact_witness:
  "tcp4_session_get 1 80 2 0 6 (al_session_add 5 empty_sessions) = Some None"
proof -
  let ?L = "(\<lambda>_. [])(session_bucket (ss_obj empty_sessions 5) := [5])"
  have "sess_wf (al_session_add 5 empty_sessions) ?L"
    using sess_wf_add [OF empty_sessions_wf(1) empty_sessions_wf(2), of 5] by simp
  moreover have "skey4 (ss_obj (al_session_add 5 empty_sessions) a) \<noteq> (1, 2, 80, 0, 6)" for a
    by (simp add: al_session_add_def Let_def empty_sessions_def skey4_def sample_session_def ipv4_def)
  ultimately show ?thesis
    using session_get_exact [of "al_session_add 5 empty_sessions" ?L 1 80 2 0 6] by (metis option.exhaust)
qed

section \<open>The idle timer\<close>

text \<open>
  Sessions come in pairs, each the peer of the other. In a pass in which nothing expires every
  session of the table is counted down once when it is visited and once when its peer is.
\<close>

definition paired :: "sess_state \<Rightarrow> (addr \<Rightarrow> addr list) \<Rightarrow> bool" where
  "paired st L \<longleftrightarrow> (\<forall>b. \<forall>a \<in> set (L b). \<exists>u. s_up (ss_obj st a) = Some u \<and> u \<noteq> a \<and>
     (\<exists>c. u \<in> set (L c)) \<and> s_up (ss_obj st u) = Some a)"

lemma pairedD:
  assumes "paired st L" "a \<in> set (L b)" "s_up (ss_obj st a) = Some u"
  shows "u \<noteq> a" "\<exists>c. u \<in> set (L c)" "s_up (ss_obj st u) = Some a"
  using assms(1) [unfolded paired_def, rule_format, OF assms(2)] assms(3) by auto

definition visits :: "sess_state \<Rightarrow> addr set \<Rightarrow> addr \<Rightarrow> 12 word" where
  "visits st V x = of_bool (x \<in> V) + of_bool (\<exists>y \<in> V. s_up (ss_obj st y) = Some x)"

definition counted :: "sess_state \<Rightarrow> addr set \<Rightarrow> sess_state" where
  "counted st V = st\<lparr>ss_obj := \<lambda>x. (ss_obj st x)\<lparr>s_stout := s_stout (ss_obj st x) - visits st V x\<rparr>\<rparr>"

lemma counted_fields [simp]:
  "ss_lists (counted st V) = ss_lists st" "ss_ports (counted st V) = ss_ports st"
  "s_up (ss_obj (counted st V) x) = s_up (ss_obj st x)"
  "counted st {} = st"
  by (simp_all add: counted_def visits_def)

lemma word_above_2:
  fixes w :: "12 word"
  assumes "2 < w" "d = 0 \<or> d = 1"
  shows "0 < w - d" "w - d - 1 \<noteq> 0"
proof -
  have "w \<noteq> 0" "w \<noteq> 1" "w \<noteq> 2" using assms(1) by auto
  then show "0 < w - d" "w - d - 1 \<noteq> 0" using assms(2) by (auto simp: word_gt_0)
qed

lemma timeout_body_counted:
  assumes p: "paired st L" and a: "a \<in> set (L b)" "a \<notin> V"
    and big: "\<And>b x. x \<in> set (L b) \<Longrightarrow> 2 < s_stout (ss_obj st x)"
    and V: "\<And>x. x \<in> V \<Longrightarrow> \<exists>b. x \<in> set (L b)"
  shows "timeout_body a (counted st V) = Some (counted st (insert a V))"
proof -
  from p a(1) obtain u c where u: "s_up (ss_obj st a) = Some u" "u \<noteq> a" "u \<in> set (L c)" "s_up (ss_obj st u) = Some a"
    unfolding paired_def by blast
  have uniq: "y = a" if "y \<in> V" "s_up (ss_obj st y) = Some u" for y
  proof -
    from V [OF that(1)] obtain d where "y \<in> set (L d)" by blast
    from pairedD [OF p this that(2)] have "s_up (ss_obj st u) = Some y" by simp
    with u(4) show "y = a" by simp
  qed
  have va: "visits st V a = 0 \<or> visits st V a = 1" using a(2) by (auto simp: visits_def)
  have nu: "\<not> (\<exists>y \<in> V. s_up (ss_obj st y) = Some u)" using uniq a(2) by blast
  then have vu: "visits st V u = 0 \<or> visits st V u = 1" by (auto simp: visits_def)
  have va': "visits st (insert a V) a = visits st V a + 1" using a(2) u(1,2) by (auto simp: visits_def)
  have vu': "visits st (insert a V) u = visits st V u + 1" using nu u(1,2) by (auto simp: visits_def)
  have vx: "visits st (insert a V) x = visits st V x" if "x \<noteq> a" "x \<noteq> u" for x
    using that u(1) by (auto simp: visits_def)
  note wa = word_above_2 [OF big [OF a(1)] va] and wu = word_above_2 [OF big [OF u(3)] vu]
  let ?tick = "\<lambda>s. s\<lparr>s_stout := s_stout s - 1\<rparr>"
  let ?o = "ss_obj (counted st V)"
  have "ss_obj (counted st (insert a V)) x = (?o(a := ?tick (?o a), u := ?tick (?o u))) x" for x
    by (cases "x = a"; cases "x = u") (use va' vu' vx u(2) in \<open>simp_all add: counted_def diff_diff_eq\<close>)
  then have eq: "counted st (insert a V) = (counted st V)\<lparr>ss_obj := ?o(a := ?tick (?o a), u := ?tick (?o u))\<rparr>"
    by (simp add: counted_def fun_eq_iff)
  have "session_tick a (counted st V) = (s_stout (?o a) - 1, (counted st V)\<lparr>ss_obj := ?o(a := ?tick (?o a))\<rparr>)"
    using wa(1) by (simp add: session_tick_def Let_def counted_def)
  moreover have "session_tick u ((counted st V)\<lparr>ss_obj := ?o(a := ?tick (?o a))\<rparr>) =
      (s_stout (?o u) - 1, (counted st V)\<lparr>ss_obj := ?o(a := ?tick (?o a), u := ?tick (?o u))\<rparr>)"
    using wu(1) u(2) by (simp add: session_tick_def Let_def counted_def)
  moreover have "s_stout (?o a) - 1 \<noteq> 0" using wa(2) by (simp add: counted_def)
  ultimately show ?thesis
    using u(1) by (simp add: timeout_body_def eq)
qed

lemma for_each_counted_seg:
  assumes h: "ss_lists st = h" and p: "paired st L" and big: "\<And>b x. x \<in> set (L b) \<Longrightarrow> 2 < s_stout (ss_obj st x)"
  shows "hseg h s xs \<Longrightarrow> distinct xs \<Longrightarrow> set xs \<inter> V = {} \<Longrightarrow> (\<And>x. x \<in> set xs \<union> V \<Longrightarrow> \<exists>b. x \<in> set (L b)) \<Longrightarrow>
    hlist_for_each_safe ss_lists timeout_body (slot_val h s) (counted st V) = Some (counted st (set xs \<union> V))"
proof (induction xs arbitrary: V s)
  case Nil
  then show ?case by (simp add: hlist_for_each_safe.simps)
next
  case (Cons a xs)
  obtain b where "a \<in> set (L b)" using Cons.prems(4) [of a] by auto
  moreover have "a \<notin> V" "\<And>x. x \<in> V \<Longrightarrow> \<exists>b. x \<in> set (L b)" using Cons.prems by auto
  ultimately have "timeout_body a (counted st V) = Some (counted st (insert a V))"
    by (intro timeout_body_counted [OF p _ _ big]) blast+
  moreover have "hlist_for_each_safe ss_lists timeout_body (slot_val h (Next a)) (counted st (insert a V))
      = Some (counted st (set xs \<union> insert a V))"
    using Cons.prems by (intro Cons.IH) auto
  ultimately show ?case
    using Cons.prems(1) h by (subst hlist_for_each_safe.simps) simp
qed

lemma timeout_upto_counted:
  assumes h: "heap_is (ss_lists st) L" and p: "paired st L"
    and big: "\<And>b x. x \<in> set (L b) \<Longrightarrow> 2 < s_stout (ss_obj st x)"
  shows "al_session_timeout_upto n st = Some (counted st (\<Union>c<n. set (L c)))"
proof (induction n)
  case (Suc n)
  let ?V = "\<Union>c<n. set (L c)"
  have "hlist_for_each_safe ss_lists timeout_body (slot_val (ss_lists st) (First n)) (counted st ?V)
      = Some (counted st (set (L n) \<union> ?V))"
  proof (rule for_each_counted_seg [OF refl p big])
    show "hseg (ss_lists st) (First n) (L n)" using h by (simp add: heap_is_def)
    show "distinct (L n)" by (rule heap_is_distinct [OF h])
    show "set (L n) \<inter> ?V = {}" using heap_is_disjoint [OF h] by fastforce
  qed auto
  then show ?case using Suc by (simp add: lessThan_Suc Un_commute)
qed simp

text \<open>
  C22: one pass of al_session_timeout over a table whose sessions are paired and have more than
  two ticks left takes two ticks off every session of the table, and changes nothing else: no
  session is unlinked, no five-tuple released, no other object touched.
\<close>

theorem session_timeout_two_ticks:
  assumes "sess_wf st L" and "paired st L" and "\<And>b x. x \<in> set (L b) \<Longrightarrow> 2 < s_stout (ss_obj st x)"
  shows "\<exists>st'. al_session_timeout st = Some st' \<and> ss_lists st' = ss_lists st \<and> ss_ports st' = ss_ports st \<and>
    (\<forall>a. ss_obj st' a = (if \<exists>b. a \<in> set (L b)
       then (ss_obj st a)\<lparr>s_stout := s_stout (ss_obj st a) - 2\<rparr> else ss_obj st a))"
proof -
  have h: "heap_is (ss_lists st) L" using assms(1) by (simp add: sess_wf_def)
  let ?V = "\<Union>c<65536. set (L c)"
  have all: "a \<in> ?V \<longleftrightarrow> (\<exists>b. a \<in> set (L b))" for a
    using assms(1) session_bucket_bound by (fastforce simp: sess_wf_def)
  have "visits st ?V a = (if \<exists>b. a \<in> set (L b) then 2 else 0)" for a
  proof (cases "\<exists>b. a \<in> set (L b)")
    case True
    then obtain u where "\<exists>c. u \<in> set (L c)" "s_up (ss_obj st u) = Some a"
      using assms(2) unfolding paired_def by blast
    then have "\<exists>y \<in> ?V. s_up (ss_obj st y) = Some a" unfolding Bex_def all by blast
    then show ?thesis unfolding visits_def using True all [of a] by simp
  next
    case False
    moreover have "\<not> (\<exists>y \<in> ?V. s_up (ss_obj st y) = Some a)"
      unfolding Bex_def all using False pairedD(2) [OF assms(2)] by blast
    ultimately show ?thesis unfolding visits_def using all [of a] by simp
  qed
  moreover have "al_session_timeout st = Some (counted st ?V)"
    using timeout_upto_counted [OF h assms(2,3), where n = 65536] by (simp add: al_session_timeout_def)
  ultimately show ?thesis by (simp add: counted_def)
qed

definition sample_pair :: sess_state where
  "sample_pair = al_session_add 6 (al_session_add 5 (empty_sessions\<lparr>ss_obj :=
     (\<lambda>_. sample_session)(5 := sample_session\<lparr>s_up := Some 6\<rparr>, 6 := sample_session\<lparr>s_up := Some 5, s_remote_port := 81\<rparr>)\<rparr>))"

theorem session_timeout_two_ticks_witness:
  "\<exists>st'. al_session_timeout sample_pair = Some st' \<and> s_stout (ss_obj st' 5) = 298 \<and> s_stout (ss_obj st' 7) = 300"
proof -
  let ?st = "empty_sessions\<lparr>ss_obj :=
     (\<lambda>_. sample_session)(5 := sample_session\<lparr>s_up := Some 6\<rparr>, 6 := sample_session\<lparr>s_up := Some 5, s_remote_port := 81\<rparr>)\<rparr>"
  have obj: "ss_obj sample_pair = ss_obj ?st"
    by (simp add: sample_pair_def al_session_add_def Let_def)
  have 0: "sess_wf ?st (\<lambda>_. [])" "unlinked 5 (ss_lists ?st)"
    using empty_sessions_wf by (simp_all add: sess_wf_def)
  note 1 = sess_wf_add [OF this]
  have "unlinked 6 (ss_lists (al_session_add 5 ?st))"
    using 1 by (intro unlinked_iff [THEN iffD2]) (auto simp: sess_wf_def chain_fresh_def)
  from sess_wf_add [OF 1 this] obtain L where L: "sess_wf sample_pair L"
    and mem: "\<And>a. (\<exists>b. a \<in> set (L b)) \<longleftrightarrow> a = 5 \<or> a = 6"
    unfolding sample_pair_def [symmetric] by (fastforce split: if_splits)
  have "paired sample_pair L"
    unfolding paired_def obj using mem by auto
  moreover have "2 < s_stout (ss_obj sample_pair x)" for x
    by (simp add: obj sample_session_def)
  ultimately show ?thesis
    using session_timeout_two_ticks [OF L] by (auto simp: mem obj sample_session_def)
qed

lemma timeout_upto_None: "al_session_timeout_upto i st = None \<Longrightarrow> i \<le> j \<Longrightarrow> al_session_timeout_upto j st = None"
  by (induction j) (auto simp: le_Suc_eq)

lemma session_tick_last:
  assumes "s_stout (ss_obj st a) \<le> 1"
  shows "session_tick a st = (0, st\<lparr>ss_obj := (ss_obj st)(a := (ss_obj st a)\<lparr>s_stout := 0\<rparr>)\<rparr>)"
proof -
  have "s_stout (ss_obj st a) = 0 \<or> s_stout (ss_obj st a) = 1"
    using assms by (metis word_gt_0 word_less_1 linorder_not_le order_le_less)
  then show ?thesis
  proof
    assume z: "s_stout (ss_obj st a) = 0"
    then have "ss_obj st a = (ss_obj st a)\<lparr>s_stout := 0\<rparr>" by (metis session_t.surjective session_t.update_convs(9))
    then have "(ss_obj st)(a := (ss_obj st a)\<lparr>s_stout := 0\<rparr>) = ss_obj st" by (rule fun_upd_idem)
    then show ?thesis by (simp only: session_tick_def Let_def z) simp
  qed (simp add: session_tick_def Let_def)
qed

text \<open>The session at \<open>x\<close> is visited, with the peer \<open>y\<close>: only timers change, or both are unlinked with their timers at zero.\<close>

lemma session_dropD:
  assumes "session_drop a st = Some st'"
  shows "\<exists>h ps. hlist_del a (ss_lists st) = Some h \<and> st' = st\<lparr>ss_lists := h, ss_ports := ps\<rparr>"
  using assms by (auto simp: session_drop_def al_session_free_def Let_def split: bind_splits)

lemma session_tick_eq:
  "\<exists>t. session_tick x st = (t, st\<lparr>ss_obj := (ss_obj st)(x := (ss_obj st x)\<lparr>s_stout := t\<rparr>)\<rparr>)"
proof (cases "0 < s_stout (ss_obj st x)")
  case False
  then have "s_stout (ss_obj st x) \<le> 1" by (simp add: word_gt_0)
  then show ?thesis using session_tick_last by blast
qed (simp add: session_tick_def Let_def)

lemma timeout_body_cases:
  assumes "timeout_body x st = Some st'" "s_up (ss_obj st x) = Some y" "x \<noteq> y"
  obtains t v where "ss_lists st' = ss_lists st" "ss_obj st' = (ss_obj st)(x := (ss_obj st x)\<lparr>s_stout := t\<rparr>, y := (ss_obj st y)\<lparr>s_stout := v\<rparr>)"
  | h h' where "hlist_del x (ss_lists st) = Some h" "hlist_del y h = Some h'" "ss_lists st' = h'"
      "ss_obj st' = (ss_obj st)(x := (ss_obj st x)\<lparr>s_stout := 0\<rparr>, y := (ss_obj st y)\<lparr>s_stout := 0\<rparr>)"
proof -
  obtain t where t: "session_tick x st = (t, st\<lparr>ss_obj := (ss_obj st)(x := (ss_obj st x)\<lparr>s_stout := t\<rparr>)\<rparr>)" using session_tick_eq by blast
  let ?st1 = "st\<lparr>ss_obj := (ss_obj st)(x := (ss_obj st x)\<lparr>s_stout := t\<rparr>)\<rparr>"
  obtain v where "session_tick y ?st1 = (v, ?st1\<lparr>ss_obj := (ss_obj ?st1)(y := (ss_obj ?st1 y)\<lparr>s_stout := v\<rparr>)\<rparr>)" using session_tick_eq by blast
  then have v: "session_tick y ?st1 = (v, st\<lparr>ss_obj := (ss_obj st)(x := (ss_obj st x)\<lparr>s_stout := t\<rparr>, y := (ss_obj st y)\<lparr>s_stout := v\<rparr>)\<rparr>)"
    using assms(3) by simp
  show ?thesis
  proof (cases "t = 0 \<and> v = 0")
    case False
    then show ?thesis using assms(1,2) t v by (intro that(1) [of t v]) (auto simp: timeout_body_def)
  next
    case True
    then obtain st3 where "session_drop x (st\<lparr>ss_obj := (ss_obj st)(x := (ss_obj st x)\<lparr>s_stout := 0\<rparr>, y := (ss_obj st y)\<lparr>s_stout := 0\<rparr>)\<rparr>) = Some st3"
      "session_drop y st3 = Some st'" using assms(1,2) t v by (auto simp: timeout_body_def split: bind_splits)
    then show ?thesis using that(2) by (auto dest!: session_dropD)
  qed
qed

text \<open>\<open>doomed a u st L b\<close>: the paired sessions \<open>a\<close> and \<open>u\<close> follow each other in the bucket \<open>b\<close>, and both are about to expire.\<close>

definition doomed :: "addr \<Rightarrow> addr \<Rightarrow> sess_state \<Rightarrow> (addr \<Rightarrow> addr list) \<Rightarrow> addr \<Rightarrow> bool" where
  "doomed a u st L b \<longleftrightarrow> heap_is (ss_lists st) L \<and> paired st L \<and> (\<exists>pre xs. L b = pre @ a # u # xs) \<and>
     s_up (ss_obj st a) = Some u \<and> s_stout (ss_obj st a) \<le> 1 \<and> s_stout (ss_obj st u) \<le> 1"

lemma next_node: "heap_is h L \<Longrightarrow> L c = ys @ x # rest \<Longrightarrow> nxt (nodes h x) = top_of rest"
  using heap_is_seg [of h L c] by (cases rest) (auto simp: hseg_append)

lemma heap_is_del2:
  assumes "heap_is h L" "x \<in> set (L c)" "y \<in> set (L d)" "x \<noteq> y" "hlist_del x h = Some h1" "hlist_del y h1 = Some h2"
  shows "heap_is h2 (\<lambda>e. filter (\<lambda>z. z \<noteq> x \<and> z \<noteq> y) (L e))"
proof -
  have f: "L(c := remove1 x (L c)) = (\<lambda>e. filter (\<lambda>z. z \<noteq> x) (L e))" if "heap_is h L" "x \<in> set (L c)" for h L x c
  proof
    fix e
    show "(L(c := remove1 x (L c))) e = filter (\<lambda>z. z \<noteq> x) (L e)"
    proof (cases "e = c")
      case True
      have "remove1 x (L c) = filter (\<lambda>z. x \<noteq> z) (L c)"
        using heap_is_distinct [OF that(1)] by (simp add: distinct_remove1_removeAll removeAll_filter_not_eq)
      then show ?thesis using True by (simp add: eq_commute [of x])
    next
      case False
      then have "x \<notin> set (L e)" using heap_is_disjoint [OF that, of e] by blast
      then have "filter (\<lambda>z. z \<noteq> x) (L e) = L e" by (intro filter_True) auto
      then show ?thesis using False by simp
    qed
  qed
  have 1: "heap_is h1 (\<lambda>e. filter (\<lambda>z. z \<noteq> x) (L e))" using heap_is_del [OF assms(1,2)] assms(5) f [OF assms(1,2)] by auto
  have "y \<in> set (filter (\<lambda>z. z \<noteq> x) (L d))" using assms(3,4) by simp
  then show ?thesis using heap_is_del [OF 1, of y d] assms(6) f [OF 1, of y d] by (auto simp: conj_commute)
qed

text \<open>A visit of another session leaves the two where they are.\<close>

lemma doomed_step:
  assumes d: "doomed a u st L b" and x: "x \<in> set (L c)" "x \<noteq> a" "x \<noteq> u" and b: "timeout_body x st = Some st'"
    and y: "s_up (ss_obj st x) = Some y"
  shows "doomed a u st' L b \<and> ss_lists st' = ss_lists st \<or>
    doomed a u st' (\<lambda>e. filter (\<lambda>z. z \<noteq> x \<and> z \<noteq> y) (L e)) b \<and> timeout_body y st' = None"
proof -
  have h: "heap_is (ss_lists st) L" and p: "paired st L" and au: "s_up (ss_obj st a) = Some u" "s_stout (ss_obj st a) \<le> 1" "s_stout (ss_obj st u) \<le> 1"
    using d by (simp_all add: doomed_def)
  obtain pre xs where L: "L b = pre @ a # u # xs" using d by (auto simp: doomed_def)
  note py = pairedD [OF p x(1) y]
  have ua: "s_up (ss_obj st u) = Some a" using pairedD(3) [OF p _ au(1), of b] L by simp
  have ny: "y \<noteq> a" "y \<noteq> u" using py(3) au(1) ua x(2,3) by auto
  obtain d where yd: "y \<in> set (L d)" using py(2) by blast
  have up: "s_up (ss_obj st' z) = s_up (ss_obj st z)" and same: "z \<noteq> x \<Longrightarrow> z \<noteq> y \<Longrightarrow> ss_obj st' z = ss_obj st z" for z
    by (rule timeout_body_cases [OF b y py(1) [symmetric]]; simp)+
  have au': "s_up (ss_obj st' a) = Some u \<and> s_stout (ss_obj st' a) \<le> 1 \<and> s_stout (ss_obj st' u) \<le> 1"
    using au same [of a] same [of u] x ny by auto
  show ?thesis
  proof (rule timeout_body_cases [OF b y py(1) [symmetric]])
    assume "ss_lists st' = ss_lists st"
    moreover have "paired st' L" using p unfolding paired_def by (simp add: up)
    ultimately show ?thesis using d au' by (auto simp: doomed_def)
  next
    fix h1 h2 assume del: "hlist_del x (ss_lists st) = Some h1" "hlist_del y h1 = Some h2" "ss_lists st' = h2"
      and obj: "ss_obj st' = (ss_obj st)(x := (ss_obj st x)\<lparr>s_stout := 0\<rparr>, y := (ss_obj st y)\<lparr>s_stout := 0\<rparr>)"
    let ?P = "\<lambda>z. z \<noteq> x \<and> z \<noteq> y"
    have "heap_is (ss_lists st') (\<lambda>e. filter ?P (L e))" using heap_is_del2 [OF h x(1) yd py(1) [symmetric] del(1,2)] del(3) by simp
    moreover have "paired st' (\<lambda>e. filter ?P (L e))"
      unfolding paired_def
    proof (intro allI ballI)
      fix e z assume "z \<in> set (filter ?P (L e))"
      then have z: "z \<in> set (L e)" "z \<noteq> x" "z \<noteq> y" by auto
      then obtain z' where z': "s_up (ss_obj st z) = Some z'" using p unfolding paired_def by blast
      note q = pairedD [OF p z(1) z']
      have "z' \<noteq> x" "z' \<noteq> y" using q(3) y py(3) z(2,3) by auto
      then show "\<exists>u. s_up (ss_obj st' z) = Some u \<and> u \<noteq> z \<and> (\<exists>c. u \<in> set (filter ?P (L c))) \<and> s_up (ss_obj st' u) = Some z"
        using q z' by (intro exI [of _ z']) (auto simp: up)
    qed
    moreover have "\<exists>pre xs. filter ?P (L b) = pre @ a # u # xs"
      using L x ny by (intro exI [of _ "filter ?P pre"] exI [of _ "filter ?P xs"]) simp
    moreover have "timeout_body y st' = None"
    proof -
      have "hlist_del y h2 = None" using hlist_del_unhashed [OF del(2)] by (rule hlist_del_unlinked)
      then show ?thesis using py(1,3) del(3) obj by (simp add: timeout_body_def session_tick_def Let_def session_drop_def)
    qed
    ultimately show ?thesis using au' by (auto simp: doomed_def)
  qed
qed

text \<open>The bucket \<open>c\<close> from the session at the head of \<open>rest\<close> on. If that is the bucket of the two, the loop runs into the freed session.\<close>

lemma doomed_crash:
  assumes "doomed a u st L b" "L b = pre @ a # u # xs"
  shows "hlist_for_each_safe ss_lists timeout_body (Some a) st = None"
proof -
  have h: "heap_is (ss_lists st) L" and p: "paired st L" and au: "s_up (ss_obj st a) = Some u" "s_stout (ss_obj st a) \<le> 1" "s_stout (ss_obj st u) \<le> 1"
    using assms(1) by (simp_all add: doomed_def)
  have n: "nxt (nodes (ss_lists st) a) = Some u" using next_node [OF h assms(2)] by simp
  note q = pairedD [OF p _ au(1), of b]
  have ua: "u \<noteq> a" "s_up (ss_obj st u) = Some a" using q assms(2) by simp_all
  have "timeout_body u st' = None" if b: "timeout_body a st = Some st'" for st'
  proof (rule timeout_body_cases [OF b au(1) ua(1) [symmetric]])
    fix h1 h2 assume del: "hlist_del a (ss_lists st) = Some h1" "hlist_del u h1 = Some h2" "ss_lists st' = h2"
      and obj: "ss_obj st' = (ss_obj st)(a := (ss_obj st a)\<lparr>s_stout := 0\<rparr>, u := (ss_obj st u)\<lparr>s_stout := 0\<rparr>)"
    have "hlist_del u h2 = None" using hlist_del_unhashed [OF del(2)] by (rule hlist_del_unlinked)
    then show ?thesis using ua del(3) obj by (simp add: timeout_body_def session_tick_def Let_def session_drop_def)
  next
    fix t v assume keep: "ss_lists st' = ss_lists st"
    let ?z = "\<lambda>s. s\<lparr>s_stout := 0\<rparr>"
    let ?st = "st\<lparr>ss_obj := (ss_obj st)(a := ?z (ss_obj st a), u := ?z (ss_obj st u))\<rparr>"
    have "session_tick a st = (0, st\<lparr>ss_obj := (ss_obj st)(a := ?z (ss_obj st a))\<rparr>)" using au(2) by (rule session_tick_last)
    moreover have "session_tick u (st\<lparr>ss_obj := (ss_obj st)(a := ?z (ss_obj st a))\<rparr>) = (0, ?st)"
      using session_tick_last [of "st\<lparr>ss_obj := (ss_obj st)(a := ?z (ss_obj st a))\<rparr>" u] au(3) ua(1) by simp
    ultimately obtain st3 where s3: "session_drop a ?st = Some st3" "session_drop u st3 = Some st'"
      using b au(1) by (auto simp: timeout_body_def split: bind_splits)
    then obtain h1 h2 where del: "hlist_del a (ss_lists st) = Some h1" "hlist_del u h1 = Some h2" "ss_lists st' = h2"
      by (auto dest!: session_dropD)
    have a: "a \<in> set (L b)" and u: "u \<in> set (L b)" using assms(2) by simp_all
    have "heap_is (ss_lists st) (\<lambda>e. filter (\<lambda>z. z \<noteq> a \<and> z \<noteq> u) (L e))"
      using heap_is_del2 [OF h a u ua(1) [symmetric] del(1,2)] del(3) keep by simp
    then have "L b = filter (\<lambda>z. z \<noteq> a \<and> z \<noteq> u) (L b)" using heap_is_unique [OF h] by metis
    then show ?thesis using a by (metis (mono_tags, lifting) mem_Collect_eq set_filter)
  qed
  then show ?thesis using n by (cases "timeout_body a st") (simp_all add: hlist_for_each_safe.simps)
qed

lemma doomed_bucket:
  assumes "doomed a u st L b" "L c = ys @ rest" "c = b \<longrightarrow> (\<exists>pre xs. rest = pre @ a # u # xs)"
  shows "hlist_for_each_safe ss_lists timeout_body (top_of rest) st = None \<or>
    c \<noteq> b \<and> (\<exists>st' L'. hlist_for_each_safe ss_lists timeout_body (top_of rest) st = Some st' \<and> doomed a u st' L' b)"
  using assms
proof (induction "length rest" arbitrary: rest ys st L rule: less_induct)
  case less
  have h: "heap_is (ss_lists st) L" and p: "paired st L" using less.prems(1) by (simp_all add: doomed_def)
  show ?case
  proof (cases "rest = [] \<or> top_of rest = Some a")
    case True
    have "hlist_for_each_safe ss_lists timeout_body (top_of rest) st = None" if ne: "rest \<noteq> []"
    proof -
      obtain rest1 where r: "rest = a # rest1" using ne True by (cases rest) auto
      obtain pre xs where L: "L b = pre @ a # u # xs" using less.prems(1) by (auto simp: doomed_def)
      then show ?thesis using doomed_crash [OF less.prems(1)] r by simp
    qed
    then show ?thesis using less.prems by (cases rest) (auto simp: hlist_for_each_safe.simps)
  next
    case False
    then obtain x rest1 where rest: "rest = x # rest1" "x \<noteq> a" by (cases rest) auto
    have x: "x \<in> set (L c)" using less.prems(2) rest by simp
    have pre: "\<exists>pre xs. rest1 = pre @ a # u # xs" if cb: "c = b"
    proof -
      obtain pre xs where "rest = pre @ a # u # xs" using less.prems(3) cb by blast
      then show ?thesis using rest by (cases pre) auto
    qed
    have dist: "distinct (ys @ x # rest1)" using heap_is_distinct [OF h, of c] less.prems(2) rest by simp
    have xu: "x \<noteq> u"
    proof (cases "c = b")
      case True
      then show ?thesis using pre dist by auto
    next
      case False
      have "u \<in> set (L b)" using less.prems(1) by (auto simp: doomed_def)
      then show ?thesis using heap_is_disjoint [OF h x, of b] False by blast
    qed
    obtain y where y: "s_up (ss_obj st x) = Some y" using p x unfolding paired_def by blast
    have n: "nxt (nodes (ss_lists st) x) = top_of rest1" by (rule next_node [OF h]) (use less.prems(2) rest in simp)
    show ?thesis
    proof (cases "timeout_body x st")
      case None
      then show ?thesis using rest by (simp add: hlist_for_each_safe.simps)
    next
      case (Some st')
      have loop: "hlist_for_each_safe ss_lists timeout_body (top_of rest) st = hlist_for_each_safe ss_lists timeout_body (top_of rest1) st'"
        using Some n rest by (subst hlist_for_each_safe.simps) simp
      let ?P = "\<lambda>z. z \<noteq> x \<and> z \<noteq> y"
      consider (kept) "doomed a u st' L b"
        | (dropped) "doomed a u st' (\<lambda>e. filter ?P (L e)) b" "timeout_body y st' = None"
        using doomed_step [OF less.prems(1) x rest(2) xu Some y] by argo
      then show ?thesis
      proof cases
        case kept
        from less.hyps [OF _ this, of rest1 "ys @ [x]"] show ?thesis unfolding loop using less.prems(2) rest pre by auto
      next
        case dropped
        show ?thesis
        proof (cases "top_of rest1 = Some y")
          case True
          then show ?thesis unfolding loop using dropped(2) by (simp add: hlist_for_each_safe.simps)
        next
          case False
          let ?r = "filter ?P rest1"
          have fx: "?P z \<longleftrightarrow> z \<noteq> y" if "z \<in> set rest1" for z using that dist by auto
          have t: "top_of ?r = top_of rest1" using False dist by (cases rest1) auto
          have "\<exists>pre xs. ?r = pre @ a # u # xs" if "c = b"
          proof -
            obtain p1 x1 where r1: "rest1 = p1 @ a # u # x1" using pre \<open>c = b\<close> by blast
            have d: "doomed a u st L b" by (rule less.prems(1))
            have "y \<noteq> a" "y \<noteq> u"
              using pairedD(3) [OF p x y] d pairedD(3) [OF p, of a b u] rest(2) xu by (auto simp: doomed_def)
            then show ?thesis using rest(2) xu by (intro exI [of _ "filter ?P p1"] exI [of _ "filter ?P x1"]) (simp add: r1)
          qed
          then show ?thesis
            unfolding loop t [symmetric] using less.prems(2) rest
            by (intro less.hyps [OF _ dropped(1), of ?r "filter ?P ys"]) (auto simp: le_imp_less_Suc)
        qed
      qed
    qed
  qed
qed

lemma doomed_upto:
  assumes "doomed a u st L b" "n \<le> b"
  shows "al_session_timeout_upto n st = None \<or> (\<exists>st' L'. al_session_timeout_upto n st = Some st' \<and> doomed a u st' L' b)"
  using assms(2)
proof (induction n)
  case 0
  then show ?case using assms(1) by auto
next
  case (Suc n)
  show ?case
  proof (cases "al_session_timeout_upto n st")
    case (Some st1)
    then obtain L1 where d: "doomed a u st1 L1 b" using Suc by auto
    have "heads (ss_lists st1) n = top_of (L1 n)" using heap_is_seg [of "ss_lists st1" L1 n] d by (cases "L1 n") (auto simp: doomed_def)
    then show ?thesis using doomed_bucket [OF d, of n "[]" "L1 n"] Some Suc.prems by auto
  qed simp
qed

text \<open>
  C18: al_session_timeout runs into undefined behaviour on every table of paired sessions in which a
  session with at most one tick left is followed in its bucket by its peer with at most one tick
  left, wherever in the table the two are and whatever the other sessions are. The loop has saved
  the peer as the next node; it then unlinks and frees the peer together with the session, goes on
  at the saved node and unlinks it again, through the null pointer that is left there.
\<close>

theorem session_timeout_crash:
  assumes "heap_is (ss_lists st) L" "paired st L" "L b = pre @ a # u # xs" "b < HASHSIZE MAX_SESSION_COUNTER"
    and "s_up (ss_obj st a) = Some u" "s_stout (ss_obj st a) \<le> 1" "s_stout (ss_obj st u) \<le> 1"
  shows "al_session_timeout st = None"
proof -
  have d: "doomed a u st L b" using assms by (auto simp: doomed_def)
  have "al_session_timeout_upto (Suc b) st = None"
  proof (cases "al_session_timeout_upto b st")
    case (Some st1)
    then obtain L1 where d: "doomed a u st1 L1 b" using doomed_upto [OF d order_refl] by auto
    then have "heads (ss_lists st1) b = top_of (L1 b)" using heap_is_seg [of "ss_lists st1" L1 b] by (cases "L1 b") (auto simp: doomed_def)
    then show ?thesis using doomed_bucket [OF d, of b "[]" "L1 b"] d Some by (auto simp: doomed_def)
  qed simp
  then show ?thesis
    unfolding al_session_timeout_def by (rule timeout_upto_None) (use assms(4) in simp)
qed

theorem session_timeout_crash_witness:
  "al_session_timeout (al_session_add 6 (al_session_add 5 (empty_sessions\<lparr>ss_obj :=
     (\<lambda>_. sample_session)(5 := sample_session\<lparr>s_up := Some 6, s_stout := 1\<rparr>,
       6 := sample_session\<lparr>s_up := Some 5, s_stout := 1\<rparr>)\<rparr>))) = None"
proof -
  let ?st = "empty_sessions\<lparr>ss_obj := (\<lambda>_. sample_session)(5 := sample_session\<lparr>s_up := Some 6, s_stout := 1\<rparr>,
       6 := sample_session\<lparr>s_up := Some 5, s_stout := 1\<rparr>)\<rparr>"
  let ?b = "session_bucket sample_session"
  have bkt: "session_bucket (sample_session\<lparr>s_up := x, s_stout := y\<rparr>) = ?b" for x y
    by (simp add: session_bucket_def skey4_def skey6_def)
  have h0: "heap_is (ss_lists ?st) (\<lambda>_. [])" "unlinked 5 (ss_lists ?st)"
    using empty_sessions_wf by (simp_all add: sess_wf_def)
  have h1: "heap_is (ss_lists (al_session_add 5 ?st)) ((\<lambda>_. [])(?b := [5]))"
    using al_session_add_heap(1) [OF h0] by (simp add: bkt)
  have obj: "ss_obj (al_session_add 5 ?st) = ss_obj ?st" by (rule al_session_add_heap(2) [OF h0])
  have u: "unlinked 6 (ss_lists (al_session_add 5 ?st))"
    using h1 by (rule unlinked_iff [THEN iffD2]) (simp add: chain_fresh_def)
  have h2: "heap_is (ss_lists (al_session_add 6 (al_session_add 5 ?st))) ((\<lambda>_. [])(?b := [6, 5]))"
    using al_session_add_heap(1) [OF h1 u] by (simp add: bkt obj)
  have "paired (al_session_add 6 (al_session_add 5 ?st)) ((\<lambda>_. [])(?b := [6, 5]))"
    by (auto simp: paired_def al_session_add_heap(2) [OF h1 u] obj split: if_splits)
  from session_timeout_crash [OF h2 this, of ?b "[]" 6 5 "[]"] show ?thesis
    using session_bucket_bound [of sample_session] by (simp add: al_session_add_heap(2) [OF h1 u] obj)
qed

end
