(* ===== verification/Ip_Addr.thy ===== *)
theory Ip_Addr
  imports Aware_Prelude
begin

text \<open>
  Addresses and masks: the address structure al_addr of al_to_api.h, the masks built from a
  prefix length (tomask_ipv4, tomask_ipv6 and ip_genmask of al_ip.h and al_ip.c), and the
  subnet test of al_router.h. Addresses are kept in network byte order in memory, so on a
  little-endian machine the leading bit of an address is bit 7 of its value.
\<close>

section \<open>Operations\<close>

record al_addr_t =
  a_len :: u8
  a_af :: u8
  a_addr :: ipcs_t

definition is_same_subnet :: "ipcs_t \<Rightarrow> ipcs_t \<Rightarrow> ipcs_t \<Rightarrow> u8 \<Rightarrow> int" where
  "is_same_subnet ip tip msk iptype =
     (if iptype = AF_INET then (if ipv4 ip AND ipv4 msk = ipv4 tip AND ipv4 msk then 1 else 0)
      else (if ip AND msk = tip AND msk then 1 else 0))"

text \<open>A shift by 32 bits or more, or by a negative amount, is undefined.\<close>

definition tomask_ipv4 :: "int \<Rightarrow> u32 option" where
  "tomask_ipv4 prefix =
     (if prefix = 0 then Some 0
      else if 0 < prefix \<and> prefix \<le> 32 then Some (bswap32 (push_bit (nat (32 - prefix)) (NOT 0)))
      else None)"

definition set_byte :: "nat \<Rightarrow> u8 \<Rightarrow> u128 \<Rightarrow> u128" where
  "set_byte j b w = (w AND NOT (push_bit (8 * j) 0xff)) OR push_bit (8 * j) (ucast b)"

text \<open>The loop of tomask_ipv6 writes byte \<open>j\<close>; the sixteen bytes end at \<open>j = 15\<close>.\<close>

function tomask6_loop :: "nat \<Rightarrow> nat \<Rightarrow> u128 \<Rightarrow> u128 option" where
  "tomask6_loop i j data =
     (if i = 0 then Some data
      else if 16 \<le> j then None
      else tomask6_loop (i - 8) (Suc j)
             (set_byte j (if 8 \<le> i then 0xff else push_bit (8 - i) 0xff) data))"
  by pat_completeness auto

termination tomask6_loop
  by (relation "measure (\<lambda>(i, j, data). i)") auto

definition tomask_ipv6 :: "int \<Rightarrow> u128 option" where
  "tomask_ipv6 prefix = (if prefix = 0 then Some 0 else tomask6_loop (nat prefix) 0 0)"

text \<open>The IPv4 branch of ip_genmask, with IPV4_NETMASK; its range check is never true.\<close>

definition ip_genmask4 :: "ipcs_t \<Rightarrow> u8 \<Rightarrow> (int \<times> ipcs_t) option" where
  "ip_genmask4 ip prefix =
     (if 127 < prefix \<and> prefix = 0 then Some (-1, ip)
      else if unat prefix < 32 then Some (0, set_ipv4 (bswap32 (NOT (drop_bit (unat prefix) (NOT 0)))) ip)
      else None)"

declare tomask6_loop.simps [simp del]

section \<open>Bits in network order\<close>

text \<open>\<open>netpos i\<close> is the position in the value of the \<open>i\<close>-th bit of the address.\<close>

definition netpos :: "nat \<Rightarrow> nat" where
  "netpos i = 8 * (i div 8) + (7 - i mod 8)"

lemma netpos_div_mod [simp]: "netpos i div 8 = i div 8" "netpos i mod 8 = 7 - i mod 8"
proof -
  have d: "(8 * a + b) div 8 = a" "(8 * a + b) mod 8 = b" if "b < 8" for a b :: nat using that by auto
  show "netpos i div 8 = i div 8" "netpos i mod 8 = 7 - i mod 8" unfolding netpos_def by (rule d; simp)+
qed

lemma netpos_netpos [simp]: "netpos (netpos i) = i"
  using mod_less_divisor [of 8 i] unfolding netpos_def [of "netpos i"] by simp

lemma netpos_less: "netpos i < 8 * n \<longleftrightarrow> i < 8 * n"
proof -
  have "x < 8 * n \<longleftrightarrow> x div 8 < n" for x :: nat by (simp add: less_mult_imp_div_less mult.commute div_less_iff_less_mult)
  then show ?thesis by simp
qed

lemma bit_bswap32: "bit (bswap32 w) n \<longleftrightarrow> n < 32 \<and> bit w (8 * (3 - n div 8) + n mod 8)"
proof (cases "n < 32")
  case True
  then have "n \<in> {0..<32}" by simp
  then show ?thesis
    by (simp add: atLeastLessThan_nat_numeral) (elim disjE; auto simp: bswap32_def bit_simps simp flip: numeral_2_eq_2 dest: bit_imp_le_length)
qed (auto simp: bswap32_def bit_simps dest: bit_imp_le_length)

lemma netpos_mirror: "i < 32 \<Longrightarrow> 8 * (3 - netpos i div 8) + netpos i mod 8 = 31 - i"
proof -
  assume "i < 32"
  then have "i div 8 \<le> 3" by simp
  moreover have "i = 8 * (i div 8) + i mod 8" "i mod 8 < 8" by simp_all
  ultimately show ?thesis unfolding netpos_div_mod by linarith
qed

lemma bit_tomask_ipv4:
  assumes "0 \<le> p" "p \<le> 32" "tomask_ipv4 p = Some m" "i < 32"
  shows "bit m (netpos i) \<longleftrightarrow> i < nat p"
proof (cases "p = 0")
  case False
  have "netpos i < 32" using netpos_less [of i 4] assms(4) by simp
  then have "bit m (netpos i) \<longleftrightarrow> nat (32 - p) \<le> 31 - i"
    using False assms netpos_mirror [OF assms(4)] by (auto simp: tomask_ipv4_def bit_bswap32 bit_simps)
  also have "\<dots> \<longleftrightarrow> i < nat p" using False assms by linarith
  finally show ?thesis .
qed (use assms in \<open>simp add: tomask_ipv4_def\<close>)

lemma div8_eq: "n div 8 = j \<longleftrightarrow> 8 * j \<le> n \<and> n < 8 * j + 8" for n j :: nat
proof
  assume "n div 8 = j"
  then have "n = 8 * j + n mod 8" "n mod 8 < 8" by auto
  then show "8 * j \<le> n \<and> n < 8 * j + 8" by linarith
qed (rule div_nat_eqI, simp_all)

lemma bit_set_byte: "bit (set_byte j b w) n \<longleftrightarrow>
    n < 128 \<and> (if n div 8 = j then bit b (n mod 8) else bit w n)"
proof -
  have m: "(0xff :: u128) = mask 8" by (simp add: mask_eq_exp_minus_1)
  show ?thesis
  proof (cases "n div 8 = j")
    case True
    then have "n mod 8 = n - 8 * j" "8 * j \<le> n" "n - 8 * j < 8" using div8_eq [of n j] by (auto simp: modulo_nat_def)
    then show ?thesis using True unfolding set_byte_def m by (auto simp: bit_simps)
  next
    case False
    then have "\<not> (8 * j \<le> n \<and> n - 8 * j < 8)" using div8_eq [of n j] by auto
    then show ?thesis
      using False bit_imp_le_length [of b "n - 8 * j"] bit_imp_le_length [of w n]
      unfolding set_byte_def m by (auto simp: bit_simps)
  qed
qed

lemma bit_tomask6_loop:
  assumes "i + 8 * j \<le> 128" and "\<And>n. 8 * j \<le> n \<Longrightarrow> \<not> bit data n"
  shows "\<exists>m. tomask6_loop i j data = Some m \<and>
    (\<forall>n. bit m n \<longleftrightarrow> n < 128 \<and> (if n < 8 * j then bit data n else netpos n < 8 * j + i))"
  using assms
proof (induction i j data rule: tomask6_loop.induct)
  case (1 i j data)
  show ?case
  proof (cases "i = 0")
    case True
    have eq: "tomask6_loop i j data = Some data" using True by (subst tomask6_loop.simps) simp
    have bits: "bit data n \<longleftrightarrow> n < 128 \<and> (if n < 8 * j then bit data n else netpos n < 8 * j + i)" for n
    proof (cases "n < 8 * j")
      case False
      then show ?thesis using True netpos_less [of n j] "1.prems"(2) [of n] by simp
    qed (use bit_imp_le_length [of data n] in auto)
    show ?thesis by (intro exI [of _ data] conjI allI) (rule eq, rule bits)
  next
    case False
    let ?x = "if 8 \<le> i then 0xff else push_bit (8 - i) 0xff :: u8"
    let ?d = "set_byte j ?x data"
    have j: "\<not> 16 \<le> j" using False "1.prems"(1) by arith
    have top: "\<not> bit ?d n" if "8 * Suc j \<le> n" for n
      using "1.prems"(2) [of n] that div8_eq [of n j] by (auto simp: bit_set_byte)
    have le: "i - 8 + 8 * Suc j \<le> 128" using "1.prems"(1) j by arith
    obtain m where m: "tomask6_loop (i - 8) (Suc j) ?d = Some m"
      "\<And>n. bit m n \<longleftrightarrow> n < 128 \<and> (if n < 8 * Suc j then bit ?d n else netpos n < 8 * Suc j + (i - 8))"
      using "1.IH" [OF False j le top] by blast
    have x: "bit ?x (n mod 8) \<longleftrightarrow> netpos n < 8 * j + i" if "n div 8 = j" for n
    proof -
      have m: "(0xff :: u8) = mask 8" by (simp add: mask_eq_exp_minus_1)
      have ff: "bit (0xff :: u8) k \<longleftrightarrow> k < 8" for k unfolding m bit_mask_iff by auto
      have "bit ?x k \<longleftrightarrow> 8 - i \<le> k" if "k < 8" for k
        using that by (cases "8 \<le> i") (simp_all only: if_True if_False bit_push_bit_iff ff, auto)
      then have "bit ?x (n mod 8) \<longleftrightarrow> 8 - i \<le> n mod 8" by simp
      also have "\<dots> \<longleftrightarrow> netpos n < 8 * j + i"
        using that mod_less_divisor [of 8 n] unfolding netpos_def by linarith
      finally show ?thesis .
    qed
    have eq: "tomask6_loop i j data = Some m" using m(1) False j by (subst tomask6_loop.simps) simp
    have bits: "bit m n \<longleftrightarrow> n < 128 \<and> (if n < 8 * j then bit data n else netpos n < 8 * j + i)" for n
    proof -
      have "n < 8 * j \<or> (8 * j \<le> n \<and> n < 8 * j + 8) \<or> 8 * Suc j \<le> n" by auto
      then consider "n < 8 * j" | "n div 8 = j" | "8 * Suc j \<le> n" unfolding div8_eq by blast
      then show ?thesis
      proof cases
        case 1
        then have "n div 8 \<noteq> j" "n < 8 * Suc j" unfolding div8_eq by simp_all
        then show ?thesis using 1 by (simp only: m(2) bit_set_byte if_True if_False simp_thms cong: conj_cong)
      next
        case 2
        then have "\<not> n < 8 * j" "n < 8 * Suc j" unfolding div8_eq by simp_all
        then show ?thesis by (simp only: m(2) bit_set_byte 2 x [OF 2] if_True if_False simp_thms cong: conj_cong)
      next
        case 3
        then have "8 * Suc j \<le> netpos n" using netpos_less [of n "Suc j"] by linarith
        then show ?thesis using 3 m(2) [of n] by auto
      qed
    qed
    show ?thesis by (intro exI [of _ m] conjI allI) (rule eq, rule bits)
  qed
qed

lemma bit_tomask_ipv6:
  assumes "0 \<le> p" "p \<le> 128"
  obtains m where "tomask_ipv6 p = Some m" "\<And>i. i < 128 \<Longrightarrow> bit m (netpos i) \<longleftrightarrow> i < nat p"
proof (cases "p = 0")
  case True
  then show ?thesis using that [of 0] by (simp add: tomask_ipv6_def)
next
  case False
  have "nat p \<le> 128" using assms by linarith
  then obtain m where "tomask6_loop (nat p) 0 0 = Some m" "\<And>n. bit m n \<longleftrightarrow> n < 128 \<and> netpos n < nat p"
    using bit_tomask6_loop [of "nat p" 0 0] by auto
  moreover have "i < 128 \<Longrightarrow> netpos i < 128" for i using netpos_less [of i 16] by simp
  ultimately show ?thesis using that [of m] False by (simp add: tomask_ipv6_def)
qed

lemma and_eq_netbits:
  fixes a b m :: "'a::len word"
  assumes "LENGTH('a) = 8 * w" "\<And>i. i < LENGTH('a) \<Longrightarrow> bit m (netpos i) \<longleftrightarrow> i < p" "p \<le> LENGTH('a)"
  shows "a AND m = b AND m \<longleftrightarrow> (\<forall>i < p. bit a (netpos i) = bit b (netpos i))"
proof
  assume eq: "a AND m = b AND m"
  show "\<forall>i < p. bit a (netpos i) = bit b (netpos i)"
  proof (intro allI impI)
    fix i assume "i < p"
    then have "bit m (netpos i)" using assms(2,3) by simp
    moreover have "bit (a AND m) (netpos i) = bit (b AND m) (netpos i)" by (simp add: eq)
    ultimately show "bit a (netpos i) = bit b (netpos i)" by (simp add: bit_and_iff)
  qed
next
  assume eq: "\<forall>i < p. bit a (netpos i) = bit b (netpos i)"
  show "a AND m = b AND m"
  proof (rule bit_word_eqI)
    fix n assume "n < LENGTH('a)"
    then have "netpos n < LENGTH('a)" using netpos_less [of n w] assms(1) by simp
    with assms(2) [of "netpos n"] eq show "bit (a AND m) n = bit (b AND m) n"
      by (auto simp: bit_and_iff)
  qed
qed

section \<open>Properties\<close>

text \<open>
  C21: a mask made from a prefix length \<open>p\<close> (tomask_ipv4, tomask_ipv6; up to 32 and 128) makes
  is_same_subnet compare exactly the \<open>p\<close> leading bits, in network order, of two addresses.
\<close>

theorem same_subnet_prefix:
  assumes "0 \<le> p" and "if af = AF_INET then p \<le> 32 else p \<le> 128"
  shows "\<exists>m. (if af = AF_INET then map_option (\<lambda>m. set_ipv4 m x) (tomask_ipv4 p) else tomask_ipv6 p) = Some m \<and>
    is_same_subnet a b m af = (if \<forall>i < nat p. bit a (netpos i) = bit b (netpos i) then 1 else 0)"
proof (cases "af = AF_INET")
  case True
  then have p: "p \<le> 32" using assms by simp
  then obtain m where m: "tomask_ipv4 p = Some m" using assms(1) by (cases "p = 0") (auto simp: tomask_ipv4_def)
  have bits: "i < 32 \<Longrightarrow> bit (ipv4 c) (netpos i) = bit c (netpos i)" for c i
    using netpos_less [of i 4] by (simp add: ipv4_def bit_simps)
  have "ipv4 a AND m = ipv4 b AND m \<longleftrightarrow> (\<forall>i < nat p. bit (ipv4 a) (netpos i) = bit (ipv4 b) (netpos i))"
    using bit_tomask_ipv4 [OF assms(1) p m] p by (intro and_eq_netbits [of 4]) simp_all
  also have "\<dots> \<longleftrightarrow> (\<forall>i < nat p. bit a (netpos i) = bit b (netpos i))"
    by (intro all_cong) (use bits p in simp)
  finally show ?thesis using True m by (simp add: is_same_subnet_def)
next
  case False
  then have p: "p \<le> 128" using assms by simp
  obtain m where m: "tomask_ipv6 p = Some m" "\<And>i. i < 128 \<Longrightarrow> bit m (netpos i) \<longleftrightarrow> i < nat p"
    using bit_tomask_ipv6 [OF assms(1) p] by blast
  have "a AND m = b AND m \<longleftrightarrow> (\<forall>i < nat p. bit a (netpos i) = bit b (netpos i))"
    using m(2) p by (intro and_eq_netbits [of 16]) simp_all
  then show ?thesis using False m(1) by (simp add: is_same_subnet_def)
qed

theorem same_subnet_prefix_witness:
  "\<exists>m. map_option (\<lambda>m. set_ipv4 m 0) (tomask_ipv4 6) = Some m \<and> is_same_subnet 1 2 m AF_INET = 1"
proof -
  have "bit (1 :: u128) (netpos i) = bit (2 :: u128) (netpos i)" if "i < nat 6" for i
  proof -
    have "i < 6" using that by simp
    then have "i = 0 \<or> i = 1 \<or> i = 2 \<or> i = 3 \<or> i = 4 \<or> i = 5" by linarith
    then have "netpos i \<in> {2, 3, 4, 5, 6, 7}" by (elim disjE) (simp_all add: netpos_def)
    then show ?thesis by auto
  qed
  then have bits: "(\<forall>i < nat 6. bit (1 :: u128) (netpos i) = bit (2 :: u128) (netpos i)) = True" by blast
  have h: "(0 :: int) \<le> 6" "if AF_INET = AF_INET then (6 :: int) \<le> 32 else (6 :: int) \<le> 128" by simp_all
  show ?thesis using same_subnet_prefix [OF h, where x = 0 and a = 1 and b = 2] by (simp only: bits refl if_True)
qed

end
