(* ===== verification/Vport.thy ===== *)
theory Vport
  imports Hlist Ip_Addr
begin

text \<open>
  al_vport.c: the IPv4 and IPv6 address lists of the virtual ports. A virtual port is an index
  into g_vport_ary; its IPv4 list is list head \<open>2 * i\<close> and its IPv6 list is list head
  \<open>2 * i + 1\<close>. The netlink call al_opt_ip, which tells the kernel about an address, is an
  argument: interface, add or delete, family, address, prefix length. g_sys_port_counter is
  at most MAX_ETHER_COUTER.
\<close>

section \<open>State and operations\<close>

record ip_t =
  i_ip :: ipcs_t
  i_mask :: ipcs_t
  i_ref :: u16
  i_id :: u64
  i_iptype :: u8
  i_asstype :: "3 word"

record vdev =
  vd_id :: "16 word"
  vd_port :: u8
  vd_mtu :: u16
  vd_haddr :: u48

record vport_state =
  v_lists :: hheap
  v_ip :: "addr \<Rightarrow> ip_t"
  v_dev :: "nat \<Rightarrow> vdev"
  v_ports :: nat

definition MAX_ETHER_COUTER :: nat where "MAX_ETHER_COUTER = 0x40"

definition vp4 :: "nat \<Rightarrow> addr" where "vp4 i = 2 * i"
definition vp6 :: "nat \<Rightarrow> addr" where "vp6 i = 2 * i + 1"

definition vp :: "u8 \<Rightarrow> nat \<Rightarrow> addr" where
  "vp iptype i = (if iptype = AF_INET then vp4 i else vp6 i)"

definition vport_init :: "u8 \<Rightarrow> vport_state \<Rightarrow> vport_state option" where
  "vport_init portid st =
     (let i = unat portid
      in if i < MAX_ETHER_COUTER
         then Some (st\<lparr>v_dev := (v_dev st)(i := (v_dev st i)\<lparr>vd_mtu := 1500\<rparr>),
                       v_lists := INIT_HLIST_HEAD (vp6 i) (INIT_HLIST_HEAD (vp4 i) (v_lists st))\<rparr>)
         else None)"

definition vport_get :: "u8 \<Rightarrow> nat option" where
  "vport_get portid = (if unat portid < MAX_ETHER_COUTER then Some (unat portid) else None)"

definition vport_has_ip :: "nat \<Rightarrow> ipcs_t \<Rightarrow> u8 \<Rightarrow> vport_state \<Rightarrow> int option" where
  "vport_has_ip vport ip iptype st =
     (if iptype = AF_INET
      then map_option (\<lambda>s. if s = None then 0 else 1)
             (hlist_find (\<lambda>s. ipv4 (i_ip (v_ip st s)) = ipv4 ip) (v_lists st) (heads (v_lists st) (vp4 vport)))
      else map_option (\<lambda>s. if s = None then 0 else 1)
             (hlist_find (\<lambda>s. i_ip (v_ip st s) = ip) (v_lists st) (heads (v_lists st) (vp6 vport))))"

text \<open>The out-parameter \<open>ip\<close> is passed in and returned.\<close>

definition vport_primer_ip :: "nat \<Rightarrow> ipcs_t \<Rightarrow> u8 \<Rightarrow> vport_state \<Rightarrow> int \<times> ipcs_t" where
  "vport_primer_ip vport ip iptype st =
     (if iptype = AF_INET
      then (case heads (v_lists st) (vp4 vport) of
              None \<Rightarrow> (0, ip) | Some s \<Rightarrow> (1, set_ipv4 (ipv4 (i_ip (v_ip st s))) ip))
      else (case heads (v_lists st) (vp6 vport) of
              None \<Rightarrow> (0, ip) | Some s \<Rightarrow> (1, i_ip (v_ip st s))))"

text \<open>The result code is a \<open>uint8_t\<close> set to -1, so a failure is reported as 255.\<close>

definition vport_select_local_ip ::
  "nat \<Rightarrow> ipcs_t \<Rightarrow> u8 \<Rightarrow> ipcs_t \<Rightarrow> vport_state \<Rightarrow> (int \<times> ipcs_t) option" where
  "vport_select_local_ip vport ip iptype rip st =
     map_option (\<lambda>s. case s of None \<Rightarrow> (uint (- 1 :: u8), ip) | Some a \<Rightarrow> (0, i_ip (v_ip st a)))
       (hlist_find (\<lambda>s. is_same_subnet (i_ip (v_ip st s)) rip (i_mask (v_ip st s)) iptype \<noteq> 0)
          (v_lists st) (heads (v_lists st) (if iptype = AF_INET then vp4 vport else vp6 vport)))"

text \<open>\<open>__builtin_popcount\<close> takes an unsigned int.\<close>

definition popcount :: "u32 \<Rightarrow> nat" where
  "popcount w = length (filter (bit w) [0..<32])"

text \<open>The loop over g_vport_ary in al_add_ip and al_del_ip; the 16-bit id is sign extended.\<close>

definition vport_by_id :: "u32 \<Rightarrow> vport_state \<Rightarrow> nat option" where
  "vport_by_id portid st = List.find (\<lambda>i. scast (vd_id (v_dev st i)) = portid) [0..<v_ports st]"

definition al_add_ip ::
  "(u8 \<Rightarrow> u8 \<Rightarrow> u8 \<Rightarrow> ipcs_t \<Rightarrow> u8 \<Rightarrow> int) \<Rightarrow> addr option \<Rightarrow> u8 \<Rightarrow> u64 \<Rightarrow> u32 \<Rightarrow> al_addr_t \<Rightarrow> al_addr_t \<Rightarrow> u8 \<Rightarrow>
   vport_state \<Rightarrow> int \<times> vport_state" where
  "al_add_ip al_opt_ip got ifindex ipid portid addr maddr ipclass st =
     (case vport_by_id portid st of
        None \<Rightarrow> (-1, st)
      | Some vport \<Rightarrow>
          (case got of
             None \<Rightarrow> (-1, st)
           | Some a \<Rightarrow>
               (let ip0 = (v_ip st a)\<lparr>i_id := ipid\<rparr>
                in if a_af addr = AF_INET then
                     (let ip = ip0\<lparr>i_ip := set_ipv4 (ipv4 (a_addr addr)) (i_ip ip0),
                                   i_mask := set_ipv4 (ipv4 (a_addr maddr)) (i_mask ip0),
                                   i_iptype := AF_INET, i_ref := i_ref ip0 + 1, i_asstype := ucast ipclass\<rparr>;
                          prefix = of_nat (popcount (ipv4 (i_mask ip)));
                          st' = st\<lparr>v_ip := (v_ip st)(a := ip), v_lists := hlist_add_head a (vp4 vport) (v_lists st)\<rparr>
                      in (al_opt_ip ifindex 1 (a_af addr) (i_ip ip) prefix, st'))
                   else if a_af addr = AF_INET6 then
                     (let ip = ip0\<lparr>i_ip := a_addr addr, i_mask := a_addr maddr,
                                   i_iptype := AF_INET6, i_ref := i_ref ip0 + 1, i_asstype := ucast ipclass\<rparr>;
                          prefix = of_nat (popcount (ucast (i_mask ip)));
                          st' = st\<lparr>v_ip := (v_ip st)(a := ip), v_lists := hlist_add_head a (vp6 vport) (v_lists st)\<rparr>
                      in (al_opt_ip ifindex 1 (a_af addr) (i_ip ip) prefix, st'))
                   else (-1, st\<lparr>v_ip := (v_ip st)(a := ip0)\<rparr>))))"

text \<open>One half of al_del_ip: the search and removal on one of the two lists.\<close>

definition del_ip_from :: "addr \<Rightarrow> u64 \<Rightarrow> vport_state \<Rightarrow> (addr option \<times> vport_state) option" where
  "del_ip_from b ipid st =
     do {
       s \<leftarrow> hlist_find (\<lambda>s. i_id (v_ip st s) = ipid) (v_lists st) (heads (v_lists st) b);
       (case s of
          None \<Rightarrow> Some (None, st)
        | Some a \<Rightarrow> do { h \<leftarrow> hlist_del a (v_lists st); Some (Some a, st\<lparr>v_lists := h\<rparr>) })
     }"

definition al_del_ip ::
  "(u8 \<Rightarrow> u8 \<Rightarrow> u8 \<Rightarrow> ipcs_t \<Rightarrow> u8 \<Rightarrow> int) \<Rightarrow> u8 \<Rightarrow> u64 \<Rightarrow> u32 \<Rightarrow> vport_state \<Rightarrow> (int \<times> vport_state) option" where
  "al_del_ip al_opt_ip ifindex ipid portid st =
     (case vport_by_id portid st of
        None \<Rightarrow> Some (-1, st)
      | Some vport \<Rightarrow>
          do {
            (r4, st4) \<leftarrow> del_ip_from (vp4 vport) ipid st;
            (case r4 of
               Some a \<Rightarrow> Some (al_opt_ip ifindex 0 AF_INET (i_ip (v_ip st a))
                              (of_nat (popcount (ipv4 (i_mask (v_ip st a))))), st4)
             | None \<Rightarrow>
                 do {
                   (r6, st6) \<leftarrow> del_ip_from (vp6 vport) ipid st4;
                   (case r6 of
                      Some a \<Rightarrow> Some (al_opt_ip ifindex 0 AF_INET6 (i_ip (v_ip st a))
                                     (of_nat (popcount (ucast (i_mask (v_ip st a))))), st6)
                    | None \<Rightarrow> Some (0, st6))
                 })
          })"

definition release_body :: "addr \<Rightarrow> vport_state \<Rightarrow> vport_state option" where
  "release_body s st = map_option (\<lambda>h. st\<lparr>v_lists := h\<rparr>) (hlist_del s (v_lists st))"

definition vport_release_res :: "u8 \<Rightarrow> vport_state \<Rightarrow> vport_state option" where
  "vport_release_res portid st =
     do {
       i \<leftarrow> vport_get portid;
       st1 \<leftarrow> hlist_for_each_safe v_lists release_body (heads (v_lists st) (vp4 i)) st;
       hlist_for_each_safe v_lists release_body (heads (v_lists st1) (vp6 i)) st1
     }"

section \<open>Properties\<close>

lemma vp_inj [simp]: "vp f i = vp g j \<longleftrightarrow> (f = AF_INET \<longleftrightarrow> g = AF_INET) \<and> i = j"
proof -
  have "2 * i \<noteq> Suc (2 * j)" "Suc (2 * i) \<noteq> 2 * j" by presburger+
  then show ?thesis by (auto simp: vp_def vp4_def vp6_def)
qed

lemma vp46: "vp4 i = vp AF_INET i" "vp6 i = vp AF_INET6 i"
  by (simp_all add: vp_def AF_INET_def AF_INET6_def)

lemma AF_distinct [simp]: "AF_INET \<noteq> AF_INET6" "AF_INET6 \<noteq> AF_INET"
  by (simp_all add: AF_INET_def AF_INET6_def)

definition same_addr :: "u8 \<Rightarrow> ipcs_t \<Rightarrow> ipcs_t \<Rightarrow> bool" where
  "same_addr f x y \<longleftrightarrow> (if f = AF_INET then ipv4 x = ipv4 y else x = y)"

lemma vport_has_ip_list:
  assumes "heap_is (v_lists st) L"
  shows "vport_has_ip i ip f st = Some (if \<exists>a \<in> set (L (vp f i)). same_addr f (i_ip (v_ip st a)) ip then 1 else 0)"
proof -
  have "List.find P xs = None \<longleftrightarrow> \<not> (\<exists>a \<in> set xs. P a)" for P :: "addr \<Rightarrow> bool" and xs by (auto simp: find_None_iff)
  then show ?thesis
    using assms by (simp add: vport_has_ip_def heap_is_find [OF assms] same_addr_def vp_def)
qed

text \<open>The entry al_add_ip builds in the object it allocated.\<close>

definition new_ip :: "ip_t \<Rightarrow> u64 \<Rightarrow> al_addr_t \<Rightarrow> al_addr_t \<Rightarrow> u8 \<Rightarrow> ip_t" where
  "new_ip e ipid addr maddr ipclass =
     e\<lparr>i_id := ipid, i_ip := (if a_af addr = AF_INET then set_ipv4 (ipv4 (a_addr addr)) (i_ip e) else a_addr addr),
       i_mask := (if a_af addr = AF_INET then set_ipv4 (ipv4 (a_addr maddr)) (i_mask e) else a_addr maddr),
       i_iptype := a_af addr, i_ref := i_ref e + 1, i_asstype := ucast ipclass\<rparr>"

lemma al_add_ip_eq:
  assumes "vport_by_id portid st = Some i" "a_af addr = AF_INET \<or> a_af addr = AF_INET6"
  shows "al_add_ip opt (Some a) ifindex ipid portid addr maddr ipclass st =
    (let e = new_ip (v_ip st a) ipid addr maddr ipclass
     in (opt ifindex 1 (a_af addr) (i_ip e) (of_nat (popcount (ucast (i_mask e)))),
         st\<lparr>v_ip := (v_ip st)(a := e), v_lists := hlist_add_head a (vp (a_af addr) i) (v_lists st)\<rparr>))"
  using assms by (auto simp: al_add_ip_def new_ip_def Let_def vp_def ipv4_def)

lemma del_ip_from_list:
  assumes h: "heap_is (v_lists st) L"
  shows "case List.find (\<lambda>s. i_id (v_ip st s) = ipid) (L b) of
      None \<Rightarrow> del_ip_from b ipid st = Some (None, st)
    | Some a \<Rightarrow> \<exists>h'. del_ip_from b ipid st = Some (Some a, st\<lparr>v_lists := h'\<rparr>) \<and>
        heap_is h' (L(b := remove1 a (L b)))"
proof (cases "List.find (\<lambda>s. i_id (v_ip st s) = ipid) (L b)")
  case None
  then show ?thesis by (simp add: del_ip_from_def heap_is_find [OF h])
next
  case (Some a)
  then have "a \<in> set (L b)" by (auto dest: find_Some_in_set)
  from heap_is_del [OF h this] Some show ?thesis by (auto simp: del_ip_from_def heap_is_find [OF h])
qed

lemma al_add_ip_heap:
  assumes "heap_is (v_lists st) L" "unlinked a (v_lists st)"
  shows "heap_is (hlist_add_head a b (v_lists st)) (L(b := a # L b))" "chain_fresh a L"
  using heap_is_add_head [OF assms(1)] unlinked_iff [OF assms(1)] assms(2) by auto

text \<open>
  C20: al_add_ip, with an id that no address of the port has, puts the address on the list of its
  port and family: vport_has_ip then answers
  1 for it, and for every other port, family or address what it answered before. The kernel is
  told the address with the number of mask bits. al_del_ip with the same id takes it off again:
  every answer is what it was before, and the kernel is told to remove the same address.
\<close>

theorem vport_add_del_ip:
  fixes a :: addr
  assumes "heap_is (v_lists st) L" and "unlinked a (v_lists st)" and "vport_by_id portid st = Some i"
    and "a_af addr = AF_INET \<or> a_af addr = AF_INET6"
    and "\<And>f s. s \<in> set (L (vp f i)) \<Longrightarrow> i_id (v_ip st s) \<noteq> ipid"
  shows "\<exists>ip n st1 st2. al_add_ip opt (Some a) ifindex ipid portid addr maddr ipclass st = (opt ifindex 1 (a_af addr) ip n, st1) \<and>
    same_addr (a_af addr) ip (a_addr addr) \<and> n = of_nat (popcount (ucast (a_addr maddr))) \<and>
    vport_has_ip i (a_addr addr) (a_af addr) st1 = Some 1 \<and>
    (\<forall>j f x. vp f j \<noteq> vp (a_af addr) i \<or> \<not> same_addr f x (a_addr addr) \<longrightarrow> vport_has_ip j x f st1 = vport_has_ip j x f st) \<and>
    al_del_ip opt ifindex ipid portid st1 = Some (opt ifindex 0 (a_af addr) ip n, st2) \<and>
    (\<forall>j f x. vport_has_ip j x f st2 = vport_has_ip j x f st)"
proof -
  define e where "e = new_ip (v_ip st a) ipid addr maddr ipclass"
  define b where "b = vp (a_af addr) i"
  let ?h = "hlist_add_head a b (v_lists st)"
  let ?st = "st\<lparr>v_ip := (v_ip st)(a := e), v_lists := ?h\<rparr>"
  let ?L = "L(b := a # L b)"
  note h1 = al_add_ip_heap(1) [OF assms(1,2), of b] and fresh = al_add_ip_heap(2) [OF assms(1,2)]
  have notin: "a \<notin> set (L c)" for c using fresh by (simp add: chain_fresh_def)
  have e: "i_id e = ipid" "same_addr (a_af addr) (i_ip e) (a_addr addr)"
    "ucast (i_mask e) = (ucast (a_addr maddr) :: u32)"
    using assms(4) by (auto simp: e_def new_ip_def same_addr_def simp flip: ipv4_def)
  have add: "al_add_ip opt (Some a) ifindex ipid portid addr maddr ipclass st =
      (opt ifindex 1 (a_af addr) (i_ip e) (of_nat (popcount (ucast (a_addr maddr)))), ?st)"
    using al_add_ip_eq [OF assms(3,4)] e(3) by (simp add: e_def b_def Let_def)
  have id: "vport_by_id portid ?st = Some i" using assms(3) by (simp add: vport_by_id_def)
  have h1': "heap_is (v_lists ?st) ?L" using h1 by simp
  have objs: "x \<in> set (L c) \<Longrightarrow> v_ip ?st x = v_ip st x" for x c using notin [of c] by auto
  have restored: "?L(b := remove1 a (?L b)) = L" by (simp add: fun_upd_idem)
  have "List.find (\<lambda>s. i_id (v_ip ?st s) = ipid) (?L b) = Some a" using e(1) by simp
  then obtain h' where h': "del_ip_from b ipid ?st = Some (Some a, ?st\<lparr>v_lists := h'\<rparr>)" "heap_is h' L"
    using del_ip_from_list [OF h1', where ipid = ipid and b = b] restored by auto
  have none: "del_ip_from c ipid ?st = Some (None, ?st)" if "c \<noteq> b" "c = vp f i" for c f
  proof -
    have "List.find (\<lambda>s. i_id (v_ip ?st s) = ipid) (?L c) = None"
      using assms(5) [of _ f] that objs [of _ c] by (auto simp: find_None_iff)
    then show ?thesis using del_ip_from_list [OF h1', where ipid = ipid and b = c] by simp
  qed
  have "al_del_ip opt ifindex ipid portid ?st =
      Some (opt ifindex 0 (a_af addr) (i_ip e) (of_nat (popcount (ucast (a_addr maddr)))), ?st\<lparr>v_lists := h'\<rparr>)"
  proof (cases "a_af addr = AF_INET")
    case True
    then show ?thesis using h'(1) id e(3) by (simp add: al_del_ip_def b_def vp46 ipv4_def)
  next
    case False
    then have af: "a_af addr = AF_INET6" using assms(4) by simp
    then show ?thesis using none [of "vp AF_INET i" AF_INET] h'(1) id e(3)
      by (simp add: al_del_ip_def b_def vp46)
  qed
  then have "\<exists>st2. al_del_ip opt ifindex ipid portid ?st =
      Some (opt ifindex 0 (a_af addr) (i_ip e) (of_nat (popcount (ucast (a_addr maddr)))), st2) \<and>
      heap_is (v_lists st2) L \<and> v_ip st2 = v_ip ?st"
    using h'(2) by (intro exI [of _ "?st\<lparr>v_lists := h'\<rparr>"]) simp
  then obtain st2 where st2: "al_del_ip opt ifindex ipid portid ?st =
      Some (opt ifindex 0 (a_af addr) (i_ip e) (of_nat (popcount (ucast (a_addr maddr)))), st2)"
      "heap_is (v_lists st2) L" "v_ip st2 = v_ip ?st" by blast
  have has: "vport_has_ip j x f ?st = Some (if (b = vp f j \<and> same_addr f (i_ip e) x) \<or>
      (\<exists>a \<in> set (L (vp f j)). same_addr f (i_ip (v_ip st a)) x) then 1 else 0)" for j f x
    unfolding vport_has_ip_list [OF h1'] using objs by (auto simp: fun_upd_apply split: if_splits)
  have has0: "vport_has_ip j x f st = Some (if \<exists>a \<in> set (L (vp f j)). same_addr f (i_ip (v_ip st a)) x then 1 else 0)" for j f x
    by (rule vport_has_ip_list [OF assms(1)])
  have has2: "vport_has_ip j x f st2 = vport_has_ip j x f st" for j f x
    unfolding vport_has_ip_list [OF st2(2)] has0 st2(3) using objs by simp
  have sym: "same_addr f x y \<longleftrightarrow> same_addr f y x" "same_addr f x y \<Longrightarrow> same_addr f y z \<Longrightarrow> same_addr f x z" for f x y z
    by (auto simp: same_addr_def)
  have fam: "b = vp f j \<Longrightarrow> same_addr f = same_addr (a_af addr)" for f j
    by (auto simp: b_def same_addr_def fun_eq_iff)
  have 1: "vport_has_ip i (a_addr addr) (a_af addr) ?st = Some 1"
    using e(2) unfolding has by (simp add: b_def)
  have 2: "vport_has_ip j x f ?st = vport_has_ip j x f st"
    if "vp f j \<noteq> vp (a_af addr) i \<or> \<not> same_addr f x (a_addr addr)" for j f x
  proof -
    have "\<not> (b = vp f j \<and> same_addr f (i_ip e) x)"
      using that e(2) fam [of f j] sym unfolding b_def by metis
    then show ?thesis unfolding has has0 by auto
  qed
  show ?thesis
    by (intro exI conjI allI impI) (rule add, rule e(2), rule refl, rule 1, erule 2, rule st2(1), rule has2)
qed

definition empty_vports :: vport_state where
  "empty_vports = \<lparr>v_lists = \<lparr>heads = \<lambda>_. None, nodes = \<lambda>_. \<lparr>nxt = None, pprev = None\<rparr>\<rparr>,
     v_ip = \<lambda>_. \<lparr>i_ip = 0, i_mask = 0, i_ref = 0, i_id = 0, i_iptype = 0, i_asstype = 0\<rparr>,
     v_dev = \<lambda>i. \<lparr>vd_id = of_nat i, vd_port = of_nat i, vd_mtu = 1500, vd_haddr = 0\<rparr>, v_ports = 2\<rparr>"

lemma empty_vports_heap: "heap_is (v_lists empty_vports) (\<lambda>_. [])" "unlinked a (v_lists empty_vports)"
proof -
  show h: "heap_is (v_lists empty_vports) (\<lambda>_. [])" by (simp add: empty_vports_def heap_is_empty)
  show "unlinked a (v_lists empty_vports)" using unlinked_iff [OF h] by (simp add: chain_fresh_def)
qed

lemma empty_vports_id: "vport_by_id 1 empty_vports = Some 1"
proof -
  have "[0..<2] = [0, 1 :: nat]" by (simp add: numeral_2_eq_2)
  then show ?thesis by (simp add: vport_by_id_def empty_vports_def)
qed

theorem vport_add_del_ip_witness:
  "\<exists>st1 st2. snd (al_add_ip (\<lambda>_ _ _ _ _. 0) (Some 5) 0 9 1 \<lparr>a_len = 0, a_af = AF_INET, a_addr = 0x0A000001\<rparr>
       \<lparr>a_len = 0, a_af = AF_INET, a_addr = 0x00FFFFFF\<rparr> 0 empty_vports) = st1 \<and>
     vport_has_ip 1 0x0A000001 AF_INET st1 = Some 1 \<and>
     al_del_ip (\<lambda>_ _ _ _ _. 0) 0 9 1 st1 = Some (0, st2) \<and> vport_has_ip 1 0x0A000001 AF_INET st2 = Some 0"
proof -
  let ?x = "\<lparr>a_len = 0, a_af = AF_INET, a_addr = 0x0A000001\<rparr>"
  have "vport_has_ip 1 0x0A000001 AF_INET empty_vports = Some 0"
    by (simp add: vport_has_ip_list [OF empty_vports_heap(1)])
  with vport_add_del_ip [OF empty_vports_heap(1) empty_vports_heap(2) empty_vports_id, of ?x 9 "\<lambda>_ _ _ _ _. 0" 5 0
      "\<lparr>a_len = 0, a_af = AF_INET, a_addr = 0x00FFFFFF\<rparr>" 0]
  show ?thesis by auto
qed

lemma popcount_netbits:
  assumes "\<And>i. i < 32 \<Longrightarrow> bit m (netpos i) \<longleftrightarrow> i < p" "p \<le> 32"
  shows "popcount m = p"
proof -
  have lt: "i < 32 \<Longrightarrow> netpos i < 32" for i using netpos_less [of i 4] by simp
  have "{n. n < 32 \<and> bit m n} = netpos ` {..<p}"
  proof (intro set_eqI iffI)
    fix n assume "n \<in> {n. n < 32 \<and> bit m n}"
    then have "netpos n < p" using assms(1) [of "netpos n"] lt by simp
    then show "n \<in> netpos ` {..<p}" by (metis image_eqI lessThan_iff netpos_netpos)
  next
    fix n assume "n \<in> netpos ` {..<p}"
    then obtain i where "i < p" "n = netpos i" by auto
    then show "n \<in> {n. n < 32 \<and> bit m n}" using assms lt by simp
  qed
  moreover have "inj_on netpos {..<p}" by (metis inj_onI netpos_netpos)
  moreover have "popcount m = card {n. n < 32 \<and> bit m n}"
    unfolding popcount_def length_filter_conv_card by (rule arg_cong [of _ _ card]) auto
  ultimately show ?thesis by (simp add: card_image)
qed

text \<open>
  the prefix length al_add_ip hands to the kernel, for a mask made from a prefix length
  \<open>p\<close>: for IPv4 it is \<open>p\<close>; for IPv6 only the first 32 bits of the mask are counted, so every
  prefix of 32 or longer is announced as 32.
\<close>

theorem add_ip_kernel_prefix:
  assumes "vport_by_id portid st = Some i" and "0 \<le> p"
    and "a_af addr = AF_INET \<and> p \<le> 32 \<and> tomask_ipv4 p = Some msk \<and> ipv4 (a_addr maddr) = msk \<or>
         a_af addr = AF_INET6 \<and> p \<le> 128 \<and> tomask_ipv6 p = Some (a_addr maddr)"
  shows "\<exists>ip st'. al_add_ip opt (Some a) ifindex ipid portid addr maddr ipclass st =
    (opt ifindex 1 (a_af addr) ip (of_int (min p 32)), st')"
proof -
  have m: "ucast (i_mask (new_ip e ipid addr maddr ipclass)) = (ucast (a_addr maddr) :: u32)" for e
    by (simp add: new_ip_def flip: ipv4_def)
  have "popcount (ucast (a_addr maddr)) = nat (min p 32)"
  proof (cases "a_af addr = AF_INET")
    case True
    then have p: "p \<le> 32" "tomask_ipv4 p = Some msk" "ipv4 (a_addr maddr) = msk" using assms(3) by auto
    then show ?thesis
      using bit_tomask_ipv4 [OF assms(2) p(1,2)] by (intro popcount_netbits) (simp_all add: min_absorb1 flip: ipv4_def)
  next
    case False
    then have p: "p \<le> 128" "tomask_ipv6 p = Some (a_addr maddr)" using assms(3) by auto
    from bit_tomask_ipv6 [OF assms(2) p(1)] p(2)
    have "i < 128 \<Longrightarrow> bit (a_addr maddr) (netpos i) \<longleftrightarrow> i < nat p" for i by auto
    moreover have "i < 32 \<Longrightarrow> netpos i < 32" for i using netpos_less [of i 4] by simp
    ultimately show ?thesis by (intro popcount_netbits) (auto simp: bit_simps)
  qed
  moreover have "(of_nat (nat (min p 32)) :: u8) = of_int (min p 32)" using assms(2) by (simp add: of_nat_nat)
  moreover have "a_af addr = AF_INET \<or> a_af addr = AF_INET6" using assms(3) by blast
  ultimately show ?thesis
    using al_add_ip_eq [OF assms(1)] m by (simp add: Let_def) blast
qed

theorem add_ip_kernel_prefix_witness:
  "\<exists>m st'. tomask_ipv6 64 = Some m \<and>
     al_add_ip (\<lambda>_ _ _ _ n. uint n) (Some 5) 0 9 1 \<lparr>a_len = 0, a_af = AF_INET6, a_addr = 1\<rparr>
       \<lparr>a_len = 0, a_af = AF_INET6, a_addr = m\<rparr> 0 empty_vports = (32, st')"
proof -
  obtain m where m: "tomask_ipv6 64 = Some m" using bit_tomask_ipv6 [of 64] by auto
  from add_ip_kernel_prefix [OF empty_vports_id, where p = 64 and opt = "\<lambda>_ _ _ _ n. uint n" and a = 5 and ifindex = 0
      and ipid = 9 and ipclass = 0 and addr = "\<lparr>a_len = 0, a_af = AF_INET6, a_addr = 1\<rparr>"
      and maddr = "\<lparr>a_len = 0, a_af = AF_INET6, a_addr = m\<rparr>" and msk = 0] m
  show ?thesis by auto
qed

lemma uint_minus1_u8: "uint (- 1 :: u8) = 255"
  by (simp add: unsigned_minus_1_eq_mask mask_eq_exp_minus_1)

definition in_subnet :: "vport_state \<Rightarrow> u8 \<Rightarrow> ipcs_t \<Rightarrow> addr \<Rightarrow> bool" where
  "in_subnet st f rip a \<longleftrightarrow> is_same_subnet (i_ip (v_ip st a)) rip (i_mask (v_ip st a)) f \<noteq> 0"

lemma select_local_ip_find:
  assumes "heap_is (v_lists st) L"
  shows "vport_select_local_ip i ip f rip st = Some (case List.find (in_subnet st f rip) (L (vp f i)) of
      None \<Rightarrow> (255, ip) | Some a \<Rightarrow> (0, i_ip (v_ip st a)))"
  using heap_is_find [OF assms]
  by (simp add: vport_select_local_ip_def in_subnet_def [abs_def] vp_def uint_minus1_u8 cong: option.case_cong)

lemma select_local_ip_step:
  assumes "heap_is (v_lists st) L"
  shows "\<exists>rc ip'. vport_select_local_ip i ip f rip st = Some (rc, ip') \<and>
    (if \<exists>a \<in> set (L (vp f i)). in_subnet st f rip a
     then rc = 0 \<and> (\<exists>a \<in> set (L (vp f i)). in_subnet st f rip a \<and> ip' = i_ip (v_ip st a))
     else rc = 255 \<and> ip' = ip)"
proof -
  note sel = select_local_ip_find [OF assms]
  show ?thesis
  proof (cases "List.find (in_subnet st f rip) (L (vp f i))")
    case None
    then have "\<not> (\<exists>a \<in> set (L (vp f i)). in_subnet st f rip a)" by (auto simp: find_None_iff)
    then show ?thesis unfolding sel None by simp
  next
    case (Some a)
    then have "a \<in> set (L (vp f i))" "in_subnet st f rip a" by (auto dest: find_Some_in_set)
    then show ?thesis unfolding sel using Some by auto
  qed
qed

text \<open>
  vport_select_local_ip answers 0 and an address of the port in the subnet of the remote
  address exactly when the port has such an address; otherwise it answers 255 and leaves the
  out-parameter alone.
\<close>

theorem select_local_ip_correct:
  assumes "heap_is (v_lists st) L"
  shows "\<exists>rc ip'. vport_select_local_ip i ip f rip st = Some (rc, ip') \<and>
    (if \<exists>a \<in> set (L (vp f i)). in_subnet st f rip a
     then rc = 0 \<and> (\<exists>a \<in> set (L (vp f i)). in_subnet st f rip a \<and> ip' = i_ip (v_ip st a))
     else rc = 255 \<and> ip' = ip)"
  by (rule select_local_ip_step [OF assms])

theorem select_local_ip_correct_witness:
  "vport_select_local_ip 1 7 AF_INET 0x0A000002 empty_vports = Some (255, 7)"
  using select_local_ip_correct [OF empty_vports_heap(1), of 1 7 AF_INET "0x0A000002"] by simp

lemma release_loop:
  assumes "heap_is (v_lists st) L"
  shows "\<exists>h. hlist_for_each_safe v_lists release_body (heads (v_lists st) b) st = Some (st\<lparr>v_lists := h\<rparr>) \<and>
    heap_is h (L(b := []))"
  using heap_is_sweep [of v_lists st L "\<lambda>h st. st\<lparr>v_lists := h\<rparr>" b release_body "\<lambda>_. True"] assms
  by (simp add: release_body_def map_option_case bind_eq_Some_conv Option.map_conv_bind_option)

text \<open>
  Vport_release_res takes every address off both lists of the port and leaves the lists of
  all other ports as they are.
\<close>

theorem release_res_clears:
  assumes "heap_is (v_lists st) L" and "unat portid < MAX_ETHER_COUTER"
  shows "\<exists>st'. vport_release_res portid st = Some st' \<and>
    (\<forall>j f x. vport_has_ip j x f st' = (if j = unat portid then Some 0 else vport_has_ip j x f st))"
proof -
  let ?i = "unat portid"
  obtain h where h: "hlist_for_each_safe v_lists release_body (heads (v_lists st) (vp4 ?i)) st = Some (st\<lparr>v_lists := h\<rparr>)"
    "heap_is h (L(vp4 ?i := []))" using release_loop [OF assms(1)] by blast
  obtain h' where h': "hlist_for_each_safe v_lists release_body (heads h (vp6 ?i)) (st\<lparr>v_lists := h\<rparr>) = Some (st\<lparr>v_lists := h'\<rparr>)"
    "heap_is h' (L(vp4 ?i := [], vp6 ?i := []))"
    using release_loop [of "st\<lparr>v_lists := h\<rparr>" "L(vp4 ?i := [])" "vp6 ?i"] h(2) by auto
  have "vport_has_ip j x f (st\<lparr>v_lists := h'\<rparr>) = (if j = ?i then Some 0 else vport_has_ip j x f st)" for j f x
    using vport_has_ip_list [of "st\<lparr>v_lists := h'\<rparr>", OF _, of "L(vp4 ?i := [], vp6 ?i := [])"] h'(2)
    by (simp add: vport_has_ip_list [OF assms(1)] vp46)
  moreover have "vport_release_res portid st = Some (st\<lparr>v_lists := h'\<rparr>)"
    using h(1) h'(1) assms(2) by (simp add: vport_release_res_def vport_get_def)
  ultimately show ?thesis by blast
qed

theorem release_res_clears_witness:
  "\<exists>st'. vport_release_res 1 (snd (al_add_ip (\<lambda>_ _ _ _ _. 0) (Some 5) 0 9 1 \<lparr>a_len = 0, a_af = AF_INET, a_addr = 0x0A000001\<rparr>
       \<lparr>a_len = 0, a_af = AF_INET, a_addr = 0x00FFFFFF\<rparr> 0 empty_vports)) = Some st' \<and>
     vport_has_ip 1 0x0A000001 AF_INET st' = Some 0"
proof -
  let ?st = "snd (al_add_ip (\<lambda>_ _ _ _ _. 0) (Some 5) 0 9 1 \<lparr>a_len = 0, a_af = AF_INET, a_addr = 0x0A000001\<rparr>
       \<lparr>a_len = 0, a_af = AF_INET, a_addr = 0x00FFFFFF\<rparr> 0 empty_vports)"
  have "heap_is (v_lists ?st) ((\<lambda>_. [])(vp AF_INET 1 := [5]))"
    using al_add_ip_eq [OF empty_vports_id, of "\<lparr>a_len = 0, a_af = AF_INET, a_addr = 0x0A000001\<rparr>"]
      al_add_ip_heap(1) [OF empty_vports_heap(1) empty_vports_heap(2), of 5 "vp AF_INET 1"] by (simp add: Let_def)
  from release_res_clears [OF this, of 1] show ?thesis by (auto simp: MAX_ETHER_COUTER_def)
qed

end
