(* ===== verification/Arp.thy ===== *)
theory Arp
  imports Vport
begin

text \<open>
  al_arp.c: the neighbour tables (ARP for IPv4, NDP for IPv6), the handling of incoming ARP
  frames, the ARP requests sent, and the parser of MAC addresses. Bucket \<open>i\<close> of arp_table is
  list head \<open>i\<close> and bucket \<open>i\<close> of ndp_table is list head \<open>2048 + i\<close>. Frames are lists of
  bytes; a frame handed to send_to_switch is part of the result. A MAC address is a 48-bit
  word, its first byte in memory the lowest.
\<close>

section \<open>State and operations\<close>

record arp_t =
  ar_haddr :: u48
  ar_ipaddr :: ipcs_t
  ar_ttl :: u16
  ar_portid :: u16
  ar_iptype :: u8

record arp_state =
  ar_lists :: hheap
  ar_obj :: "addr \<Rightarrow> arp_t"

definition ARP_TABLE_COUNTER :: nat where "ARP_TABLE_COUNTER = 2048"

definition arp_mask :: u16 where
  "arp_mask = of_nat (HASHSIZE ARP_TABLE_COUNTER - 1)"

definition ARP_KEY_DATA :: "u32 \<Rightarrow> u32" where
  "ARP_KEY_DATA ipaddr = (ipaddr AND 0xFFFF) XOR (drop_bit 16 ipaddr AND 0xFFFF)"

definition ARP_KEY :: "u32 \<Rightarrow> u16" where
  "ARP_KEY ipaddr = ucast (ARP_KEY_DATA ipaddr AND ucast arp_mask)"

definition NDP_KEY :: "u128 \<Rightarrow> u16" where
  "NDP_KEY ipaddr = ucast ((ARP_KEY_DATA (ucast ipaddr) XOR ARP_KEY_DATA (ucast (drop_bit 32 ipaddr))) AND ucast arp_mask)"

definition arp_table :: "u16 \<Rightarrow> addr" where "arp_table key = unat key"
definition ndp_table :: "u16 \<Rightarrow> addr" where "ndp_table key = 2048 + unat key"

definition arp_init :: "arp_state \<Rightarrow> int \<times> arp_state" where
  "arp_init st =
     (let n = HASHSIZE ARP_TABLE_COUNTER;
          h1 = fold (\<lambda>i. INIT_HLIST_HEAD (arp_table (of_nat i))) [0..<n] (ar_lists st);
          h2 = fold (\<lambda>i. INIT_HLIST_HEAD (ndp_table (of_nat i))) [0..<n] h1
      in (0, st\<lparr>ar_lists := h2\<rparr>))"

text \<open>
  The table part of arp_search and ndp_search: the result code and the hardware address, if
  one was copied.
\<close>

definition arp_find :: "u32 \<Rightarrow> arp_state \<Rightarrow> (int \<times> u48 option) option" where
  "arp_find addr st =
     map_option (\<lambda>pos. case pos of None \<Rightarrow> (-1, None)
                         | Some a \<Rightarrow> (uint (ar_portid (ar_obj st a)), Some (ar_haddr (ar_obj st a))))
       (hlist_find (\<lambda>pos. addr = ipv4 (ar_ipaddr (ar_obj st pos))) (ar_lists st)
          (heads (ar_lists st) (arp_table (ARP_KEY addr))))"

definition ndp_find :: "u128 \<Rightarrow> arp_state \<Rightarrow> (int \<times> u48 option) option" where
  "ndp_find addr st =
     map_option (\<lambda>pos. case pos of None \<Rightarrow> (-1, None)
                         | Some a \<Rightarrow> (uint (ar_portid (ar_obj st a)), Some (ar_haddr (ar_obj st a))))
       (hlist_find (\<lambda>pos. addr = ar_ipaddr (ar_obj st pos)) (ar_lists st)
          (heads (ar_lists st) (ndp_table (NDP_KEY addr))))"

definition arp_add_entry :: "addr option \<Rightarrow> u32 \<Rightarrow> u48 \<Rightarrow> u16 \<Rightarrow> arp_state \<Rightarrow> (int \<times> arp_state) option" where
  "arp_add_entry got ipaddr haddr portid st =
     do {
       let table = arp_table (ARP_KEY ipaddr);
       pos \<leftarrow> hlist_find (\<lambda>pos. ipaddr = ipv4 (ar_ipaddr (ar_obj st pos))) (ar_lists st) (heads (ar_lists st) table);
       (case pos of
          Some a \<Rightarrow> Some (1, st\<lparr>ar_obj := (ar_obj st)(a := (ar_obj st a)\<lparr>ar_portid := portid, ar_haddr := haddr\<rparr>)\<rparr>)
        | None \<Rightarrow>
            (case got of
               None \<Rightarrow> Some (0, st)
             | Some a \<Rightarrow>
                 (let e = ar_obj st a
                  in Some (1, st\<lparr>ar_lists := hlist_add_head a table (ar_lists st),
                                 ar_obj := (ar_obj st)(a := e\<lparr>ar_ipaddr := set_ipv4 ipaddr (ar_ipaddr e),
                                   ar_haddr := haddr, ar_portid := portid, ar_iptype := AF_INET\<rparr>)\<rparr>))))
     }"

text \<open>ndp_add_entry also sets the type AF_INET.\<close>

definition ndp_add_entry :: "addr option \<Rightarrow> u128 \<Rightarrow> u48 \<Rightarrow> u16 \<Rightarrow> arp_state \<Rightarrow> (int \<times> arp_state) option" where
  "ndp_add_entry got ipaddr haddr portid st =
     do {
       let table = ndp_table (NDP_KEY ipaddr);
       pos \<leftarrow> hlist_find (\<lambda>pos. ipaddr = ar_ipaddr (ar_obj st pos)) (ar_lists st) (heads (ar_lists st) table);
       (case pos of
          Some a \<Rightarrow> Some (1, st\<lparr>ar_obj := (ar_obj st)(a := (ar_obj st a)\<lparr>ar_portid := portid, ar_haddr := haddr\<rparr>)\<rparr>)
        | None \<Rightarrow>
            (case got of
               None \<Rightarrow> Some (0, st)
             | Some a \<Rightarrow>
                 (let e = ar_obj st a
                  in Some (1, st\<lparr>ar_lists := hlist_add_head a table (ar_lists st),
                                 ar_obj := (ar_obj st)(a := e\<lparr>ar_ipaddr := ipaddr,
                                   ar_haddr := haddr, ar_portid := portid, ar_iptype := AF_INET\<rparr>)\<rparr>))))
     }"

definition etharp_update_arp_entry :: "addr option \<Rightarrow> u16 \<Rightarrow> u32 \<Rightarrow> u48 \<Rightarrow> arp_state \<Rightarrow> (int \<times> arp_state) option" where
  "etharp_update_arp_entry got portid ipaddr ethaddr st =
     (if ipaddr = 0 then Some (0, st)
      else do {
        (rc, st') \<leftarrow> arp_add_entry got ipaddr ethaddr portid st;
        Some (0, st')
      })"

section \<open>Frames\<close>

definition HWTYPE_ETHERNET :: u16 where "HWTYPE_ETHERNET = 1"
definition ETHTYPE_ARP :: u16 where "ETHTYPE_ARP = 0x0806"
definition ETHTYPE_IP :: u16 where "ETHTYPE_IP = 0x0800"
definition ARP_REQUEST :: u16 where "ARP_REQUEST = 1"
definition ETHARP_HWADDR_LEN :: u8 where "ETHARP_HWADDR_LEN = 6"
definition SIZEOF_ETH_HDR :: nat where "SIZEOF_ETH_HDR = 14"
definition SIZEOF_ETHARP_PACKET :: nat where "SIZEOF_ETHARP_PACKET = 14 + 28"
definition ethbroadcast :: u48 where "ethbroadcast = NOT 0"
definition ethzero :: u48 where "ethzero = 0"

text \<open>
  al_arp_input: the frame \<open>p\<close> arrived on \<open>port\<close>. The header fields follow the layout of
  struct arp_hdr after the Ethernet header.
\<close>

definition al_arp_input :: "addr option \<Rightarrow> u8 \<Rightarrow> u8 list \<Rightarrow> vport_state \<Rightarrow> arp_state \<Rightarrow> (int \<times> arp_state) option" where
  "al_arp_input got port p vs st =
     (if length p < SIZEOF_ETHARP_PACKET then Some (-1, st)
      else if field p SIZEOF_ETH_HDR 2 \<noteq> bswap16 HWTYPE_ETHERNET \<or>
              field p (SIZEOF_ETH_HDR + 4) 1 \<noteq> ETHARP_HWADDR_LEN \<or>
              field p (SIZEOF_ETH_HDR + 5) 1 \<noteq> (4 :: u8) \<or>
              field p (SIZEOF_ETH_HDR + 2) 2 \<noteq> bswap16 ETHTYPE_IP
      then Some (-1, st)
      else do {
        let sipaddr = (field p (SIZEOF_ETH_HDR + 14) 4 :: u32);
        let dipaddr = (field p (SIZEOF_ETH_HDR + 24) 4 :: u32);
        let sha = (field p (SIZEOF_ETH_HDR + 8) 6 :: u48);
        netif \<leftarrow> vport_get port;
        has \<leftarrow> vport_has_ip netif (ucast sipaddr) AF_INET vs;
        if sipaddr \<noteq> dipaddr then
          (if has \<noteq> 0 then Some (0, st)
           else etharp_update_arp_entry got (ucast port) sipaddr sha st)
        else
          (if has = 0 then etharp_update_arp_entry got (ucast port) sipaddr sha st
           else Some (0, st))
      })"

text \<open>
  etharp_raw: \<open>buf\<close> tells whether the packet buffer was allocated and extended. The result is
  a \<open>uint8_t\<close>, so -1 is 255; the frame is what goes to send_to_switch.
\<close>

definition etharp_raw ::
  "bool \<Rightarrow> u8 \<Rightarrow> u48 \<Rightarrow> u48 \<Rightarrow> u48 \<Rightarrow> u32 \<Rightarrow> u48 \<Rightarrow> u32 \<Rightarrow> u16 \<Rightarrow> u8 \<times> (u8 \<times> u8 list) list" where
  "etharp_raw buf port ethsrc_addr ethdst_addr hwsrc_addr ipsrc_addr hwdst_addr ipdst_addr opcode =
     (if \<not> buf then (-1, [])
      else (0, [(port,
        bytes_of 6 ethdst_addr @ bytes_of 6 ethsrc_addr @ bytes_of 2 (bswap16 ETHTYPE_ARP) @
        bytes_of 2 (bswap16 HWTYPE_ETHERNET) @ bytes_of 2 (bswap16 ETHTYPE_IP) @
        [ETHARP_HWADDR_LEN, 4] @ bytes_of 2 (bswap16 opcode) @
        bytes_of 6 hwsrc_addr @ bytes_of 4 ipsrc_addr @ bytes_of 6 hwdst_addr @ bytes_of 4 ipdst_addr)]))"

text \<open>
  etharp_request for the device at index \<open>dev\<close>. \<open>lip\<close> is the indeterminate initial value of
  the local variable of that name.
\<close>

definition etharp_request ::
  "bool \<Rightarrow> ipcs_t \<Rightarrow> nat \<Rightarrow> u32 \<Rightarrow> vport_state \<Rightarrow> (u8 \<times> (u8 \<times> u8 list) list) option" where
  "etharp_request buf lip dev ipaddr vs =
     do {
       let rip = set_ipv4 ipaddr 0;
       let haddr = vd_haddr (v_dev vs dev);
       (rc, lip') \<leftarrow> vport_select_local_ip dev lip AF_INET rip vs;
       Some (if rc \<noteq> 0
         then etharp_raw buf (vd_port (v_dev vs dev)) haddr ethbroadcast haddr (ipv4 lip') ethzero ipaddr ARP_REQUEST
         else etharp_raw buf (vd_port (v_dev vs dev)) haddr ethbroadcast haddr 0 ethzero ipaddr ARP_REQUEST)
     }"

text \<open>
  arp_search and ndp_search: when nothing is found and a device was given, a request goes out.
  eth_nh_request of al_icmp.c is an argument of ndp_search; it gives the list of what it sends.
\<close>

definition arp_search ::
  "bool \<Rightarrow> ipcs_t \<Rightarrow> u32 \<Rightarrow> nat option \<Rightarrow> vport_state \<Rightarrow> arp_state \<Rightarrow>
   (int \<times> u48 option \<times> (u8 \<times> u8 list) list) option" where
  "arp_search buf lip addr dev vs st =
     do {
       (rc, haddr) \<leftarrow> arp_find addr st;
       (if rc = -1 then
          (case dev of
             None \<Rightarrow> Some (rc, haddr, [])
           | Some d \<Rightarrow> do { (r, out) \<leftarrow> etharp_request buf lip d addr vs; Some (rc, haddr, out) })
        else Some (rc, haddr, []))
     }"

definition ndp_search ::
  "(nat \<Rightarrow> u128 \<Rightarrow> 'e list option) \<Rightarrow> u128 \<Rightarrow> nat option \<Rightarrow> arp_state \<Rightarrow> (int \<times> u48 option \<times> 'e list) option" where
  "ndp_search eth_nh_request addr dev st =
     do {
       (rc, haddr) \<leftarrow> ndp_find addr st;
       out \<leftarrow> (if rc = -1 then (case dev of None \<Rightarrow> Some [] | Some d \<Rightarrow> eth_nh_request d addr) else Some []);
       Some (rc, haddr, out)
     }"

section \<open>The tables as maps\<close>

text \<open>
  \<open>arp_view st m\<close>: the lists of the state are well formed, and \<open>m\<close> gives for every IPv4 or IPv6
  address the port and hardware address recorded for it.
\<close>

definition arp_key :: "arp_t \<Rightarrow> u32" where "arp_key e = ipv4 (ar_ipaddr e)"
definition ndp_key :: "arp_t \<Rightarrow> u128" where "ndp_key e = ar_ipaddr e"
definition abkt :: "u32 \<Rightarrow> addr" where "abkt k = arp_table (ARP_KEY k)"
definition nbkt :: "u128 \<Rightarrow> addr" where "nbkt k = ndp_table (NDP_KEY k)"

definition arp_rep :: "arp_state \<Rightarrow> (addr \<Rightarrow> addr list) \<Rightarrow> bool" where
  "arp_rep st L \<longleftrightarrow>
     keyed_rep heap_is arp_key abkt (ar_lists st) (ar_obj st) L \<and>
     keyed_rep heap_is ndp_key nbkt (ar_lists st) (ar_obj st) L"

definition arp_top :: "arp_state \<Rightarrow> (addr \<Rightarrow> addr list) \<Rightarrow> u32 + u128 \<Rightarrow> addr option" where
  "arp_top st L = case_sum (chain_map arp_key abkt (ar_obj st) L) (chain_map ndp_key nbkt (ar_obj st) L)"

definition arp_val :: "arp_t \<Rightarrow> u16 \<times> u48" where
  "arp_val e = (ar_portid e, ar_haddr e)"

definition arp_view :: "arp_state \<Rightarrow> (u32 + u128 \<rightharpoonup> u16 \<times> u48) \<Rightarrow> bool" where
  "arp_view st m \<longleftrightarrow>
     (\<exists>L. arp_rep st L \<and> m = (\<lambda>k. map_option (\<lambda>a. arp_val (ar_obj st a)) (arp_top st L k)))"

abbreviation arp_fresh :: "addr \<Rightarrow> arp_state \<Rightarrow> bool" where
  "arp_fresh a st \<equiv> unlinked a (ar_lists st)"

lemma hash_size_arp [simp]: "HASHSIZE ARP_TABLE_COUNTER = 2048"
proof -
  have "HASHSIZE (2 ^ 11) = 2 ^ 11" by (rule HASHSIZE_pow2)
  then show ?thesis by (simp add: ARP_TABLE_COUNTER_def)
qed

lemma arp_buckets: "abkt k < 2048" "2048 \<le> nbkt j" "nbkt j < 4096" "nbkt j \<notin> range abkt" "abkt k \<notin> range nbkt"
proof -
  have m: "arp_mask = mask 11" by (simp add: arp_mask_def mask_eq_exp_minus_1)
  have "ucast (x AND ucast (mask 11 :: u16)) = ucast x AND (mask 11 :: u16)" for x :: u32
    by (rule bit_word_eqI) (auto simp: bit_simps)
  then have lt: "unat (ucast (x AND ucast arp_mask) :: u16) < 2048" for x :: u32
    using unat_and_mask_less [of "ucast x :: u16" 11] by (simp add: m)
  have a: "abkt k < 2048" and n: "2048 \<le> nbkt j" "nbkt j < 4096" for k j
    using lt by (simp_all add: abkt_def nbkt_def arp_table_def ndp_table_def ARP_KEY_def NDP_KEY_def)
  show "abkt k < 2048" "2048 \<le> nbkt j" "nbkt j < 4096" by (rule a, rule n(1), rule n(2))
  have "nbkt j \<noteq> abkt k" for j k using a [of k] n(1) [of j] by linarith
  then show "nbkt j \<notin> range abkt" "abkt k \<notin> range nbkt" by (metis imageE)+
qed

lemma abkt_nbkt [simp]: "abkt k \<noteq> nbkt j" "nbkt j \<noteq> abkt k"
  using arp_buckets(1) [of k] arp_buckets(2) [of j] by linarith+

lemma arp_rep_heap: "arp_rep st L \<Longrightarrow> heap_is (ar_lists st) L"
  by (simp add: arp_rep_def keyed_rep_def)

lemma arp_find_top:
  assumes "arp_rep st L"
  shows "hlist_find (\<lambda>pos. k = ipv4 (ar_ipaddr (ar_obj st pos))) (ar_lists st) (heads (ar_lists st) (arp_table (ARP_KEY k)))
      = Some (arp_top st L (Inl k))"
    and "hlist_find (\<lambda>pos. j = ar_ipaddr (ar_obj st pos)) (ar_lists st) (heads (ar_lists st) (ndp_table (NDP_KEY j)))
      = Some (arp_top st L (Inr j))"
proof -
  have "(\<lambda>pos. k = ipv4 (ar_ipaddr (ar_obj st pos))) = (\<lambda>pos. arp_key (ar_obj st pos) = k)"
    "(\<lambda>pos. j = ar_ipaddr (ar_obj st pos)) = (\<lambda>pos. ndp_key (ar_obj st pos) = j)"
    by (auto simp: arp_key_def ndp_key_def)
  then show "hlist_find (\<lambda>pos. k = ipv4 (ar_ipaddr (ar_obj st pos))) (ar_lists st) (heads (ar_lists st) (arp_table (ARP_KEY k)))
      = Some (arp_top st L (Inl k))"
    "hlist_find (\<lambda>pos. j = ar_ipaddr (ar_obj st pos)) (ar_lists st) (heads (ar_lists st) (ndp_table (NDP_KEY j)))
      = Some (arp_top st L (Inr j))"
    using assms hl.keyed_find [of arp_key abkt] hl.keyed_find [of ndp_key nbkt]
    by (simp_all add: arp_rep_def arp_top_def abkt_def nbkt_def)
qed

lemma arp_find_view:
  assumes "arp_view st m"
  shows "arp_find k st = Some (case m (Inl k) of None \<Rightarrow> (-1, None) | Some (p, h) \<Rightarrow> (uint p, Some h))"
    and "ndp_find j st = Some (case m (Inr j) of None \<Rightarrow> (-1, None) | Some (p, h) \<Rightarrow> (uint p, Some h))"
proof -
  from assms obtain L where L: "arp_rep st L" and m: "m = (\<lambda>k. map_option (\<lambda>a. arp_val (ar_obj st a)) (arp_top st L k))"
    by (auto simp: arp_view_def)
  show "arp_find k st = Some (case m (Inl k) of None \<Rightarrow> (-1, None) | Some (p, h) \<Rightarrow> (uint p, Some h))"
    "ndp_find j st = Some (case m (Inr j) of None \<Rightarrow> (-1, None) | Some (p, h) \<Rightarrow> (uint p, Some h))"
    by (auto simp: arp_find_def ndp_find_def arp_find_top [OF L] m arp_val_def split: option.splits)
qed

lemma arp_top_in:
  assumes "arp_top st L k = Some a"
  shows "a \<in> set (L (case_sum abkt nbkt k))" "case_sum (\<lambda>x. arp_key (ar_obj st a) = x) (\<lambda>x. ndp_key (ar_obj st a) = x) k"
  using assms by (cases k; auto simp: arp_top_def dest!: chain_map_SomeD)+

text \<open>Overwriting the value of an entry that is found changes the map at its key only.\<close>

lemma arp_update:
  assumes L: "arp_rep st L" and m: "m = (\<lambda>k. map_option (\<lambda>a. arp_val (ar_obj st a)) (arp_top st L k))"
    and a: "arp_top st L k = Some a" and e: "ar_ipaddr e = ar_ipaddr (ar_obj st a)"
  shows "arp_view (st\<lparr>ar_obj := (ar_obj st)(a := e)\<rparr>) (m(k \<mapsto> arp_val e))"
proof -
  let ?st = "st\<lparr>ar_obj := (ar_obj st)(a := e)\<rparr>"
  have key: "arp_key e = arp_key (ar_obj st a)" "ndp_key e = ndp_key (ar_obj st a)"
    using e by (simp_all add: arp_key_def ndp_key_def)
  have rep: "arp_rep ?st L" using L key by (simp add: arp_rep_def keyed_rep_same_key)
  have top: "arp_top ?st L = arp_top st L"
    using key by (simp add: arp_top_def chain_map_def chain_stack_same_key fun_eq_iff split: sum.splits)
  have other: "arp_top st L j \<noteq> Some a" if "j \<noteq> k" for j
  proof
    assume j: "arp_top st L j = Some a"
    have "case_sum abkt nbkt j = case_sum abkt nbkt k"
      using heap_is_disjoint [OF arp_rep_heap [OF L]] arp_top_in(1) [OF a] arp_top_in(1) [OF j] by blast
    then have "isl j = isl k" by (cases j; cases k) auto
    then show False using arp_top_in(2) [OF a] arp_top_in(2) [OF j] that by (cases j; cases k) auto
  qed
  have "(m(k \<mapsto> arp_val e)) j = map_option (\<lambda>a. arp_val (ar_obj ?st a)) (arp_top ?st L j)" for j
    using a other [of j] unfolding top m by (cases "arp_top st L j") auto
  then show ?thesis unfolding arp_view_def using rep by blast
qed

text \<open>Adding an entry for a key that is not there.\<close>

lemma arp_insert:
  fixes k :: "u32 + u128"
  assumes L: "arp_rep st L" and m: "m = (\<lambda>k. map_option (\<lambda>a. arp_val (ar_obj st a)) (arp_top st L k))"
    and a: "arp_fresh a st" and e: "case_sum (\<lambda>x. arp_key e = x) (\<lambda>x. ndp_key e = x) k"
  shows "arp_view (st\<lparr>ar_lists := hlist_add_head a (case_sum abkt nbkt k) (ar_lists st), ar_obj := (ar_obj st)(a := e)\<rparr>)
    (m(k \<mapsto> arp_val e))"
proof -
  let ?b = "case_sum abkt nbkt k"
  let ?st = "st\<lparr>ar_lists := hlist_add_head a ?b (ar_lists st), ar_obj := (ar_obj st)(a := e)\<rparr>"
  let ?L = "L(?b := a # L ?b)"
  have fresh: "chain_fresh a L" using a unlinked_iff [OF arp_rep_heap [OF L]] by simp
  note k4 = hl.keyed_add [of arp_key abkt "ar_lists st" "ar_obj st" L a e]
    and k6 = hl.keyed_add [of ndp_key nbkt "ar_lists st" "ar_obj st" L a e]
    and o4 = hl.keyed_add_other [of arp_key abkt "ar_lists st" "ar_obj st" L a ?b e]
    and o6 = hl.keyed_add_other [of ndp_key nbkt "ar_lists st" "ar_obj st" L a ?b e]
  have rep: "arp_rep ?st ?L"
    using k4 k6 o4 o6 L fresh e arp_buckets(4,5) by (cases k) (simp_all add: arp_rep_def)
  have top: "arp_top ?st ?L = (arp_top st L)(k \<mapsto> a)"
  proof (cases k)
    case (Inl x)
    then have "chain_map arp_key abkt (ar_obj ?st) ?L = (chain_map arp_key abkt (ar_obj st) L)(x \<mapsto> a)"
      using chain_stack_add [OF fresh, of arp_key abkt "ar_obj st" e] e by (auto simp: chain_map_def fun_eq_iff)
    moreover have "chain_map ndp_key nbkt (ar_obj ?st) ?L = chain_map ndp_key nbkt (ar_obj st) L"
      using Inl arp_buckets(5) by (simp add: chain_map_def [abs_def] chain_stack_other chain_stack_obj_upd [OF fresh])
    ultimately show ?thesis using Inl by (simp only: arp_top_def case_sum_upd)
  next
    case (Inr x)
    then have "chain_map ndp_key nbkt (ar_obj ?st) ?L = (chain_map ndp_key nbkt (ar_obj st) L)(x \<mapsto> a)"
      using chain_stack_add [OF fresh, of ndp_key nbkt "ar_obj st" e] e by (auto simp: chain_map_def fun_eq_iff)
    moreover have "chain_map arp_key abkt (ar_obj ?st) ?L = chain_map arp_key abkt (ar_obj st) L"
      using Inr arp_buckets(4) by (simp add: chain_map_def [abs_def] chain_stack_other chain_stack_obj_upd [OF fresh])
    ultimately show ?thesis using Inr by (simp only: arp_top_def case_sum_upd)
  qed
  have "arp_top st L j \<noteq> Some a" for j
    using fresh arp_top_in(1) [of st L j a] by (auto simp: chain_fresh_def)
  then have "(m(k \<mapsto> arp_val e)) j = map_option (\<lambda>a. arp_val (ar_obj ?st a)) (arp_top ?st ?L j)" for j
    unfolding top m by (cases "arp_top st L j") auto
  then show ?thesis unfolding arp_view_def using rep by blast
qed

lemma arp_add_entry_view:
  assumes "arp_view st m" "arp_fresh a st"
  shows "\<exists>st'. arp_add_entry (Some a) ip haddr portid st = Some (1, st') \<and> arp_view st' (m(Inl ip \<mapsto> (portid, haddr)))"
proof -
  from assms(1) obtain L where L: "arp_rep st L" and m: "m = (\<lambda>k. map_option (\<lambda>a. arp_val (ar_obj st a)) (arp_top st L k))"
    by (auto simp: arp_view_def)
  show ?thesis
  proof (cases "arp_top st L (Inl ip)")
    case None
    let ?e = "(ar_obj st a)\<lparr>ar_ipaddr := set_ipv4 ip (ar_ipaddr (ar_obj st a)), ar_haddr := haddr, ar_portid := portid, ar_iptype := AF_INET\<rparr>"
    show ?thesis
      using None arp_insert [OF L m assms(2), of ?e "Inl ip"]
      by (simp add: arp_add_entry_def arp_find_top [OF L] arp_key_def abkt_def arp_val_def Let_def)
  next
    case (Some b)
    show ?thesis
      using Some arp_update [OF L m Some, of "(ar_obj st b)\<lparr>ar_portid := portid, ar_haddr := haddr\<rparr>"]
      by (simp add: arp_add_entry_def arp_find_top [OF L] arp_val_def)
  qed
qed

lemma ndp_add_entry_view:
  assumes "arp_view st m" "arp_fresh a st"
  shows "\<exists>st'. ndp_add_entry (Some a) ip haddr portid st = Some (1, st') \<and> arp_view st' (m(Inr ip \<mapsto> (portid, haddr)))"
proof -
  from assms(1) obtain L where L: "arp_rep st L" and m: "m = (\<lambda>k. map_option (\<lambda>a. arp_val (ar_obj st a)) (arp_top st L k))"
    by (auto simp: arp_view_def)
  show ?thesis
  proof (cases "arp_top st L (Inr ip)")
    case None
    let ?e = "(ar_obj st a)\<lparr>ar_ipaddr := ip, ar_haddr := haddr, ar_portid := portid, ar_iptype := AF_INET\<rparr>"
    show ?thesis
      using None arp_insert [OF L m assms(2), of ?e "Inr ip"]
      by (simp add: ndp_add_entry_def arp_find_top [OF L] ndp_key_def nbkt_def arp_val_def Let_def)
  next
    case (Some b)
    show ?thesis
      using Some arp_update [OF L m Some, of "(ar_obj st b)\<lparr>ar_portid := portid, ar_haddr := haddr\<rparr>"]
      by (simp add: ndp_add_entry_def arp_find_top [OF L] arp_val_def)
  qed
qed

text \<open>The neighbour tables keep the contract of a keyed table.\<close>

fun arp_lookup :: "arp_state \<Rightarrow> u32 + u128 \<Rightarrow> (u16 \<times> u48) option option" where
  "arp_lookup st (Inl ip) = map_option (\<lambda>(rc, h). map_option (Pair (word_of_int rc)) h) (arp_find ip st)"
| "arp_lookup st (Inr ip) = map_option (\<lambda>(rc, h). map_option (Pair (word_of_int rc)) h) (ndp_find ip st)"

fun arp_store :: "addr \<Rightarrow> u32 + u128 \<Rightarrow> u16 \<times> u48 \<Rightarrow> arp_state \<Rightarrow> arp_state option" where
  "arp_store a (Inl ip) (p, h) st = map_option snd (arp_add_entry (Some a) ip h p st)"
| "arp_store a (Inr ip) (p, h) st = map_option snd (ndp_add_entry (Some a) ip h p st)"

interpretation neigh: keyed_table arp_view arp_fresh arp_lookup arp_store
proof
  fix st m and k :: "u32 + u128" and a :: addr and v :: "u16 \<times> u48"
  assume m: "arp_view st m"
  show "arp_lookup st k = Some (m k)"
    by (cases k) (auto simp: arp_find_view [OF m] split: option.splits prod.splits)
  assume a: "arp_fresh a st"
  obtain p h where v: "v = (p, h)" by (cases v)
  show "\<exists>st'. arp_store a k v st = Some st' \<and> arp_view st' (m(k \<mapsto> v))"
  proof (cases k)
    case (Inl ip)
    then show ?thesis using arp_add_entry_view [OF m a, of ip h p] v by auto
  next
    case (Inr ip)
    then show ?thesis using ndp_add_entry_view [OF m a, of ip h p] v by auto
  qed
qed

section \<open>Frames: reading back what was written\<close>

lemma etharp_raw_fields:
  assumes "etharp_raw True port es ed hs ips hwd ipd opc = (0, [(port, p)])"
  shows "length p = 42" "field p 14 2 = bswap16 HWTYPE_ETHERNET" "field p 16 2 = bswap16 ETHTYPE_IP"
    "field p 18 1 = (6 :: u8)" "field p 19 1 = (4 :: u8)" "field p 22 6 = hs" "field p 28 4 = ips" "field p 38 4 = ipd"
proof -
  define A where "A = bytes_of 6 ed @ bytes_of 6 es @ bytes_of 2 (bswap16 ETHTYPE_ARP)"
  define ht where "ht = bytes_of 2 (bswap16 HWTYPE_ETHERNET)"
  define pr where "pr = bytes_of 2 (bswap16 ETHTYPE_IP)"
  define oc where "oc = bytes_of 2 (bswap16 opc)"
  note defs = A_def ht_def pr_def oc_def
  have p: "p = A @ ht @ pr @ [6] @ [4] @ oc @ bytes_of 6 hs @ bytes_of 4 ips @ bytes_of 6 hwd @ bytes_of 4 ipd"
    using assms by (simp add: etharp_raw_def defs ETHARP_HWADDR_LEN_def)
  have len: "length A = 14" "length ht = 2" "length pr = 2" "length oc = 2" by (simp_all add: defs)
  have wpr: "word_of pr = bswap16 ETHTYPE_IP" by (simp add: pr_def)
  show "length p = 42" by (simp add: p len)
  show "field p 14 2 = bswap16 HWTYPE_ETHERNET"
    unfolding p by (subst field_append) (simp_all add: len, simp add: ht_def)
  show "field p 16 2 = bswap16 ETHTYPE_IP"
    using field_append [where 'a = 16, of "A @ ht" 16 pr 2] wpr unfolding p by (simp add: len)
  show "field p 18 1 = (6 :: u8)" using field_append [where 'a = 8, of "A @ ht @ pr" 18 "[6]" 1] unfolding p by (simp add: len)
  show "field p 19 1 = (4 :: u8)" using field_append [where 'a = 8, of "A @ ht @ pr @ [6]" 19 "[4]" 1] unfolding p by (simp add: len)
  show "field p 22 6 = hs" using field_append [where 'a = 48, of "A @ ht @ pr @ [6] @ [4] @ oc" 22 "bytes_of 6 hs" 6] unfolding p by (simp add: len)
  show "field p 28 4 = ips" using field_append [where 'a = 32, of "A @ ht @ pr @ [6] @ [4] @ oc @ bytes_of 6 hs" 28 "bytes_of 4 ips" 4]
    unfolding p by (simp add: len)
  show "field p 38 4 = ipd"
    using field_append [where 'a = 32, of "A @ ht @ pr @ [6] @ [4] @ oc @ bytes_of 6 hs @ bytes_of 4 ips @ bytes_of 6 hwd" 38 "bytes_of 4 ipd" 4 "[]"]
    unfolding p by (simp add: len)
qed

lemma al_arp_input_raw:
  assumes "etharp_raw True pt es ed hs ips hwd ipd opc = (0, [(pt, p)])" "unat port < MAX_ETHER_COUTER"
    "heap_is (v_lists vs) L"
  defines "own \<equiv> \<exists>a \<in> set (L (vp AF_INET (unat port))). ipv4 (i_ip (v_ip vs a)) = ips"
  shows "al_arp_input got port p vs st =
    (if own then Some (0, st) else etharp_update_arp_entry got (ucast port) ips hs st)"
proof -
  note f = etharp_raw_fields [OF assms(1)]
  have "ipv4 (ucast ips) = ips" by (simp add: ipv4_def) (rule bit_word_eqI, auto simp: bit_simps)
  then have has: "vport_has_ip (unat port) (ucast ips) AF_INET vs = Some (if own then 1 else 0)"
    by (simp add: vport_has_ip_list [OF assms(3)] same_addr_def own_def)
  show ?thesis
    using f has assms(2) by (simp add: al_arp_input_def SIZEOF_ETHARP_PACKET_def SIZEOF_ETH_HDR_def ETHARP_HWADDR_LEN_def
        vport_get_def Let_def)
qed

section \<open>Properties\<close>

text \<open>
  Arp_add_entry records the port and hardware address of an IPv4 address: a search for the
  address finds them, whether the address was known before or not, and the answers for every
  other IPv4 address and for every IPv6 address stay the same.
\<close>

theorem arp_add_then_search:
  assumes "arp_view st m" and "arp_fresh a st"
  shows "\<exists>st'. arp_add_entry (Some a) ip haddr portid st = Some (1, st') \<and>
    arp_find ip st' = Some (uint portid, Some haddr) \<and>
    (\<forall>k. k \<noteq> ip \<longrightarrow> arp_find k st' = arp_find k st) \<and> (\<forall>j. ndp_find j st' = ndp_find j st) \<and>
    (\<exists>m'. arp_view st' m')"
proof -
  obtain st' where st': "arp_add_entry (Some a) ip haddr portid st = Some (1, st')"
    "arp_view st' (m(Inl ip \<mapsto> (portid, haddr)))"
    using arp_add_entry_view [OF assms] by blast
  show ?thesis
    using st' by (intro exI [of _ st']) (auto simp: arp_find_view [OF st'(2)] arp_find_view [OF assms(1)])
qed

definition empty_arp :: arp_state where
  "empty_arp = \<lparr>ar_lists = \<lparr>heads = \<lambda>_. None, nodes = \<lambda>_. \<lparr>nxt = None, pprev = None\<rparr>\<rparr>,
     ar_obj = \<lambda>_. \<lparr>ar_haddr = 0, ar_ipaddr = 0, ar_ttl = 0, ar_portid = 0, ar_iptype = 0\<rparr>\<rparr>"

lemma empty_arp_view: "arp_view empty_arp (\<lambda>_. None)" "arp_fresh a empty_arp"
proof -
  have h: "heap_is (ar_lists empty_arp) (\<lambda>_. [])" by (simp add: empty_arp_def heap_is_empty)
  then have "arp_rep empty_arp (\<lambda>_. [])" by (simp add: arp_rep_def keyed_rep_def)
  moreover have "arp_top empty_arp (\<lambda>_. []) k = None" for k
    by (cases k) (simp_all add: arp_top_def chain_map_def chain_stack_def)
  ultimately show "arp_view empty_arp (\<lambda>_. None)" unfolding arp_view_def by auto
  show "arp_fresh a empty_arp" using unlinked_iff [OF h] by (simp add: chain_fresh_def)
qed

theorem arp_add_then_search_witness:
  "\<exists>st'. arp_add_entry (Some 5) 0x0A000001 0xAABBCCDDEEFF 2 empty_arp = Some (1, st') \<and>
     arp_find 0x0A000001 st' = Some (2, Some 0xAABBCCDDEEFF) \<and> arp_find 7 st' = Some (-1, None)"
proof -
  have "arp_find 7 empty_arp = Some (-1, None)" by (simp add: arp_find_view [OF empty_arp_view(1)])
  with arp_add_then_search [OF empty_arp_view(1) empty_arp_view(2), of 5 "0x0A000001" "0xAABBCCDDEEFF" 2]
  show ?thesis by auto
qed

text \<open>
  C12: an ARP frame built by etharp_raw is understood by al_arp_input. A host that does not own
  the sender's address, which is not 0, accepts the frame and afterwards finds the sender's hardware address,
  on the port the frame came in on; its answers for other addresses are unchanged.
\<close>

theorem arp_frame_learned:
  assumes "arp_view st m" and "arp_fresh a st" and "heap_is (v_lists vs) L" and "unat port < MAX_ETHER_COUTER"
    and "ips \<noteq> 0" and "\<And>s. s \<in> set (L (vp AF_INET (unat port))) \<Longrightarrow> ipv4 (i_ip (v_ip vs s)) \<noteq> ips"
  shows "\<exists>p st'. etharp_raw True pt es ed hs ips hwd ipd opc = (0, [(pt, p)]) \<and>
    al_arp_input (Some a) port p vs st = Some (0, st') \<and>
    arp_find ips st' = Some (uint port, Some hs) \<and>
    (\<forall>k. k \<noteq> ips \<longrightarrow> arp_find k st' = arp_find k st)"
proof -
  obtain p where p: "etharp_raw True pt es ed hs ips hwd ipd opc = (0, [(pt, p)])"
    by (simp add: etharp_raw_def)
  obtain st' where st': "arp_add_entry (Some a) ips hs (ucast port) st = Some (1, st')"
    "arp_view st' (m(Inl ips \<mapsto> (ucast port, hs)))"
    using arp_add_entry_view [OF assms(1,2)] by blast
  have "\<not> (\<exists>s \<in> set (L (vp AF_INET (unat port))). ipv4 (i_ip (v_ip vs s)) = ips)" using assms(6) by blast
  then have "al_arp_input (Some a) port p vs st = Some (0, st')"
    using al_arp_input_raw [OF p assms(4,3), of "Some a" st] st'(1) assms(5)
    by (simp add: etharp_update_arp_entry_def)
  moreover have "uint (ucast port :: u16) = uint port" using uint_bounded [of port] by (simp add: unsigned_ucast_eq take_bit_int_eq_self_iff)
  ultimately show ?thesis
    using p by (intro exI [of _ p] exI [of _ st']) (simp add: arp_find_view [OF st'(2)] arp_find_view [OF assms(1)])
qed

theorem arp_frame_learned_witness:
  "\<exists>p st'. etharp_raw True 0 0xAABB ethbroadcast 0xAABB 0x0A000001 ethzero 0x0A000002 ARP_REQUEST = (0, [(0, p)]) \<and>
     al_arp_input (Some 5) 1 p empty_vports empty_arp = Some (0, st') \<and>
     arp_find 0x0A000001 st' = Some (1, Some 0xAABB)"
proof -
  have "unat (1 :: u8) < MAX_ETHER_COUTER" "(0x0A000001 :: u32) \<noteq> 0" by (simp_all add: MAX_ETHER_COUTER_def)
  from arp_frame_learned [OF empty_arp_view(1) empty_arp_view(2) empty_vports_heap(1) this, where a = 5 and pt = 0 and es = "0xAABB"
      and ed = ethbroadcast and hs = "0xAABB" and hwd = ethzero and ipd = "0x0A000002" and opc = ARP_REQUEST]
  show ?thesis by auto
qed

text \<open>
  C25: etharp_request uses the result of vport_select_local_ip the wrong way round. When the
  port has an address in the subnet of the target, the request goes out with sender address 0,
  and a host that receives it learns nothing from it.
\<close>

theorem arp_request_anonymous:
  assumes "heap_is (v_lists vs) L" and "\<exists>a \<in> set (L (vp AF_INET dev)). in_subnet vs AF_INET (set_ipv4 ip 0) a"
  shows "\<exists>p. etharp_request True lip dev ip vs = Some (0, [(vd_port (v_dev vs dev), p)]) \<and>
    field p 28 4 = (0 :: u32) \<and> field p 38 4 = ip \<and>
    (\<forall>got port rs R st. heap_is (v_lists rs) R \<and> unat port < MAX_ETHER_COUTER \<longrightarrow>
       al_arp_input got port p rs st = Some (0, st))"
proof -
  obtain lip' where sel: "vport_select_local_ip dev lip AF_INET (set_ipv4 ip 0) vs = Some (0, lip')"
  proof (cases "List.find (in_subnet vs AF_INET (set_ipv4 ip 0)) (L (vp AF_INET dev))")
    case None
    then show ?thesis using assms(2) by (auto simp: find_None_iff)
  next
    case (Some s)
    then show ?thesis using that select_local_ip_find [OF assms(1), of dev lip AF_INET "set_ipv4 ip 0"] by simp
  qed
  let ?h = "vd_haddr (v_dev vs dev)"
  obtain p where p: "etharp_raw True (vd_port (v_dev vs dev)) ?h ethbroadcast ?h 0 ethzero ip ARP_REQUEST
      = (0, [(vd_port (v_dev vs dev), p)])" by (simp add: etharp_raw_def)
  have "al_arp_input got port p rs st = Some (0, st)" if "heap_is (v_lists rs) R" "unat port < MAX_ETHER_COUTER" for got port rs R st
    using al_arp_input_raw [OF p that(2,1), of got st] by (simp add: etharp_update_arp_entry_def)
  moreover have "etharp_request True lip dev ip vs = Some (0, [(vd_port (v_dev vs dev), p)])"
    using sel p by (simp add: etharp_request_def Let_def)
  ultimately show ?thesis using etharp_raw_fields [OF p] by blast
qed
theorem arp_request_anonymous_witness:
  "\<exists>p. etharp_request True 0 1 0x0B000001 (snd (al_add_ip (\<lambda>_ _ _ _ _. 0) (Some 5) 0 9 1
       \<lparr>a_len = 0, a_af = AF_INET, a_addr = 0x0A000001\<rparr> \<lparr>a_len = 0, a_af = AF_INET, a_addr = 0x00FFFFFF\<rparr> 0 empty_vports))
       = Some (0, [(1, p)]) \<and> field p 28 4 = (0 :: u32)"
proof -
  let ?x = "\<lparr>a_len = 0, a_af = AF_INET, a_addr = 0x0A000001\<rparr>" and ?m = "\<lparr>a_len = 0, a_af = AF_INET, a_addr = 0x00FFFFFF\<rparr>"
  let ?st = "snd (al_add_ip (\<lambda>_ _ _ _ _. 0) (Some 5) 0 9 1 ?x ?m 0 empty_vports)"
  note add = al_add_ip_eq [OF empty_vports_id, of ?x "\<lambda>_ _ _ _ _. 0" 5 0 9 ?m 0]
  have h: "heap_is (v_lists ?st) ((\<lambda>_. [])(vp AF_INET 1 := [5]))"
    using add al_add_ip_heap(1) [OF empty_vports_heap(1) empty_vports_heap(2), of 5 "vp AF_INET 1"] by (simp add: Let_def)
  have "in_subnet ?st AF_INET (set_ipv4 0x0B000001 0) 5"
    using add by (simp add: Let_def in_subnet_def is_same_subnet_def new_ip_def) (simp add: ipv4_def)
  then have "\<exists>a \<in> set (((\<lambda>_. [])(vp AF_INET 1 := [5])) (vp AF_INET 1)). in_subnet ?st AF_INET (set_ipv4 0x0B000001 0) a"
    by simp
  from arp_request_anonymous [OF h this, of 0] add show ?thesis
    by (auto simp: Let_def empty_vports_def)
qed

text \<open>
  al_arp_input answers -1 and changes nothing for a frame that is shorter than an ARP packet
  or whose hardware type, address lengths or protocol type are not those of IPv4 over Ethernet.
\<close>

theorem arp_input_rejects:
  assumes "length p < 42 \<or> field p 14 2 \<noteq> bswap16 1 \<or> field p 16 2 \<noteq> bswap16 0x0800 \<or>
    field p 18 1 \<noteq> (6 :: u8) \<or> field p 19 1 \<noteq> (4 :: u8)"
  shows "al_arp_input got port p vs st = Some (-1, st)"
  using assms by (auto simp: al_arp_input_def SIZEOF_ETHARP_PACKET_def SIZEOF_ETH_HDR_def ETHARP_HWADDR_LEN_def
      HWTYPE_ETHERNET_def ETHTYPE_IP_def)

theorem arp_input_rejects_witness:
  "al_arp_input (Some 5) 200 (replicate 42 0) empty_vports empty_arp = Some (-1, empty_arp)"
proof -
  have "field (replicate 42 0) 18 1 \<noteq> (6 :: u8)" by (simp add: field_def)
  then show ?thesis using arp_input_rejects [of "replicate 42 0" "Some 5" 200 empty_vports empty_arp] by blast
qed

end
