(* ===== verification/Member.thy ===== *)
theory Member
  imports Hlist Ip_Addr
begin

text \<open>
  al_member.c and al_member.h, the members of a balancing group: how members are stored in
  clusters of eight, added and removed, and how the scheduling functions pick one. A group's
  first cluster is part of its record, the others are chained to it. \<open>member_state\<close> holds the
  list heap (list head \<open>c\<close> is the chain of group record \<open>c\<close>), the first clusters by group record
  and the chained clusters by node. A pointer to a member is \<open>mref\<close>: the node of its cluster
  (\<open>None\<close>: the first one) and its index. Reading \<open>m[j]\<close> with \<open>j\<close> past the eighth member is
  undefined, \<open>None\<close>.
\<close>

section \<open>State\<close>

definition MEMBER_CLUSTER_SIZE :: nat where "MEMBER_CLUSTER_SIZE = 8"

record al_member =
  m_is_used :: bool
  m_is_up :: bool
  m_port :: u16
  m_weight :: u16
  m_current_weight :: u16
  m_effective_weight :: u16
  m_mid :: u32
  m_vid :: u32
  m_ttl :: u32
  m_type :: u8
  m_addr :: al_addr_t

record al_member_chain =
  c_cnt :: u16
  c_m :: "al_member list"

record al_member_conf =
  mc_weight :: u16
  mc_port :: u16
  mc_mid :: u32
  mc_addr :: al_addr_t

record member_state =
  ms_lists :: hheap
  ms_first :: "addr \<Rightarrow> al_member_chain"
  ms_node :: "addr \<Rightarrow> al_member_chain"
  ms_alloc :: "addr set"

type_synonym mref = "addr option \<times> nat"

definition cluster :: "addr \<Rightarrow> member_state \<Rightarrow> addr option \<Rightarrow> al_member_chain" where
  "cluster c st r = (case r of None \<Rightarrow> ms_first st c | Some a \<Rightarrow> ms_node st a)"

definition set_cluster :: "addr \<Rightarrow> addr option \<Rightarrow> al_member_chain \<Rightarrow> member_state \<Rightarrow> member_state" where
  "set_cluster c r x st =
     (case r of None \<Rightarrow> st\<lparr>ms_first := (ms_first st)(c := x)\<rparr> | Some a \<Rightarrow> st\<lparr>ms_node := (ms_node st)(a := x)\<rparr>)"

section \<open>Adding and removing members\<close>

text \<open>
  al_set_member looks at the address family the member had before, not at the one it gets: an
  old IPv4 member takes over only the first six bytes of the address record (length, family,
  four bytes of address).
\<close>

definition copy_addr4 :: "al_addr_t \<Rightarrow> al_addr_t \<Rightarrow> al_addr_t" where
  "copy_addr4 src dst = \<lparr>a_len = a_len src, a_af = a_af src, a_addr = set_ipv4 (ipv4 (a_addr src)) (a_addr dst)\<rparr>"

definition al_set_member :: "al_member_conf \<Rightarrow> al_member \<Rightarrow> al_member" where
  "al_set_member conf m =
     m\<lparr>m_port := bswap16 (mc_port conf), m_mid := mc_mid conf, m_weight := mc_weight conf,
       m_current_weight := 0, m_effective_weight := mc_weight conf, m_is_up := True,
       m_addr := (if a_af (m_addr m) = AF_INET then copy_addr4 (mc_addr conf) (m_addr m) else mc_addr conf)\<rparr>"

text \<open>The loop that takes the first unused member of a cluster.\<close>

fun take_slot :: "al_member_conf \<Rightarrow> al_member list \<Rightarrow> al_member list option" where
  "take_slot conf [] = None"
| "take_slot conf (m # ms) =
     (if \<not> m_is_used m then Some ((al_set_member conf m)\<lparr>m_is_used := True\<rparr> # ms)
      else map_option ((#) m) (take_slot conf ms))"

definition INIT_MC :: "al_member list \<Rightarrow> al_member list" where
  "INIT_MC ms = map (\<lambda>m. m\<lparr>m_is_used := False\<rparr>) ms"

definition al_member_insert :: "addr option \<Rightarrow> addr \<Rightarrow> al_member_conf \<Rightarrow> member_state \<Rightarrow> (int \<times> member_state) option" where
  "al_member_insert got c conf st =
     (let first = ms_first st c
      in case take_slot conf (c_m first) of
           Some ms \<Rightarrow> Some (0, set_cluster c None \<lparr>c_cnt = c_cnt first + 1, c_m = ms\<rparr> st)
         | None \<Rightarrow>
             do {
               found \<leftarrow> hlist_find (\<lambda>a. take_slot conf (c_m (ms_node st a)) \<noteq> None) (ms_lists st) (heads (ms_lists st) c);
               case found of
                 Some a \<Rightarrow>
                   Some (0, set_cluster c (Some a)
                     \<lparr>c_cnt = c_cnt (ms_node st a) + 1, c_m = the (take_slot conf (c_m (ms_node st a)))\<rparr> st)
               | None \<Rightarrow>
                   (case got of
                      None \<Rightarrow> Some (-1, st)
                    | Some a \<Rightarrow>
                        let ms = INIT_MC (c_m (ms_node st a));
                            ms' = ms[0 := (al_set_member conf (ms ! 0))\<lparr>m_is_used := True\<rparr>]
                        in Some (0, set_cluster c (Some a) \<lparr>c_cnt = 1, c_m = ms'\<rparr>
                             (st\<lparr>ms_lists := hlist_add_head a c (ms_lists st), ms_alloc := insert a (ms_alloc st)\<rparr>)))
             })"

text \<open>
  al_free of a chained cluster. \<open>ms_alloc\<close> are the clusters that are allocated; to free anything else
  is undefined. The memory keeps what is in it.
\<close>

definition al_free :: "addr \<Rightarrow> member_state \<Rightarrow> member_state option" where
  "al_free a st = (if a \<in> ms_alloc st then Some (st\<lparr>ms_alloc := ms_alloc st - {a}\<rparr>) else None)"

text \<open>
  al_member_del. \<open>del_loop mid ms k s\<close> scans the members \<open>ms\<close> from index \<open>j\<close> on with
  \<open>k = cnt - i\<close> used members still to be seen. It returns the changed members when the id was
  found, and the flag \<open>s\<close>. The count of the cluster is not changed.
\<close>

fun del_loop :: "u32 \<Rightarrow> al_member list \<Rightarrow> nat \<Rightarrow> bool \<Rightarrow> (al_member list option \<times> bool) option" where
  "del_loop mid ms 0 s = Some (None, s)"
| "del_loop mid [] (Suc k) s = None"
| "del_loop mid (m # ms) (Suc k) s =
     (if m_is_used m
      then if m_mid m = mid then Some (Some (m\<lparr>m_is_used := False\<rparr> # ms), s)
           else map_option (apfst (map_option ((#) m))) (del_loop mid ms k True)
      else map_option (apfst (map_option ((#) m))) (del_loop mid ms (Suc k) s))"

definition del_body :: "addr \<Rightarrow> u32 \<Rightarrow> addr \<Rightarrow> int option \<times> member_state \<Rightarrow> (int option \<times> member_state) option" where
  "del_body c mid mc rst =
     (case rst of
        (Some rc, st) \<Rightarrow> Some (Some rc, st)
      | (None, st) \<Rightarrow>
          do {
            (r, s) \<leftarrow> del_loop mid (c_m (ms_node st mc)) (unat (c_cnt (ms_node st mc))) False;
            case r of
              Some ms \<Rightarrow> Some (Some 0, set_cluster c (Some mc) ((ms_node st mc)\<lparr>c_m := ms\<rparr>) st)
            | None \<Rightarrow>
                if \<not> s then do { h \<leftarrow> hlist_del mc (ms_lists st); st \<leftarrow> al_free mc (st\<lparr>ms_lists := h\<rparr>); Some (None, st) }
                else Some (None, st)
          })"

definition al_member_del :: "addr \<Rightarrow> u32 \<Rightarrow> member_state \<Rightarrow> (int \<times> member_state) option" where
  "al_member_del c mid st =
     do {
       (r, s) \<leftarrow> del_loop mid (c_m (ms_first st c)) (unat (c_cnt (ms_first st c))) False;
       case r of
         Some ms \<Rightarrow> Some (0, set_cluster c None ((ms_first st c)\<lparr>c_m := ms\<rparr>) st)
       | None \<Rightarrow>
           do {
             (rc, st') \<leftarrow> hlist_for_each_safe (\<lambda>(rc, st). ms_lists st) (del_body c mid)
                            (heads (ms_lists st) c) (None, st);
             Some (case rc of Some v \<Rightarrow> v | None \<Rightarrow> -1, st')
           }
     }"

section \<open>Scheduling\<close>

text \<open>
  al_alg_rr, smooth weighted round robin. \<open>rr_loop r ms j k\<close> is the scan of one cluster, as in
  \<open>del_loop\<close>; it carries the total and the best member with its current weight, which does not
  change after the member was visited.
\<close>

type_synonym rr_acc = "u32 \<times> (mref \<times> u16) option"

definition rr_visit :: "mref \<Rightarrow> al_member \<Rightarrow> rr_acc \<Rightarrow> al_member \<times> rr_acc" where
  "rr_visit r m acc =
     (let (total, best) = acc;
          cw = m_current_weight m + m_effective_weight m;
          total = total + ucast (m_effective_weight m);
          ew = (if m_effective_weight m < m_weight m then m_effective_weight m + 1 else m_effective_weight m);
          best = (case best of
                    None \<Rightarrow> Some (r, cw)
                  | Some (b, bw) \<Rightarrow> if cw > bw then Some (r, cw) else Some (b, bw))
      in (m\<lparr>m_current_weight := cw, m_effective_weight := ew\<rparr>, (total, best)))"

fun rr_loop :: "addr option \<Rightarrow> al_member list \<Rightarrow> nat \<Rightarrow> nat \<Rightarrow> rr_acc \<Rightarrow> (al_member list \<times> rr_acc) option" where
  "rr_loop r ms j 0 acc = Some (ms, acc)"
| "rr_loop r [] j (Suc k) acc = None"
| "rr_loop r (m # ms) j (Suc k) acc =
     (if m_is_used m
      then if \<not> m_is_up m then map_option (apfst ((#) m)) (rr_loop r ms (j + 1) k acc)
           else let (m', acc') = rr_visit (r, j) m acc
                in map_option (apfst ((#) m')) (rr_loop r ms (j + 1) k acc')
      else map_option (apfst ((#) m)) (rr_loop r ms (j + 1) (Suc k) acc))"

definition rr_cluster :: "addr \<Rightarrow> addr option \<Rightarrow> rr_acc \<times> member_state \<Rightarrow> (rr_acc \<times> member_state) option" where
  "rr_cluster c r ast =
     (let (acc, st) = ast; x = cluster c st r
      in do {
           (ms, acc') \<leftarrow> rr_loop r (c_m x) 0 (unat (c_cnt x)) acc;
           Some (acc', set_cluster c r (x\<lparr>c_m := ms\<rparr>) st)
         })"

definition al_alg_rr :: "addr \<Rightarrow> member_state \<Rightarrow> (mref option \<times> member_state) option" where
  "al_alg_rr c st =
     do {
       (acc1, st1) \<leftarrow> rr_cluster c None ((0, None), st);
       ((total, best), st2) \<leftarrow>
         hlist_for_each_safe (\<lambda>(acc, st). ms_lists st) (\<lambda>mc. rr_cluster c (Some mc)) (heads (ms_lists st1) c) (acc1, st1);
       case best of
         None \<Rightarrow> Some (None, st2)
       | Some ((r, j), w) \<Rightarrow>
           let x = cluster c st2 r; m = c_m x ! j
           in Some (Some (r, j), set_cluster c r
                (x\<lparr>c_m := (c_m x)[j := m\<lparr>m_current_weight := ucast (ucast (m_current_weight m) - total)\<rparr>]\<rparr>) st2)
     }"

definition al_alg_weight :: "addr \<Rightarrow> member_state \<Rightarrow> (mref option \<times> member_state) option" where
  "al_alg_weight c st = al_alg_rr c st"

definition al_alg_rr_weight :: "addr \<Rightarrow> member_state \<Rightarrow> (mref option \<times> member_state) option" where
  "al_alg_rr_weight c st = al_alg_rr c st"

text \<open>
  al_alg_geoip: the first member of the asked view, or else the first member that is up. The
  loops stop at \<open>goto END\<close>, the flag of \<open>geo_loop\<close>. For a member of type NS or CNAME the code
  reads \<open>ext\<close>, the bytes behind the member record, which belong to no member: \<open>None\<close>.
\<close>

record al_margs =
  ma_mid :: u32
  ma_addr :: al_addr_t
  ma_port :: u16
  ma_vid :: u32
  ma_ttl :: u32
  ma_query_type :: u8
  ma_data :: "u8 list"
  ma_data_len :: u8
  ma_schd :: u8

definition DNS_Q_A :: u8 where "DNS_Q_A = 0x01"
definition DNS_Q_NS :: u8 where "DNS_Q_NS = 0x02"
definition DNS_Q_CNAME :: u8 where "DNS_Q_CNAME = 0x05"
definition DNS_Q_AAAA :: u8 where "DNS_Q_AAAA = 0x1c"

fun geo_loop :: "u32 \<Rightarrow> addr option \<Rightarrow> al_member list \<Rightarrow> nat \<Rightarrow> nat \<Rightarrow> mref option \<Rightarrow> (mref option \<times> bool) option" where
  "geo_loop vid r ms j 0 best = Some (best, False)"
| "geo_loop vid r [] j (Suc k) best = None"
| "geo_loop vid r (m # ms) j (Suc k) best =
     (if m_is_used m
      then if \<not> m_is_up m then geo_loop vid r ms (j + 1) k best
           else if m_vid m = vid then Some (Some (r, j), True)
           else geo_loop vid r ms (j + 1) k (if best = None then Some (r, j) else best)
      else geo_loop vid r ms (j + 1) (Suc k) best)"

definition geo_body :: "u32 \<Rightarrow> member_state \<Rightarrow> addr \<Rightarrow> mref option \<times> bool \<Rightarrow> (mref option \<times> bool) option" where
  "geo_body vid st mc bs =
     (let (best, stop) = bs
      in if stop then Some (best, stop)
         else geo_loop vid (Some mc) (c_m (ms_node st mc)) 0 (unat (c_cnt (ms_node st mc))) best)"

definition geo_answer :: "al_member \<Rightarrow> al_margs \<Rightarrow> al_margs option" where
  "geo_answer m mptr =
     (let mptr = mptr\<lparr>ma_query_type := m_type m, ma_ttl := m_ttl m\<rparr>
      in if m_type m = DNS_Q_A
         then Some (mptr\<lparr>ma_data_len := 4, ma_data := bytes_of 4 (ipv4 (a_addr (m_addr m))) @ drop 4 (ma_data mptr)\<rparr>)
         else if m_type m = DNS_Q_AAAA
         then Some (mptr\<lparr>ma_data_len := 16, ma_data := bytes_of 16 (a_addr (m_addr m)) @ drop 16 (ma_data mptr)\<rparr>)
         else if m_type m = DNS_Q_NS \<or> m_type m = DNS_Q_CNAME then None
         else Some mptr)"

definition al_alg_geoip :: "addr \<Rightarrow> al_margs \<Rightarrow> member_state \<Rightarrow> (mref option \<times> al_margs) option" where
  "al_alg_geoip c mptr st =
     do {
       bs \<leftarrow> geo_loop (ma_vid mptr) None (c_m (ms_first st c)) 0 (unat (c_cnt (ms_first st c))) None;
       (best, stop) \<leftarrow>
         (if snd bs then Some bs
          else hlist_for_each_safe (\<lambda>_. ms_lists st) (geo_body (ma_vid mptr) st) (heads (ms_lists st) c) bs);
       case best of
         None \<Rightarrow> Some (None, mptr)
       | Some (r, j) \<Rightarrow> map_option (Pair (Some (r, j))) (geo_answer (c_m (cluster c st r) ! j) mptr)
     }"

section \<open>Well-formed groups\<close>

text \<open>
  \<open>mem_wf G st L\<close>, for the groups \<open>G\<close> there are: every cluster has eight members and its count is the
  number of used ones; \<open>L c\<close> are the chained clusters of group \<open>c\<close>, and exactly the clusters on these
  lists are allocated. What memory that is not in use holds does not matter. \<open>clusters\<close> are the clusters of a group in the
  order the code visits them, \<open>slots\<close> its members, and \<open>cands\<close> the ones that can be picked.
\<close>

definition used :: "al_member list \<Rightarrow> nat" where
  "used ms = length (filter m_is_used ms)"

definition cluster_wf :: "al_member_chain \<Rightarrow> bool" where
  "cluster_wf x \<longleftrightarrow> length (c_m x) = 8 \<and> unat (c_cnt x) = used (c_m x)"

definition mem_wf :: "addr set \<Rightarrow> member_state \<Rightarrow> (addr \<Rightarrow> addr list) \<Rightarrow> bool" where
  "mem_wf G st L \<longleftrightarrow> heap_is (live G (ms_lists st)) L \<and> (\<forall>a. a \<in> ms_alloc st \<longleftrightarrow> (\<exists>c. a \<in> set (L c))) \<and>
     (\<forall>c \<in> G. cluster_wf (ms_first st c) \<and> (\<forall>a \<in> set (L c). cluster_wf (ms_node st a))) \<and>
     (\<forall>c. c \<notin> G \<longrightarrow> L c = []) \<and> (\<forall>a. length (c_m (ms_node st a)) = 8) \<and> (\<forall>c. length (c_m (ms_first st c)) = 8)"

definition clusters :: "(addr \<Rightarrow> addr list) \<Rightarrow> addr \<Rightarrow> addr option list" where
  "clusters L c = None # map Some (L c)"

definition member_at :: "addr \<Rightarrow> member_state \<Rightarrow> mref \<Rightarrow> al_member" where
  "member_at c st r = c_m (cluster c st (fst r)) ! snd r"

definition slots :: "(addr \<Rightarrow> addr list) \<Rightarrow> addr \<Rightarrow> mref list" where
  "slots L c = concat (map (\<lambda>r. map (Pair r) [0..<8]) (clusters L c))"

definition can_pick :: "al_member \<Rightarrow> bool" where
  "can_pick m \<longleftrightarrow> m_is_used m \<and> m_is_up m"

definition cands :: "member_state \<Rightarrow> (addr \<Rightarrow> addr list) \<Rightarrow> addr \<Rightarrow> mref list" where
  "cands st L c = filter (\<lambda>r. can_pick (member_at c st r)) (slots L c)"

text \<open>What one round of al_alg_rr does to a member, and the running choice of the best.\<close>

definition bump :: "al_member \<Rightarrow> al_member" where
  "bump m = (if can_pick m
     then m\<lparr>m_current_weight := m_current_weight m + m_effective_weight m,
            m_effective_weight := (if m_effective_weight m < m_weight m then m_effective_weight m + 1 else m_effective_weight m)\<rparr>
     else m)"

definition better :: "mref \<times> u16 \<Rightarrow> (mref \<times> u16) option \<Rightarrow> (mref \<times> u16) option" where
  "better rw best =
     (case best of None \<Rightarrow> Some rw | Some bw \<Rightarrow> if snd rw > snd bw then Some rw else Some bw)"

definition offers :: "addr option \<Rightarrow> al_member list \<Rightarrow> nat \<Rightarrow> (mref \<times> u16 \<times> u16) list" where
  "offers r ms j = map (\<lambda>(i, m). ((r, i), m_current_weight m + m_effective_weight m, m_effective_weight m))
     (filter (\<lambda>(i, m). can_pick m) (enumerate j ms))"

definition take_offers :: "(mref \<times> u16 \<times> u16) list \<Rightarrow> rr_acc \<Rightarrow> rr_acc" where
  "take_offers os acc = (fst acc + sum_list (map (\<lambda>(r, w, e). ucast e) os), fold (\<lambda>(r, w, e). better (r, w)) os (snd acc))"

lemma take_offers_simps [simp]:
  "take_offers [] acc = acc"
  "take_offers (x # os) acc = take_offers os (take_offers [x] acc)"
  "take_offers (os @ ps) acc = take_offers ps (take_offers os acc)"
  by (simp_all add: take_offers_def)

lemma used_simps [simp]: "used [] = 0" "used (m # ms) = (if m_is_used m then Suc (used ms) else used ms)"
  by (simp_all add: used_def)

lemma offers_simps [simp]:
  "offers r [] j = []"
  "offers r (m # ms) j = (if can_pick m then [((r, j), m_current_weight m + m_effective_weight m, m_effective_weight m)] else [])
     @ offers r ms (Suc j)"
  by (simp_all add: offers_def)

lemma rr_loop_eq:
  "used ms = k \<Longrightarrow> rr_loop r ms j k acc = Some (map bump ms, take_offers (offers r ms j) acc)"
proof (induction r ms j k acc rule: rr_loop.induct)
  case (1 r ms j acc)
  then have "\<forall>m \<in> set ms. \<not> m_is_used m" by (simp add: used_def filter_empty_conv)
  then show ?case by (induction ms arbitrary: j) (auto simp: bump_def can_pick_def)
next
  case (3 r m ms j k acc)
  obtain total best where acc: "acc = (total, best)" by (cases acc)
  show ?case
    using 3 by (auto simp: can_pick_def bump_def rr_visit_def Let_def acc take_offers_def better_def split: if_splits option.splits)
qed auto

definition bump_cluster :: "al_member_chain \<Rightarrow> al_member_chain" where
  "bump_cluster x = x\<lparr>c_m := map bump (c_m x)\<rparr>"

definition bump_all :: "addr \<Rightarrow> addr set \<Rightarrow> member_state \<Rightarrow> member_state" where
  "bump_all c A st = st\<lparr>ms_first := (ms_first st)(c := bump_cluster (ms_first st c)),
     ms_node := (\<lambda>a. if a \<in> A then bump_cluster (ms_node st a) else ms_node st a)\<rparr>"

definition all_offers :: "member_state \<Rightarrow> (addr \<Rightarrow> addr list) \<Rightarrow> addr \<Rightarrow> (mref \<times> u16 \<times> u16) list" where
  "all_offers st L c = concat (map (\<lambda>r. offers r (c_m (cluster c st r)) 0) (clusters L c))"

lemma used_bump [simp]: "used (map bump ms) = used ms"
  by (induction ms) (auto simp: bump_def)

lemma cluster_wf_bump [simp]: "cluster_wf (bump_cluster x) = cluster_wf x"
  by (simp add: cluster_wf_def bump_cluster_def)

lemma rr_cluster_eq:
  "cluster_wf (cluster c st r) \<Longrightarrow>
   rr_cluster c r (acc, st) = Some (take_offers (offers r (c_m (cluster c st r)) 0) acc, set_cluster c r (bump_cluster (cluster c st r)) st)"
  by (simp add: rr_cluster_def cluster_wf_def rr_loop_eq bump_cluster_def Let_def)

definition bump_step :: "addr \<Rightarrow> addr \<Rightarrow> rr_acc \<times> member_state \<Rightarrow> rr_acc \<times> member_state" where
  "bump_step c a ast = (take_offers (offers (Some a) (c_m (ms_node (snd ast) a)) 0) (fst ast),
     set_cluster c (Some a) (bump_cluster (ms_node (snd ast) a)) (snd ast))"

lemma fold_clusters:
  assumes "distinct as"
  shows "fold (bump_step c) as (acc, st)
    = (take_offers (concat (map (\<lambda>a. offers (Some a) (c_m (ms_node st a)) 0) as)) acc,
       st\<lparr>ms_node := \<lambda>a. if a \<in> set as then bump_cluster (ms_node st a) else ms_node st a\<rparr>)"
  using assms
proof (induction as arbitrary: acc st)
  case (Cons a as)
  let ?st = "st\<lparr>ms_node := (ms_node st)(a := bump_cluster (ms_node st a))\<rparr>"
  have m: "map (\<lambda>b. offers (Some b) (c_m (ms_node ?st b)) 0) as = map (\<lambda>b. offers (Some b) (c_m (ms_node st b)) 0) as"
    using Cons.prems by (intro map_cong) auto
  have n: "?st\<lparr>ms_node := \<lambda>b. if b \<in> set as then bump_cluster (ms_node ?st b) else ms_node ?st b\<rparr>
      = st\<lparr>ms_node := \<lambda>b. if b \<in> set (a # as) then bump_cluster (ms_node st b) else ms_node st b\<rparr>"
    using Cons.prems by (intro member_state.equality) (auto simp: fun_eq_iff)
  have "bump_step c a (acc, st) = (take_offers (offers (Some a) (c_m (ms_node st a)) 0) acc, ?st)"
    by (simp add: bump_step_def set_cluster_def)
  moreover have "distinct as" using Cons.prems by simp
  ultimately show ?case
    by (simp only: fold_simps Cons.IH m n list.map concat.simps take_offers_simps(3))
qed simp

lemma rr_scan:
  assumes "mem_wf G st L" "c \<in> G"
  shows "\<exists>acc1 st1. rr_cluster c None ((0, None), st) = Some (acc1, st1) \<and>
    hlist_for_each_safe (\<lambda>(acc, st). ms_lists st) (\<lambda>mc. rr_cluster c (Some mc)) (heads (ms_lists st1) c) (acc1, st1)
      = Some (take_offers (all_offers st L c) (0, None), bump_all c (set (L c)) st)"
proof -
  let ?acc1 = "take_offers (offers None (c_m (ms_first st c)) 0) (0, None)"
  let ?st1 = "set_cluster c None (bump_cluster (ms_first st c)) st"
  let ?I = "\<lambda>(acc :: rr_acc, s). ms_lists s = ms_lists st \<and> (\<forall>a \<in> set (L c). cluster_wf (ms_node s a))"
  have h: "heap_is (live G (ms_lists st)) L" and wf: "cluster_wf (ms_first st c)" "\<forall>a \<in> set (L c). cluster_wf (ms_node st a)"
    using assms by (auto simp: mem_wf_def)
  have 1: "rr_cluster c None ((0, None), st) = Some (?acc1, ?st1)"
    using rr_cluster_eq [of c st None] wf(1) by (simp add: cluster_def)
  have "hlist_for_each_safe (\<lambda>(acc, st). ms_lists st) (\<lambda>mc. rr_cluster c (Some mc)) (heads (ms_lists st) c) (?acc1, ?st1)
      = Some (fold (bump_step c) (L c) (?acc1, ?st1))"
    using wf(2) rr_cluster_eq [of c _ "Some _"]
    by (intro live_for_each_safe [where I = ?I, OF h assms(2)]) (auto simp: set_cluster_def cluster_def bump_step_def)
  moreover have "?st1\<lparr>ms_node := \<lambda>a. if a \<in> set (L c) then bump_cluster (ms_node st a) else ms_node st a\<rparr> = bump_all c (set (L c)) st"
    by (simp add: bump_all_def set_cluster_def)
  ultimately show ?thesis
    using 1 fold_clusters [OF heap_is_distinct [OF h, of c], of c ?acc1 ?st1]
    by (simp add: set_cluster_def all_offers_def clusters_def cluster_def comp_def bump_all_def cong: if_cong)
qed

text \<open>The offers are those of the members that can be picked, in the order of the scan.\<close>

definition raised :: "al_member \<Rightarrow> u16" where
  "raised m = m_current_weight m + m_effective_weight m"

lemma offers_upt:
  "offers r ms 0 = map (\<lambda>j. ((r, j), raised (ms ! j), m_effective_weight (ms ! j)))
     (filter (\<lambda>j. can_pick (ms ! j)) [0..<length ms])"
proof -
  have "enumerate 0 ms = map (\<lambda>j. (j, ms ! j)) [0..<length ms]"
    by (rule nth_equalityI) (auto simp: nth_enumerate_eq)
  then show ?thesis by (simp add: offers_def filter_map comp_def raised_def)
qed

lemma all_offers_cands:
  assumes "mem_wf G st L" "c \<in> G"
  shows "all_offers st L c = map (\<lambda>r. (r, raised (member_at c st r), m_effective_weight (member_at c st r))) (cands st L c)"
proof -
  have len: "length (c_m (cluster c st r)) = 8" if "r \<in> set (clusters L c)" for r
    using assms that by (auto simp: mem_wf_def cluster_wf_def clusters_def cluster_def)
  have "offers r (c_m (cluster c st r)) 0 =
      map (\<lambda>r. (r, raised (member_at c st r), m_effective_weight (member_at c st r)))
        (filter (\<lambda>r. can_pick (member_at c st r)) (map (Pair r) [0..<8]))" if "r \<in> set (clusters L c)" for r
    using len [OF that] by (simp add: offers_upt filter_map comp_def member_at_def)
  then show ?thesis
    unfolding all_offers_def cands_def slots_def
    by (simp add: filter_concat map_concat comp_def cong: map_cong)
qed

lemma best_offer:
  assumes "fold better xs best = Some (r, w)" "\<And>b. best = Some b \<Longrightarrow> b \<in> B \<and> (\<forall>x \<in> B. snd x \<le> snd b)" "best = None \<Longrightarrow> B = {}"
  shows "(r, w) \<in> B \<union> set xs \<and> (\<forall>x \<in> B \<union> set xs. snd x \<le> w)"
  using assms
proof (induction xs arbitrary: best B)
  case (Cons x xs)
  have "(r, w) \<in> insert x B \<union> set xs \<and> (\<forall>y \<in> insert x B \<union> set xs. snd y \<le> w)"
  proof (rule Cons.IH)
    show "fold better xs (better x best) = Some (r, w)" using Cons.prems(1) by simp
    show "b \<in> insert x B \<and> (\<forall>y \<in> insert x B. snd y \<le> snd b)" if "better x best = Some b" for b
    proof (cases best)
      case None
      then show ?thesis using that Cons.prems(3) by (simp add: better_def)
    next
      case (Some b0)
      then have b0: "b0 \<in> B" "\<And>y. y \<in> B \<Longrightarrow> snd y \<le> snd b0" using Cons.prems(2) by auto
      show ?thesis
      proof (cases "snd x > snd b0")
        case True
        then have "b = x" using that Some by (simp add: better_def)
        moreover have "snd y \<le> snd x" if "y \<in> B" for y using b0(2) [OF that] True by simp
        ultimately show ?thesis by blast
      next
        case False
        then have "b = b0" using that Some by (simp add: better_def)
        with b0 False show ?thesis by auto
      qed
    qed
    show "better x best = None \<Longrightarrow> insert x B = {}" by (simp add: better_def split: option.splits if_splits)
  qed
  then show ?case by auto
qed (auto split: prod.splits)

lemma best_none: "fold better xs best = None \<longleftrightarrow> xs = [] \<and> best = None"
  by (induction xs arbitrary: best) (auto simp: better_def split: option.splits if_splits)

lemma ucast_add16: "(ucast (a + b) :: u16) = ucast a + ucast b" for a b :: u32
  by (simp add: unsigned_ucast_eq word_unat_eq_iff take_bit_eq_mod unat_word_ariths mod_add_eq mod_mod_cancel)

lemma sum_ucast: "(ucast (sum_list (map f xs) :: u32) :: u16) = sum_list (map (\<lambda>x. ucast (f x)) xs)" for f :: "'a \<Rightarrow> u32"
  by (induction xs) (simp_all add: ucast_add16)

lemma slots_iff: "r \<in> set (slots L c) \<longleftrightarrow> fst r \<in> set (clusters L c) \<and> snd r < 8"
  by (cases r) (auto simp: slots_def image_iff)

lemma cands_slots: "r \<in> set (cands st L c) \<Longrightarrow> r \<in> set (slots L c)"
  by (simp add: cands_def)

lemma distinct_pairs: "distinct xs \<Longrightarrow> distinct (concat (map (\<lambda>r. map (Pair r) [0..<8]) xs))"
  by (induction xs) (auto simp: distinct_map inj_on_def)

lemma distinct_slots: "mem_wf G st L \<Longrightarrow> distinct (slots L c)"
  using heap_is_distinct [of "live G (ms_lists st)" L c]
  by (simp add: slots_def clusters_def mem_wf_def distinct_map distinct_pairs del: concat.simps list.map(2))

lemma cluster_slots_wf:
  assumes "mem_wf G st L" "c \<in> G" "x \<in> set (clusters L c)"
  shows "cluster_wf (cluster c st x)"
  using assms by (auto simp: mem_wf_def clusters_def cluster_def)

lemma member_at_bump:
  assumes "mem_wf G st L" "c \<in> G" "r \<in> set (slots L c)"
  shows "member_at c (bump_all c (set (L c)) st) r = bump (member_at c st r)"
  using assms cluster_slots_wf [OF assms(1,2), of "fst r"]
  by (auto simp: slots_iff member_at_def cluster_wf_def bump_all_def cluster_def bump_cluster_def clusters_def split: option.splits)

lemma used_update: "j < length ms \<Longrightarrow> m_is_used m = m_is_used (ms ! j) \<Longrightarrow> used (ms[j := m]) = used ms"
proof -
  assume "j < length ms" "m_is_used m = m_is_used (ms ! j)"
  then have "map m_is_used (ms[j := m]) = map m_is_used ms" by (simp add: map_update list_update_same_conv)
  moreover have "used xs = length (filter id (map m_is_used xs))" for xs by (simp add: used_def filter_map comp_def)
  ultimately show ?thesis by metis
qed

definition set_member_at :: "addr \<Rightarrow> mref \<Rightarrow> al_member \<Rightarrow> member_state \<Rightarrow> member_state" where
  "set_member_at c r m st =
     (let x = cluster c st (fst r) in set_cluster c (fst r) (x\<lparr>c_m := (c_m x)[snd r := m]\<rparr>) st)"

lemma member_at_set:
  assumes "mem_wf G st L" "c \<in> G" "r \<in> set (slots L c)" "s \<in> set (slots L c)"
  shows "member_at c (set_member_at c r m st) s = (if s = r then m else member_at c st s)"
  using assms cluster_slots_wf [OF assms(1,2), of "fst r"]
  by (cases r; cases s)
    (auto simp: slots_iff member_at_def set_member_at_def set_cluster_def cluster_def cluster_wf_def Let_def split: option.splits)

lemma mem_wf_set:
  assumes "mem_wf G st L" "c \<in> G" "r \<in> set (slots L c)" "m_is_used m = m_is_used (member_at c st r)"
  shows "mem_wf G (set_member_at c r m st) L"
proof -
  let ?x = "cluster c st (fst r)"
  have "cluster_wf ?x" "snd r < 8" using assms(3) cluster_slots_wf [OF assms(1,2)] by (auto simp: slots_iff)
  then have "cluster_wf (?x\<lparr>c_m := (c_m ?x)[snd r := m]\<rparr>)"
    using used_update [of "snd r" "c_m ?x" m] assms(4) by (simp add: cluster_wf_def member_at_def)
  then show ?thesis
    using assms(1) by (auto simp: mem_wf_def set_member_at_def set_cluster_def cluster_def cluster_wf_def Let_def split: option.splits)
qed

lemma mem_wf_bump: "mem_wf G st L \<Longrightarrow> mem_wf G (bump_all c A st) L"
  by (auto simp: mem_wf_def bump_all_def) (auto simp: bump_cluster_def)

definition round_total :: "member_state \<Rightarrow> (addr \<Rightarrow> addr list) \<Rightarrow> addr \<Rightarrow> u16" where
  "round_total st L c = sum_list (map (\<lambda>r. m_effective_weight (member_at c st r)) (cands st L c))"

lemma rr_total:
  assumes "mem_wf G st L" "c \<in> G"
  shows "(ucast (fst (take_offers (all_offers st L c) (0, None))) :: u16) = round_total st L c"
    and "snd (take_offers (all_offers st L c) (0, None)) = fold better (map (\<lambda>r. (r, raised (member_at c st r))) (cands st L c)) None"
proof -
  have "(ucast (ucast w :: u32) :: u16) = w" for w :: u16 by (rule bit_word_eqI) (auto simp: bit_simps)
  then show "(ucast (fst (take_offers (all_offers st L c) (0, None))) :: u16) = round_total st L c"
    using all_offers_cands [OF assms]
    by (simp add: take_offers_def round_total_def sum_ucast comp_def)
  show "snd (take_offers (all_offers st L c) (0, None)) = fold better (map (\<lambda>r. (r, raised (member_at c st r))) (cands st L c)) None"
    using all_offers_cands [OF assms] by (simp add: take_offers_def fold_map comp_def)
qed

lemma ucast_diff16: "(ucast (ucast w - t) :: u16) = w - ucast t" for w :: u16 and t :: u32
proof -
  have "(ucast (a - b) :: u16) = ucast a - ucast b" for a b :: u32
    using ucast_add16 [of "a - b" b] by (simp add: algebra_simps)
  moreover have "(ucast (ucast w :: u32) :: u16) = w" by (rule bit_word_eqI) (auto simp: bit_simps)
  ultimately show ?thesis by simp
qed

lemma al_alg_rr_eq:
  assumes "mem_wf G st L" "c \<in> G"
  shows "al_alg_rr c st = Some (case fold better (map (\<lambda>r. (r, raised (member_at c st r))) (cands st L c)) None of
      None \<Rightarrow> (None, bump_all c (set (L c)) st)
    | Some (r, w) \<Rightarrow> let st2 = bump_all c (set (L c)) st; m = member_at c st2 r
        in (Some r, set_member_at c r (m\<lparr>m_current_weight := m_current_weight m - round_total st L c\<rparr>) st2))"
proof -
  obtain total best where tb: "take_offers (all_offers st L c) (0, None) = (total, best)" by (cases "take_offers (all_offers st L c) (0, None)")
  have "ucast total = round_total st L c" "best = fold better (map (\<lambda>r. (r, raised (member_at c st r))) (cands st L c)) None"
    using rr_total [OF assms] tb by simp_all
  then show ?thesis
    using rr_scan [OF assms] tb
    by (auto simp: al_alg_rr_def ucast_diff16 set_member_at_def member_at_def Let_def split: option.splits)
qed

section \<open>Properties of the round robin\<close>

lemma rr_round_step:
  assumes "mem_wf G st L" "c \<in> G"
  shows "\<exists>best st'. al_alg_rr c st = Some (best, st') \<and> mem_wf G st' L \<and>
    (best = None \<longleftrightarrow> cands st L c = []) \<and>
    (\<forall>r. best = Some r \<longrightarrow> r \<in> set (cands st L c) \<and>
       (\<forall>s \<in> set (cands st L c). raised (member_at c st s) \<le> raised (member_at c st r))) \<and>
    (\<forall>r \<in> set (slots L c). member_at c st' r = (if best = Some r
       then (bump (member_at c st r))\<lparr>m_current_weight := raised (member_at c st r) - round_total st L c\<rparr>
       else bump (member_at c st r))) \<and>
    (\<forall>d. d \<noteq> c \<longrightarrow> ms_first st' d = ms_first st d) \<and> (\<forall>a. a \<notin> set (L c) \<longrightarrow> ms_node st' a = ms_node st a)"
proof (cases "fold better (map (\<lambda>r. (r, raised (member_at c st r))) (cands st L c)) None")
  case None
  then have "cands st L c = []" by (simp add: best_none)
  moreover have "al_alg_rr c st = Some (None, bump_all c (set (L c)) st)" using al_alg_rr_eq [OF assms] None by simp
  moreover have "ms_first (bump_all c (set (L c)) st) d = ms_first st d" if "d \<noteq> c" for d
    using that by (simp add: bump_all_def)
  moreover have "ms_node (bump_all c (set (L c)) st) a = ms_node st a" if "a \<notin> set (L c)" for a
    using that by (simp add: bump_all_def)
  ultimately show ?thesis using mem_wf_bump [OF assms(1)] member_at_bump [OF assms] by auto
next
  case (Some rw)
  obtain r w where rw: "rw = (r, w)" by (cases rw)
  have b: "r \<in> set (cands st L c)" "w = raised (member_at c st r)"
    "\<And>s. s \<in> set (cands st L c) \<Longrightarrow> raised (member_at c st s) \<le> w"
    using best_offer [OF Some [unfolded rw], of "{}"] by auto
  let ?b = "bump_all c (set (L c)) st"
  let ?m = "(member_at c ?b r)\<lparr>m_current_weight := m_current_weight (member_at c ?b r) - round_total st L c\<rparr>"
  let ?st = "set_member_at c r ?m ?b"
  have r: "r \<in> set (slots L c)" "can_pick (member_at c st r)" using b(1) by (simp_all add: cands_def)
  have m: "member_at c ?b r = bump (member_at c st r)" by (rule member_at_bump [OF assms r(1)])
  have eq: "al_alg_rr c st = Some (Some r, ?st)" using al_alg_rr_eq [OF assms] Some rw by (simp add: Let_def)
  have wf: "mem_wf G ?st L" using mem_wf_set [OF mem_wf_bump [OF assms(1)] assms(2) r(1)] by simp
  have at: "member_at c ?st s = (if s = r then ?m else bump (member_at c st s))" if "s \<in> set (slots L c)" for s
    using member_at_set [OF mem_wf_bump [OF assms(1)] assms(2) r(1) that] member_at_bump [OF assms that] by simp
  have "m_current_weight (bump (member_at c st r)) = raised (member_at c st r)"
    using r(2) by (simp add: bump_def raised_def)
  then have "\<forall>s \<in> set (slots L c). member_at c ?st s = (if Some r = Some s
       then (bump (member_at c st s))\<lparr>m_current_weight := raised (member_at c st s) - round_total st L c\<rparr>
       else bump (member_at c st s))"
    using at m by auto
  moreover have "ms_first ?st d = ms_first st d" if "d \<noteq> c" for d
    using that by (simp add: set_member_at_def set_cluster_def bump_all_def Let_def split: option.splits)
  moreover have "ms_node ?st a = ms_node st a" if "a \<notin> set (L c)" for a
    using that r(1) by (auto simp: slots_iff clusters_def set_member_at_def set_cluster_def bump_all_def Let_def split: option.splits)
  moreover have "cands st L c \<noteq> []" using b(1) by auto
  ultimately show ?thesis
    using eq wf b by (intro exI [of _ "Some r"] exI [of _ ?st] conjI) simp_all
qed

text \<open>
  C13: one call of al_alg_rr on a well-formed group. It picks a member exactly when some used
  member is up, and the member picked has the greatest raised weight. Every member that can be
  picked has its current weight raised by its effective weight, and the picked one gives up the
  total of the effective weights; an effective weight that is below the weight then grows by one.
  Nothing else changes, in this group or in any other.
\<close>

theorem rr_round:
  assumes "mem_wf G st L" "c \<in> G"
  shows "\<exists>best st'. al_alg_rr c st = Some (best, st') \<and> mem_wf G st' L \<and>
    (best = None \<longleftrightarrow> cands st L c = []) \<and>
    (\<forall>r. best = Some r \<longrightarrow> r \<in> set (cands st L c) \<and>
       (\<forall>s \<in> set (cands st L c). raised (member_at c st s) \<le> raised (member_at c st r))) \<and>
    (\<forall>r \<in> set (slots L c). member_at c st' r = (if best = Some r
       then (bump (member_at c st r))\<lparr>m_current_weight := raised (member_at c st r) - round_total st L c\<rparr>
       else bump (member_at c st r))) \<and>
    (\<forall>d. d \<noteq> c \<longrightarrow> ms_first st' d = ms_first st d) \<and> (\<forall>a. a \<notin> set (L c) \<longrightarrow> ms_node st' a = ms_node st a)"
  by (rule rr_round_step [OF assms])

text \<open>A group with two members of the weights 5 and 1 in its first cluster.\<close>

definition no_member :: al_member where
  "no_member = \<lparr>m_is_used = False, m_is_up = False, m_port = 0, m_weight = 0, m_current_weight = 0,
     m_effective_weight = 0, m_mid = 0, m_vid = 0, m_ttl = 0, m_type = 0, m_addr = \<lparr>a_len = 0, a_af = 0, a_addr = 0\<rparr>\<rparr>"

definition two_members :: "u16 \<Rightarrow> u16 \<Rightarrow> member_state" where
  "two_members a b = \<lparr>ms_lists = \<lparr>heads = \<lambda>_. None, nodes = \<lambda>_. \<lparr>nxt = None, pprev = None\<rparr>\<rparr>,
     ms_first = (\<lambda>_. \<lparr>c_cnt = 0, c_m = replicate 8 no_member\<rparr>)
       (0 := \<lparr>c_cnt = 2, c_m =
         no_member\<lparr>m_is_used := True, m_is_up := True, m_mid := 1, m_weight := 5, m_effective_weight := 5, m_current_weight := a\<rparr> #
         no_member\<lparr>m_is_used := True, m_is_up := True, m_mid := 2, m_weight := 1, m_effective_weight := 1, m_current_weight := b\<rparr> #
         replicate 6 no_member\<rparr>),
     ms_node = \<lambda>_. \<lparr>c_cnt = 0, c_m = replicate 8 no_member\<rparr>, ms_alloc = {}\<rparr>"

lemma used_replicate: "used (replicate n no_member) = 0"
  by (simp add: used_def no_member_def)

lemma two_members_wf: "mem_wf UNIV (two_members a b) (\<lambda>_. [])"
  by (simp add: mem_wf_def cluster_wf_def two_members_def heap_is_empty live_def used_replicate)

theorem rr_round_witness:
  "\<exists>best st'. al_alg_rr 0 (two_members 0 0) = Some (best, st') \<and> mem_wf UNIV st' (\<lambda>_. [])"
  using rr_round [OF two_members_wf UNIV_I] by blast

lemma two_members_rr:
  "al_alg_rr 0 (two_members a b) =
     (if b + 1 > a + 5 then Some (Some (None, 1), two_members (a + 5) (b + 1 - 6))
      else Some (Some (None, 0), two_members (a + 5 - 6) (b + 1)))"
proof -
  have "rr_loop r ms j 2 acc = rr_loop r ms j (Suc (Suc 0)) acc" for r ms j acc by (simp add: numeral_2_eq_2)
  then show ?thesis
    by (simp add: al_alg_rr_def rr_cluster_def cluster_def two_members_def no_member_def set_cluster_def rr_visit_def
      hlist_for_each_safe.simps Let_def ucast_diff16)
qed

text \<open>A sequence of calls, with the members picked.\<close>

primrec rr_calls :: "nat \<Rightarrow> addr \<Rightarrow> member_state \<Rightarrow> (mref option list \<times> member_state) option" where
  "rr_calls 0 c st = Some ([], st)"
| "rr_calls (Suc n) c st =
     do { (best, st1) \<leftarrow> al_alg_rr c st; (bs, st2) \<leftarrow> rr_calls n c st1; Some (best # bs, st2) }"

lemma rr_calls_append:
  "rr_calls n c st = Some (bs, st1) \<Longrightarrow> rr_calls m c st1 = Some (ds, st2) \<Longrightarrow> rr_calls (n + m) c st = Some (bs @ ds, st2)"
  by (induction n arbitrary: st bs) (auto simp: bind_eq_Some_conv)

lemma rr_starve:
  "k + n \<le> 6553 \<Longrightarrow> rr_calls n 0 (two_members (2 + 5 * of_nat k) (- 2 - 5 * of_nat k)) =
     Some (replicate n (Some (None, 1)), two_members (2 + 5 * of_nat (k + n)) (- 2 - 5 * of_nat (k + n)))"
proof (induction n arbitrary: k)
  case (Suc n)
  have k: "k \<le> 6552" using Suc.prems by simp
  have "unat (2 + 5 * of_nat k + 5 :: u16) = 7 + 5 * k"
    using k by (simp add: unat_word_ariths unat_of_nat)
  moreover have eq: "- 2 - 5 * of_nat k + 1 = (of_nat (65535 - 5 * k) :: u16)"
    using k by (simp add: of_nat_diff)
  have "unat (- 2 - 5 * of_nat k + 1 :: u16) = 65535 - 5 * k" unfolding eq unat_of_nat using k by simp
  ultimately have "2 + 5 * of_nat k + 5 < (- 2 - 5 * of_nat k + 1 :: u16)" using k by (simp only: word_less_nat_alt)
  moreover have "two_members (2 + 5 * of_nat k + 5) (- 2 - 5 * of_nat k + 1 - 6) = two_members (2 + 5 * of_nat (Suc k)) (- 2 - 5 * of_nat (Suc k))"
    by (simp add: algebra_simps)
  ultimately have "al_alg_rr 0 (two_members (2 + 5 * of_nat k) (- 2 - 5 * of_nat k)) =
      Some (Some (None, 1), two_members (2 + 5 * of_nat (Suc k)) (- 2 - 5 * of_nat (Suc k)))"
    by (simp only: two_members_rr if_True)
  then show ?case using Suc.IH [of "Suc k"] Suc.prems by simp
qed simp

text \<open>
  C31: the current weights are unsigned and wrap around below zero, and a wrapped weight counts as
  a very large one. In a group of two members with the weights 5 and 1 the member of weight 5
  is picked three times, and then the member of weight 1 is picked 6554 times in a row.
\<close>

theorem rr_starvation:
  "\<exists>st. rr_calls 6557 0 (two_members 0 0) =
     Some (replicate 3 (Some (None, 0)) @ replicate 6554 (Some (None, 1)), st)"
proof -
  have "rr_calls (Suc (Suc (Suc (Suc 0)))) 0 (two_members 0 0) =
      Some ([Some (None, 0), Some (None, 0), Some (None, 0), Some (None, 1)], two_members 2 (- 2))"
    by (simp add: two_members_rr)
  from rr_calls_append [OF this rr_starve [of 0 6553, simplified]] have
    "\<exists>st. rr_calls (Suc (Suc (Suc (Suc 0))) + 6553) 0 (two_members 0 0) =
       Some ([Some (None, 0), Some (None, 0), Some (None, 0), Some (None, 1)] @ replicate 6553 (Some (None, 1)), st)" by auto
  moreover have "[A, A, A, B] @ replicate 6553 B = replicate 3 A @ replicate 6554 B" for A B :: "mref option"
    using replicate_Suc [of 6553 B] by (simp add: numeral_3_eq_3)
  ultimately show ?thesis by simp
qed

section \<open>Properties of adding and removing\<close>

lemma rr_loop_short: "used ms < k \<Longrightarrow> rr_loop r ms j k acc = None"
  by (induction r ms j k acc rule: rr_loop.induct) (auto split: if_splits prod.splits)

lemma del_loop_found:
  assumes "m \<in> set ms" "m_is_used m" "m_mid m = mid"
  shows "\<exists>ms' s'. del_loop mid ms (used ms) s = Some (Some ms', s') \<and> used ms = Suc (used ms') \<and> length ms' = length ms"
  using assms
proof (induction ms arbitrary: s)
  case (Cons x ms)
  show ?case
  proof (cases "m_is_used x \<and> m_mid x = mid")
    case False
    then have "m \<in> set ms" using Cons.prems by auto
    note IH = Cons.IH [OF this Cons.prems(2,3)]
    then obtain k where k: "used ms = Suc k" by blast
    show ?thesis
    proof (cases "m_is_used x")
      case True
      then show ?thesis using False IH [of True] by auto
    next
      case unused: False
      then show ?thesis using IH [of s] k by auto
    qed
  qed auto
qed simp

text \<open>
  C30: al_member_del does not take the removed member off the count of its cluster. Removing a
  member of the first cluster of a well-formed group succeeds, and the next scheduling call on
  the group looks for one used member more than there is and reads past the eight members.
\<close>

theorem member_del_crash:
  assumes "mem_wf G st L" and "c \<in> G" and "m \<in> set (c_m (ms_first st c))" and "m_is_used m" and "m_mid m = mid"
  shows "\<exists>st'. al_member_del c mid st = Some (0, st') \<and> al_alg_rr c st' = None"
proof -
  let ?x = "ms_first st c"
  have wf: "unat (c_cnt ?x) = used (c_m ?x)" using assms(1,2) by (simp add: mem_wf_def cluster_wf_def)
  obtain ms s where ms: "del_loop mid (c_m ?x) (used (c_m ?x)) False = Some (Some ms, s)" "used (c_m ?x) = Suc (used ms)"
    using del_loop_found [OF assms(3-5), of False] by blast
  let ?st = "set_cluster c None (?x\<lparr>c_m := ms\<rparr>) st"
  have "rr_cluster c None ((0, None), ?st) = None"
    using rr_loop_short [of ms "Suc (used ms)"] wf ms(2) by (simp add: rr_cluster_def cluster_def set_cluster_def Let_def)
  then have "al_alg_rr c ?st = None" by (simp add: al_alg_rr_def)
  moreover have "al_member_del c mid st = Some (0, ?st)" using wf ms(1) by (simp add: al_member_del_def)
  ultimately show ?thesis by blast
qed

theorem member_del_crash_witness:
  "\<exists>st'. al_member_del 0 2 (two_members 0 0) = Some (0, st') \<and> al_alg_rr 0 st' = None"
  using member_del_crash [OF two_members_wf [of 0 0] UNIV_I, of
      "no_member\<lparr>m_is_used := True, m_is_up := True, m_mid := 2, m_weight := 1, m_effective_weight := 1, m_current_weight := 0\<rparr>" 0 2]
  by (simp add: two_members_def)

lemma take_slot_None: "take_slot conf ms = None \<longleftrightarrow> (\<forall>m \<in> set ms. m_is_used m)"
  by (induction ms) auto

lemma take_slot_Some:
  assumes "take_slot conf ms = Some ms'"
  shows "\<exists>j < length ms. \<not> m_is_used (ms ! j) \<and> ms' = ms[j := (al_set_member conf (ms ! j))\<lparr>m_is_used := True\<rparr>] \<and> used ms' = Suc (used ms)"
  using assms
proof (induction ms arbitrary: ms')
  case (Cons m ms)
  show ?case
  proof (cases "m_is_used m")
    case True
    then obtain ms1 where ms1: "take_slot conf ms = Some ms1" "ms' = m # ms1" using Cons.prems by auto
    from Cons.IH [OF ms1(1)] obtain j where j: "j < length ms" "\<not> m_is_used (ms ! j)"
      "ms1 = ms[j := (al_set_member conf (ms ! j))\<lparr>m_is_used := True\<rparr>]" "used ms1 = Suc (used ms)" by blast
    then show ?thesis using True ms1(2) by (intro exI [of _ "Suc j"]) simp
  next
    case False
    then show ?thesis using Cons.prems by (intro exI [of _ 0]) auto
  qed
qed simp

lemma used_le: "used ms \<le> length ms"
  by (simp add: used_def)

text \<open>What an insertion leaves: the slot \<open>r\<close> that was taken, and everything else as before.\<close>

definition inserted :: "addr \<Rightarrow> al_member_conf \<Rightarrow> mref \<Rightarrow> member_state \<Rightarrow> (addr \<Rightarrow> addr list) \<Rightarrow> member_state \<Rightarrow> (addr \<Rightarrow> addr list) \<Rightarrow> bool" where
  "inserted c conf r st L st' L' \<longleftrightarrow>
     r \<in> set (slots L' c) \<and> can_pick (member_at c st' r) \<and> m_mid (member_at c st' r) = mc_mid conf \<and>
     m_weight (member_at c st' r) = mc_weight conf \<and> m_port (member_at c st' r) = bswap16 (mc_port conf) \<and>
     (r \<in> set (slots L c) \<longrightarrow> \<not> m_is_used (member_at c st r)) \<and>
     (\<forall>s. s \<noteq> r \<and> s \<in> set (slots L' c) \<and> m_is_used (member_at c st' s) \<longrightarrow> s \<in> set (slots L c) \<and> member_at c st' s = member_at c st s) \<and>
     (\<forall>s. s \<noteq> r \<and> s \<in> set (slots L c) \<longrightarrow> s \<in> set (slots L' c) \<and> member_at c st' s = member_at c st s) \<and>
     (\<forall>d s. d \<noteq> c \<and> s \<in> set (slots L d) \<longrightarrow> s \<in> set (slots L' d) \<and> member_at d st' s = member_at d st s)"

lemma insertedI:
  assumes "\<And>s. member_at c st' s = (if s = r then (al_set_member conf m)\<lparr>m_is_used := True\<rparr> else if s \<in> set (slots L c) then member_at c st s else n s)"
    and "r \<in> set (slots L' c)" and "r \<in> set (slots L c) \<longrightarrow> \<not> m_is_used (member_at c st r)"
    and "\<And>s. s \<noteq> r \<Longrightarrow> s \<notin> set (slots L c) \<Longrightarrow> s \<in> set (slots L' c) \<Longrightarrow> \<not> m_is_used (n s)"
    and "set (slots L c) \<subseteq> set (slots L' c)"
    and "\<And>d s. d \<noteq> c \<Longrightarrow> s \<in> set (slots L d) \<Longrightarrow> s \<in> set (slots L' d) \<and> member_at d st' s = member_at d st s"
  shows "inserted c conf r st L st' L'"
  unfolding inserted_def using assms by (auto simp: can_pick_def al_set_member_def)

lemma insert_in_cluster:
  assumes wf: "mem_wf G st L" "c \<in> G" and x: "x \<in> set (clusters L c)" and ms: "take_slot conf (c_m (cluster c st x)) = Some ms"
  shows "\<exists>r. mem_wf G (set_cluster c x \<lparr>c_cnt = c_cnt (cluster c st x) + 1, c_m = ms\<rparr> st) L \<and>
    inserted c conf r st L (set_cluster c x \<lparr>c_cnt = c_cnt (cluster c st x) + 1, c_m = ms\<rparr> st) L"
proof -
  let ?x = "cluster c st x"
  let ?y = "\<lparr>c_cnt = c_cnt ?x + 1, c_m = ms\<rparr>"
  let ?st = "set_cluster c x ?y st"
  have cw: "length (c_m ?x) = 8" "unat (c_cnt ?x) = used (c_m ?x)" using cluster_slots_wf [OF wf x] by (auto simp: cluster_wf_def)
  obtain j where j: "j < 8" "\<not> m_is_used (c_m ?x ! j)" "ms = (c_m ?x)[j := (al_set_member conf (c_m ?x ! j))\<lparr>m_is_used := True\<rparr>]"
    "used ms = Suc (used (c_m ?x))" using take_slot_Some [OF ms] cw(1) by auto
  have "unat (c_cnt ?x + 1) = Suc (used (c_m ?x))"
    using cw used_le [of "c_m ?x"] by (subst unat_plus1) simp_all
  then have y: "cluster_wf ?y" using j(3,4) cw(1) by (simp add: cluster_wf_def)
  then have "mem_wf G ?st L"
    using wf by (auto simp: mem_wf_def set_cluster_def cluster_wf_def split: option.splits)
  moreover have other: "member_at d ?st s = member_at d st s" if "d \<noteq> c" "s \<in> set (slots L d)" for d s
    using that x heap_is_disjoint [of "live G (ms_lists st)" L _ c d] wf
    by (auto simp: member_at_def set_cluster_def cluster_def slots_iff clusters_def mem_wf_def split: option.splits) blast
  have "inserted c conf (x, j) st L ?st L"
  proof (rule insertedI [where n = "member_at c st" and m = "c_m ?x ! j"])
    show "member_at c ?st s = (if s = (x, j) then (al_set_member conf (c_m ?x ! j))\<lparr>m_is_used := True\<rparr>
      else if s \<in> set (slots L c) then member_at c st s else member_at c st s)" for s
      using j(1,3) cw(1) by (cases s) (auto simp: member_at_def set_cluster_def cluster_def nth_list_update split: option.splits)
  qed (use x j other in \<open>auto simp: slots_iff member_at_def\<close>)
  ultimately show ?thesis by blast
qed

lemma insert_new_cluster:
  fixes c :: addr and conf :: al_member_conf
  assumes wf: "mem_wf G st L" "c \<in> G" and fresh: "chain_fresh a L"
  defines "ms \<equiv> INIT_MC (c_m (ms_node st a))"
  defines "st' \<equiv> set_cluster c (Some a) \<lparr>c_cnt = 1, c_m = ms[0 := (al_set_member conf (ms ! 0))\<lparr>m_is_used := True\<rparr>]\<rparr>
                     (st\<lparr>ms_lists := hlist_add_head a c (ms_lists st), ms_alloc := insert a (ms_alloc st)\<rparr>)"
  shows "mem_wf G st' (L(c := a # L c)) \<and> inserted c conf (Some a, 0) st L st' (L(c := a # L c))"
proof
  have len: "length ms = 8" using wf by (simp add: ms_def INIT_MC_def mem_wf_def)
  have unused: "\<not> m_is_used (ms ! i)" if "i < 8" for i using that len by (simp add: ms_def INIT_MC_def)
  then have u0: "used ms = 0" using len by (auto simp: used_def in_set_conv_nth filter_empty_conv)
  obtain m0 ms0 where ms0: "ms = m0 # ms0" using len by (cases ms) auto
  have cwf: "cluster_wf \<lparr>c_cnt = 1, c_m = ms[0 := (al_set_member conf (ms ! 0))\<lparr>m_is_used := True\<rparr>]\<rparr>"
    using u0 len unfolding ms0 by (auto simp: cluster_wf_def used_def split: if_splits)
  have "heap_is (live G (ms_lists st')) (L(c := a # L c))"
    using wf fresh by (simp add: st'_def set_cluster_def mem_wf_def live_add_head heap_is_add_head)
  then show "mem_wf G st' (L(c := a # L c))"
    using wf cwf len by (auto simp: mem_wf_def st'_def set_cluster_def cluster_wf_def)
  show "inserted c conf (Some a, 0) st L st' (L(c := a # L c))"
  proof (rule insertedI [where n = "\<lambda>s. if fst s = Some a then ms ! snd s else member_at c st s" and m = "ms ! 0"])
    show "member_at c st' s = (if s = (Some a, 0) then (al_set_member conf (ms ! 0))\<lparr>m_is_used := True\<rparr>
      else if s \<in> set (slots L c) then member_at c st s else if fst s = Some a then ms ! snd s else member_at c st s)" for s
      using len fresh by (cases s) (auto simp: st'_def member_at_def set_cluster_def cluster_def nth_list_update slots_iff clusters_def chain_fresh_def split: option.splits)
  qed (use fresh unused in \<open>auto simp: slots_iff clusters_def chain_fresh_def st'_def member_at_def set_cluster_def cluster_def split: option.splits\<close>)
qed

lemma ms_first_set_cluster: "d \<noteq> c \<Longrightarrow> ms_first (set_cluster c x y st) d = ms_first st d"
  by (simp add: set_cluster_def split: option.splits)

lemma member_insert_step:
  assumes wf: "mem_wf G st L" "c \<in> G" and fresh: "a \<notin> ms_alloc st"
  shows "\<exists>st' L' r. al_member_insert (Some a) c conf st = Some (0, st') \<and> mem_wf G st' L' \<and> inserted c conf r st L st' L' \<and>
    (L' = L \<or> L' = L(c := a # L c)) \<and> (\<forall>d. d \<noteq> c \<longrightarrow> ms_first st' d = ms_first st d)"
proof -
  have h: "heap_is (live G (ms_lists st)) L" using wf by (simp add: mem_wf_def)
  have first: "None \<in> set (clusters L c)" by (simp add: clusters_def)
  show ?thesis
  proof (cases "take_slot conf (c_m (ms_first st c))")
    case (Some ms)
    then show ?thesis using insert_in_cluster [OF wf first, of conf ms] ms_first_set_cluster [of _ c None _ st]
      by (simp add: al_member_insert_def cluster_def) blast
  next
    case None
    show ?thesis
    proof (cases "List.find (\<lambda>a. take_slot conf (c_m (ms_node st a)) \<noteq> None) (L c)")
      case found: (Some b)
      then obtain ms where ms: "Some b \<in> set (clusters L c)" "take_slot conf (c_m (ms_node st b)) = Some ms"
        by (auto simp: find_Some_iff clusters_def)
      then show ?thesis using insert_in_cluster [OF wf ms(1), of conf ms] None found ms_first_set_cluster [of _ c "Some b" _ st]
        by (simp add: al_member_insert_def cluster_def live_find [OF h wf(2)]) blast
    next
      case full: None
      have "chain_fresh a L" using wf(1) fresh by (simp add: mem_wf_def chain_fresh_def)
      from insert_new_cluster [OF wf this, of conf] show ?thesis using None full
        by (simp add: al_member_insert_def live_find [OF h wf(2)] Let_def ms_first_set_cluster) blast
    qed
  qed
qed

text \<open>
  C17: al_member_insert on a well-formed group succeeds whenever the allocator can give it a
  cluster, keeps the group well-formed, and adds one member: some slot that was free, or the
  first slot of a new cluster, now holds the configured member, up and ready to be scheduled,
  and every other member in use, of this group and of the others, is what it was.
\<close>

theorem member_insert:
  assumes "mem_wf G st L" "c \<in> G" and "a \<notin> ms_alloc st"
  shows "\<exists>st' L' r. al_member_insert (Some a) c conf st = Some (0, st') \<and> mem_wf G st' L' \<and> inserted c conf r st L st' L'"
  using member_insert_step [OF assms] by blast

theorem member_insert_witness:
  "\<exists>st' L' r. al_member_insert (Some 7) 0 (al_member_conf.make 5 80 3 (al_addr_t.make 4 AF_INET 1)) (two_members 0 0) = Some (0, st') \<and>
    mem_wf UNIV st' L' \<and> inserted 0 (al_member_conf.make 5 80 3 (al_addr_t.make 4 AF_INET 1)) r (two_members 0 0) (\<lambda>_. []) st' L'"
  by (rule member_insert [OF two_members_wf UNIV_I]) (simp add: two_members_def)

section \<open>The choice by view\<close>

definition geo_step :: "u32 \<Rightarrow> (mref \<Rightarrow> al_member) \<Rightarrow> mref \<Rightarrow> mref option \<times> bool \<Rightarrow> mref option \<times> bool" where
  "geo_step vid g r bs = (if snd bs then bs else if m_vid (g r) = vid then (Some r, True)
     else (if fst bs = None then Some r else fst bs, False))"

lemma geo_step_simps [simp]:
  "geo_step vid g r (b, True) = (b, True)"
  "m_vid (g r) = vid \<Longrightarrow> geo_step vid g r (b, False) = (Some r, True)"
  "m_vid (g r) \<noteq> vid \<Longrightarrow> geo_step vid g r (b, False) = (if b = None then Some r else b, False)"
  by (simp_all add: geo_step_def)

lemma geo_step_stop [simp]: "fold (geo_step vid g) rs (b, True) = (b, True)"
  by (induction rs) simp_all

lemma geo_loop_eq:
  assumes "used ms = k" "\<And>i. i < length ms \<Longrightarrow> g (r, j + i) = ms ! i"
  shows "geo_loop vid r ms j k best
    = Some (fold (geo_step vid g) (filter (\<lambda>s. can_pick (g s)) (map (Pair r) [j..<j + length ms])) (best, False))"
  using assms
proof (induction vid r ms j k best rule: geo_loop.induct)
  case (1 vid r ms j best)
  then have "\<not> can_pick (g (r, j + i))" if "i < length ms" for i
    using that by (auto simp: used_def filter_empty_conv can_pick_def)
  then have "filter (\<lambda>s. can_pick (g s)) (map (Pair r) [j..<j + length ms]) = []"
    by (auto simp: filter_empty_conv) (metis add_diff_inverse_nat add_less_cancel_left linorder_not_less)
  then show ?case by simp
next
  case (3 vid r m ms j k best)
  have g: "g (r, j) = m" using "3.prems"(2) [of 0] by simp
  have g': "g (r, j + 1 + i) = ms ! i" if "i < length ms" for i using "3.prems"(2) [of "Suc i"] that by simp
  have u: "[j..<j + length (m # ms)] = j # [j + 1..<j + 1 + length ms]" by (subst upt_conv_Cons) simp_all
  show ?case
  proof (cases "m_is_used m")
    case used: True
    then have k: "used ms = k" using "3.prems"(1) by simp
    show ?thesis
    proof (cases "m_is_up m")
      case up: True
      show ?thesis
      proof (cases "m_vid m = vid")
        case False
        show ?thesis unfolding u
          using "3.IH"(2) [OF used _ False k g'] used up False by (simp add: g can_pick_def del: upt_Suc)
      next
        case True
        then show ?thesis unfolding u using used up by (simp add: g can_pick_def del: upt_Suc)
      qed
    next
      case False
      then show ?thesis unfolding u using "3.IH"(1) [OF used False k g'] used by (simp add: g can_pick_def del: upt_Suc)
    qed
  next
    case False
    then have "used ms = Suc k" using "3.prems"(1) by simp
    with False show ?thesis unfolding u using "3.IH"(3) [OF False _ g'] by (simp add: g can_pick_def del: upt_Suc)
  qed
qed auto

definition first_of_view :: "u32 \<Rightarrow> (mref \<Rightarrow> al_member) \<Rightarrow> mref list \<Rightarrow> mref option" where
  "first_of_view vid g rs =
     (case List.find (\<lambda>r. m_vid (g r) = vid) rs of Some r \<Rightarrow> Some r | None \<Rightarrow> (case rs of [] \<Rightarrow> None | r # _ \<Rightarrow> Some r))"

lemma geo_fold:
  "fst (fold (geo_step vid g) rs (best, False)) =
     (case List.find (\<lambda>r. m_vid (g r) = vid) rs of Some r \<Rightarrow> Some r
      | None \<Rightarrow> if best = None then (case rs of [] \<Rightarrow> None | r # _ \<Rightarrow> Some r) else best)"
  by (induction rs arbitrary: best) (auto simp: geo_step_def split: option.splits)

lemma geo_scan:
  assumes wf: "mem_wf G st L" "c \<in> G"
  shows "\<exists>bs. geo_loop vid None (c_m (ms_first st c)) 0 (unat (c_cnt (ms_first st c))) None = Some bs \<and>
    hlist_for_each_safe (\<lambda>_. ms_lists st) (geo_body vid st) (heads (ms_lists st) c) bs
      = Some (fold (geo_step vid (member_at c st)) (cands st L c) (None, False))"
proof -
  let ?g = "member_at c st"
  let ?part = "\<lambda>x. filter (\<lambda>s. can_pick (?g s)) (map (Pair x) [0..<8])"
  have h: "heap_is (live G (ms_lists st)) L" using wf by (simp add: mem_wf_def)
  have loop: "geo_loop vid x (c_m (cluster c st x)) 0 (unat (c_cnt (cluster c st x))) best
      = Some (fold (geo_step vid ?g) (?part x) (best, False))" if "x \<in> set (clusters L c)" for x best
    using cluster_slots_wf [OF wf that] geo_loop_eq [of "c_m (cluster c st x)" _ ?g x 0]
    by (simp add: cluster_wf_def member_at_def)
  have body: "geo_body vid st a bs = Some (fold (geo_step vid ?g) (?part (Some a)) bs)" if "a \<in> set (L c)" for a bs
    using loop [of "Some a"] that by (cases bs) (auto simp: geo_body_def clusters_def cluster_def)
  let ?bs = "fold (geo_step vid ?g) (?part None) (None, False)"
  have "hlist_for_each_safe (\<lambda>_. ms_lists st) (geo_body vid st) (heads (ms_lists st) c) ?bs
      = Some (fold (\<lambda>a. fold (geo_step vid ?g) (?part (Some a))) (L c) ?bs)"
    by (rule live_for_each_safe [where I = "\<lambda>_. True", OF h wf(2)]) (auto simp: body)
  also have "fold (\<lambda>a. fold (geo_step vid ?g) (?part (Some a))) as bs = fold (geo_step vid ?g) (concat (map (\<lambda>a. ?part (Some a)) as)) bs" for as bs
    by (induction as arbitrary: bs) simp_all
  also have "fold (geo_step vid ?g) (concat (map (\<lambda>a. ?part (Some a)) (L c))) ?bs = fold (geo_step vid ?g) (cands st L c) (None, False)"
    by (simp add: cands_def slots_def clusters_def filter_concat comp_def)
  finally show ?thesis
    using loop [of None None] by (intro exI [of _ ?bs]) (simp add: clusters_def cluster_def)
qed

text \<open>
  al_alg_geoip on a well-formed group picks the first member of the asked view among those
  that are used and up, or else the first of them, and none only when there is none. The answer
  carries the type and ttl of that member and, for an A or AAAA member, the bytes of its address.
\<close>

theorem geoip_choice:
  assumes wf: "mem_wf G st L" "c \<in> G"
    and types: "\<forall>r \<in> set (cands st L c). m_type (member_at c st r) \<noteq> DNS_Q_NS \<and> m_type (member_at c st r) \<noteq> DNS_Q_CNAME"
  shows "\<exists>mptr'. al_alg_geoip c mptr st = Some (first_of_view (ma_vid mptr) (member_at c st) (cands st L c), mptr') \<and>
    (cands st L c = [] \<longrightarrow> mptr' = mptr) \<and>
    (\<forall>r. first_of_view (ma_vid mptr) (member_at c st) (cands st L c) = Some r \<longrightarrow>
      r \<in> set (cands st L c) \<and> ma_query_type mptr' = m_type (member_at c st r) \<and> ma_ttl mptr' = m_ttl (member_at c st r) \<and>
      (m_type (member_at c st r) = DNS_Q_A \<longrightarrow> ma_data_len mptr' = 4 \<and> take 4 (ma_data mptr') = bytes_of 4 (ipv4 (a_addr (m_addr (member_at c st r))))) \<and>
      (m_type (member_at c st r) = DNS_Q_AAAA \<longrightarrow> ma_data_len mptr' = 16 \<and> take 16 (ma_data mptr') = bytes_of 16 (a_addr (m_addr (member_at c st r)))))"
proof -
  let ?f = "first_of_view (ma_vid mptr) (member_at c st) (cands st L c)"
  obtain bs where 1: "geo_loop (ma_vid mptr) None (c_m (ms_first st c)) 0 (unat (c_cnt (ms_first st c))) None = Some bs"
    and 2: "hlist_for_each_safe (\<lambda>_. ms_lists st) (geo_body (ma_vid mptr) st) (heads (ms_lists st) c) bs
      = Some (fold (geo_step (ma_vid mptr) (member_at c st)) (cands st L c) (None, False))"
    using geo_scan [OF wf] by blast
  have stop: "hlist_for_each_safe (\<lambda>_. ms_lists st) (geo_body (ma_vid mptr) st) (heads (ms_lists st) c) bs = Some bs" if "snd bs"
  proof -
    have "hlist_for_each_safe (\<lambda>_. ms_lists st) (geo_body (ma_vid mptr) st) (heads (ms_lists st) c) bs = Some (fold (\<lambda>_ b. b) (L c) bs)"
      using wf that by (intro live_for_each_safe [where I = "\<lambda>b. b = bs" and G = G]) (auto simp: geo_body_def mem_wf_def split: prod.splits)
    moreover have "fold (\<lambda>_ b. b) as bs = bs" for as :: "addr list" by (induction as) simp_all
    ultimately show ?thesis by simp
  qed
  have fst_f: "fst (fold (geo_step (ma_vid mptr) (member_at c st)) (cands st L c) (None, False)) = ?f"
    by (simp add: geo_fold first_of_view_def)
  have eq: "al_alg_geoip c mptr st = (case ?f of None \<Rightarrow> Some (None, mptr)
      | Some r \<Rightarrow> map_option (Pair (Some r)) (geo_answer (member_at c st r) mptr))"
  proof -
    obtain b where b: "fold (geo_step (ma_vid mptr) (member_at c st)) (cands st L c) (None, False) = (?f, b)"
      using fst_f by (metis prod.collapse)
    have "(if snd bs then Some bs else hlist_for_each_safe (\<lambda>_. ms_lists st) (geo_body (ma_vid mptr) st) (heads (ms_lists st) c) bs) = Some (?f, b)"
      using 2 b stop by simp
    then show ?thesis using 1 by (cases ?f) (simp_all add: al_alg_geoip_def member_at_def split: prod.splits)
  qed
  have mem: "r \<in> set (cands st L c)" if "?f = Some r" for r
    using that by (auto simp: first_of_view_def find_Some_iff split: option.splits list.splits)
  show ?thesis
  proof (cases ?f)
    case None
    then show ?thesis using eq by simp
  next
    case (Some r)
    then have "cands st L c \<noteq> []" using mem by auto
    then show ?thesis
      using eq Some mem [OF Some] types
      by (auto simp: geo_answer_def Let_def bytes_of_def DNS_Q_A_def DNS_Q_AAAA_def)
  qed
qed

theorem geoip_choice_witness:
  "\<exists>mptr'. al_alg_geoip 0 (al_margs.make 0 (al_addr_t.make 4 AF_INET 1) 0 5 0 1 (replicate 16 0) 0 0) (two_members 0 0)
    = Some (first_of_view 5 (member_at 0 (two_members 0 0)) (cands (two_members 0 0) (\<lambda>_. []) 0), mptr')"
proof -
  have "\<forall>r \<in> set (cands (two_members 0 0) (\<lambda>_. []) 0). m_type (member_at 0 (two_members 0 0) r) \<noteq> DNS_Q_NS \<and>
      m_type (member_at 0 (two_members 0 0) r) \<noteq> DNS_Q_CNAME"
    by (simp add: cands_def slots_def clusters_def member_at_def cluster_def two_members_def no_member_def upt_rec DNS_Q_NS_def DNS_Q_CNAME_def can_pick_def)
  from geoip_choice [OF two_members_wf UNIV_I this, of "al_margs.make 0 (al_addr_t.make 4 AF_INET 1) 0 5 0 1 (replicate 16 0) 0 0"]
  show ?thesis by (simp add: al_margs.make_def) blast
qed

end
