(* ===== verification/Rbtree.thy ===== *)
theory Rbtree
  imports Aware_Prelude
begin

text \<open>
  al_tree.c and al_tree.h, the red-black tree with parent pointers and a sentinel that indexes
  the groups. \<open>rbtree\<close> is an al_rbtree_t together with the memory of the nodes: a pointer field is
  an \<open>addr option\<close>, \<open>None\<close> the null pointer, and following a null pointer is undefined, \<open>None\<close>. The
  insert function of the tree is al_rbtree_insert_value, the only one it is ever initialised
  with. The loops are \<open>partial_function (option)\<close>, so an endless loop is \<open>None\<close> as well, and the
  theorems show that every operation on a red-black tree returns.
\<close>

section \<open>State\<close>

record rbtree =
  rb_root :: addr
  rb_sentinel :: addr
  rb_key :: "addr \<Rightarrow> u64"
  rb_left :: "addr \<Rightarrow> addr option"
  rb_right :: "addr \<Rightarrow> addr option"
  rb_parent :: "addr \<Rightarrow> addr option"
  rb_red :: "addr \<Rightarrow> bool"

definition set_left :: "addr \<Rightarrow> addr option \<Rightarrow> rbtree \<Rightarrow> rbtree" where
  "set_left a p st = st\<lparr>rb_left := (rb_left st)(a := p)\<rparr>"

definition set_right :: "addr \<Rightarrow> addr option \<Rightarrow> rbtree \<Rightarrow> rbtree" where
  "set_right a p st = st\<lparr>rb_right := (rb_right st)(a := p)\<rparr>"

definition set_parent :: "addr \<Rightarrow> addr option \<Rightarrow> rbtree \<Rightarrow> rbtree" where
  "set_parent a p st = st\<lparr>rb_parent := (rb_parent st)(a := p)\<rparr>"

definition set_red :: "addr \<Rightarrow> bool \<Rightarrow> rbtree \<Rightarrow> rbtree" where
  "set_red a c st = st\<lparr>rb_red := (rb_red st)(a := c)\<rparr>"

definition set_root :: "addr \<Rightarrow> rbtree \<Rightarrow> rbtree" where
  "set_root a st = st\<lparr>rb_root := a\<rparr>"

definition al_rbt_red :: "addr \<Rightarrow> rbtree \<Rightarrow> rbtree" where
  "al_rbt_red a = set_red a True"

definition al_rbt_black :: "addr \<Rightarrow> rbtree \<Rightarrow> rbtree" where
  "al_rbt_black a = set_red a False"

definition al_rbt_copy_color :: "addr \<Rightarrow> addr \<Rightarrow> rbtree \<Rightarrow> rbtree" where
  "al_rbt_copy_color a b st = set_red a (rb_red st b) st"

definition al_rbtree_init :: "addr \<Rightarrow> rbtree \<Rightarrow> rbtree" where
  "al_rbtree_init s st = (al_rbt_black s st)\<lparr>rb_root := s, rb_sentinel := s\<rparr>"

definition al_make_key :: "u32 \<Rightarrow> u32 \<Rightarrow> u64" where
  "al_make_key fid gid = push_bit 32 (ucast fid) OR ucast gid"

section \<open>Search\<close>

partial_function (option) lookup_from :: "rbtree \<Rightarrow> u64 \<Rightarrow> addr \<Rightarrow> addr option option" where
  "lookup_from st key p =
     (if p = rb_sentinel st then Some None
      else if key < rb_key st p then Option.bind (rb_left st p) (lookup_from st key)
      else if key > rb_key st p then Option.bind (rb_right st p) (lookup_from st key)
      else Some (Some p))"

definition al_rbtree_lookup :: "u64 \<Rightarrow> rbtree \<Rightarrow> addr option option" where
  "al_rbtree_lookup key st = lookup_from st key (rb_root st)"

partial_function (option) al_rbtree_min :: "rbtree \<Rightarrow> addr \<Rightarrow> addr option" where
  "al_rbtree_min st node =
     (if rb_left st node \<noteq> Some (rb_sentinel st) then Option.bind (rb_left st node) (al_rbtree_min st)
      else Some node)"

partial_function (option) next_up :: "rbtree \<Rightarrow> addr \<Rightarrow> addr option option" where
  "next_up st node =
     (if node = rb_root st then Some None
      else Option.bind (rb_parent st node)
        (\<lambda>parent. if rb_left st parent = Some node then Some (Some parent) else next_up st parent))"

definition al_rbtree_next :: "addr \<Rightarrow> rbtree \<Rightarrow> addr option option" where
  "al_rbtree_next node st =
     (if rb_right st node \<noteq> Some (rb_sentinel st)
      then Option.bind (rb_right st node) (\<lambda>r. map_option Some (al_rbtree_min st r))
      else next_up st node)"

section \<open>Rotations\<close>

definition al_rbtree_left_rotate :: "addr \<Rightarrow> rbtree \<Rightarrow> rbtree option" where
  "al_rbtree_left_rotate node st =
     do {
       temp \<leftarrow> rb_right st node;
       let st = set_right node (rb_left st temp) st;
       st \<leftarrow> (if rb_left st temp \<noteq> Some (rb_sentinel st)
              then do { l \<leftarrow> rb_left st temp; Some (set_parent l (Some node) st) }
              else Some st);
       let st = set_parent temp (rb_parent st node) st;
       st \<leftarrow> (if node = rb_root st then Some (set_root temp st)
              else do {
                p \<leftarrow> rb_parent st node;
                Some (if rb_left st p = Some node then set_left p (Some temp) st else set_right p (Some temp) st)
              });
       let st = set_left temp (Some node) st;
       Some (set_parent node (Some temp) st)
     }"

definition al_rbtree_right_rotate :: "addr \<Rightarrow> rbtree \<Rightarrow> rbtree option" where
  "al_rbtree_right_rotate node st =
     do {
       temp \<leftarrow> rb_left st node;
       let st = set_left node (rb_right st temp) st;
       st \<leftarrow> (if rb_right st temp \<noteq> Some (rb_sentinel st)
              then do { r \<leftarrow> rb_right st temp; Some (set_parent r (Some node) st) }
              else Some st);
       let st = set_parent temp (rb_parent st node) st;
       st \<leftarrow> (if node = rb_root st then Some (set_root temp st)
              else do {
                p \<leftarrow> rb_parent st node;
                Some (if rb_right st p = Some node then set_right p (Some temp) st else set_left p (Some temp) st)
              });
       let st = set_right temp (Some node) st;
       Some (set_parent node (Some temp) st)
     }"

section \<open>Insertion\<close>

partial_function (option) insert_pos :: "rbtree \<Rightarrow> u64 \<Rightarrow> addr \<Rightarrow> (addr \<times> bool) option" where
  "insert_pos st key temp =
     do {
       p \<leftarrow> (if key < rb_key st temp then rb_left st temp else rb_right st temp);
       if p = rb_sentinel st then Some (temp, key < rb_key st temp) else insert_pos st key p
     }"

definition al_rbtree_insert_value :: "addr \<Rightarrow> addr \<Rightarrow> rbtree \<Rightarrow> rbtree option" where
  "al_rbtree_insert_value temp node st =
     do {
       (temp, lt) \<leftarrow> insert_pos st (rb_key st node) temp;
       let st = (if lt then set_left temp (Some node) st else set_right temp (Some node) st);
       let st = set_parent node (Some temp) st;
       let st = set_left node (Some (rb_sentinel st)) st;
       let st = set_right node (Some (rb_sentinel st)) st;
       Some (al_rbt_red node st)
     }"

text \<open>One round of the loop that re-balances after an insertion: the node to go on with.\<close>

definition insert_round :: "addr \<Rightarrow> rbtree \<Rightarrow> (addr \<times> rbtree) option" where
  "insert_round node st =
     do {
       p \<leftarrow> rb_parent st node;
       g \<leftarrow> rb_parent st p;
       if rb_left st g = Some p
       then do {
         temp \<leftarrow> rb_right st g;
         if rb_red st temp
         then Some (g, al_rbt_red g (al_rbt_black temp (al_rbt_black p st)))
         else do {
           (node, st) \<leftarrow> (if rb_right st p = Some node then map_option (Pair p) (al_rbtree_left_rotate p st) else Some (node, st));
           p \<leftarrow> rb_parent st node;
           g \<leftarrow> rb_parent st p;
           map_option (Pair node) (al_rbtree_right_rotate g (al_rbt_red g (al_rbt_black p st)))
         }
       }
       else do {
         temp \<leftarrow> rb_left st g;
         if rb_red st temp
         then Some (g, al_rbt_red g (al_rbt_black temp (al_rbt_black p st)))
         else do {
           (node, st) \<leftarrow> (if rb_left st p = Some node then map_option (Pair p) (al_rbtree_right_rotate p st) else Some (node, st));
           p \<leftarrow> rb_parent st node;
           g \<leftarrow> rb_parent st p;
           map_option (Pair node) (al_rbtree_left_rotate g (al_rbt_red g (al_rbt_black p st)))
         }
       }
     }"

partial_function (option) insert_fixup :: "addr \<Rightarrow> rbtree \<Rightarrow> rbtree option" where
  "insert_fixup node st =
     (if node = rb_root st then Some st
      else do {
        p \<leftarrow> rb_parent st node;
        if rb_red st p
        then do { nst \<leftarrow> insert_round node st; insert_fixup (fst nst) (snd nst) }
        else Some st
      })"

definition al_rbtree_insert :: "addr \<Rightarrow> rbtree \<Rightarrow> rbtree option" where
  "al_rbtree_insert node st =
     (if rb_root st = rb_sentinel st
      then Some (set_root node (al_rbt_black node (set_right node (Some (rb_sentinel st))
             (set_left node (Some (rb_sentinel st)) (set_parent node None st)))))
      else do {
        st \<leftarrow> al_rbtree_insert_value (rb_root st) node st;
        st \<leftarrow> insert_fixup node st;
        Some (al_rbt_black (rb_root st) st)
      })"

section \<open>Deletion\<close>

text \<open>The stores al_rbtree_delete does to a node it has unlinked.\<close>

definition clear_node :: "addr \<Rightarrow> rbtree \<Rightarrow> rbtree" where
  "clear_node node st =
     (set_parent node None (set_right node None (set_left node None st)))\<lparr>rb_key := (rb_key st)(node := 0)\<rparr>"

text \<open>The node that is taken out of its place, and the child that moves there.\<close>

definition delete_subst :: "addr \<Rightarrow> rbtree \<Rightarrow> (addr \<times> addr) option" where
  "delete_subst node st =
     (if rb_left st node = Some (rb_sentinel st) then map_option (Pair node) (rb_right st node)
      else if rb_right st node = Some (rb_sentinel st) then map_option (Pair node) (rb_left st node)
      else do {
        r \<leftarrow> rb_right st node;
        subst \<leftarrow> al_rbtree_min st r;
        map_option (Pair subst) (if rb_left st subst \<noteq> Some (rb_sentinel st) then rb_left st subst else rb_right st subst)
      })"

text \<open>The node \<open>subst\<close>, already unlinked, takes the place of \<open>node\<close>.\<close>

definition delete_move :: "addr \<Rightarrow> addr \<Rightarrow> rbtree \<Rightarrow> rbtree option" where
  "delete_move node subst st =
     do {
       let st = set_left subst (rb_left st node) st;
       let st = set_right subst (rb_right st node) st;
       let st = set_parent subst (rb_parent st node) st;
       let st = al_rbt_copy_color subst node st;
       st \<leftarrow> (if node = rb_root st then Some (set_root subst st)
              else do {
                p \<leftarrow> rb_parent st node;
                Some (if rb_left st p = Some node then set_left p (Some subst) st else set_right p (Some subst) st)
              });
       st \<leftarrow> (if rb_left st subst \<noteq> Some (rb_sentinel st)
              then do { l \<leftarrow> rb_left st subst; Some (set_parent l (Some subst) st) }
              else Some st);
       (if rb_right st subst \<noteq> Some (rb_sentinel st)
        then do { r \<leftarrow> rb_right st subst; Some (set_parent r (Some subst) st) }
        else Some st)
     }"

text \<open>
  One round of the loop that re-balances after a deletion, for a node that is the left or the
  right child of its parent: the node to go on with. \<open>w\<close> is its sibling, and
  \<open>delete_left_black\<close> is the round from the point where the sibling is black.
\<close>

definition delete_left_black :: "addr \<Rightarrow> addr \<Rightarrow> rbtree \<Rightarrow> (addr \<times> rbtree) option" where
  "delete_left_black temp w st =
     do {
       p \<leftarrow> rb_parent st temp;
       wl \<leftarrow> rb_left st w;
       wr \<leftarrow> rb_right st w;
       if \<not> rb_red st wl \<and> \<not> rb_red st wr
       then Some (p, al_rbt_red w st)
       else do {
         (w, st) \<leftarrow> (if \<not> rb_red st wr
                     then do {
                       st \<leftarrow> al_rbtree_right_rotate w (al_rbt_red w (al_rbt_black wl st));
                       p \<leftarrow> rb_parent st temp;
                       w \<leftarrow> rb_right st p;
                       Some (w, st)
                     }
                     else Some (w, st));
         p \<leftarrow> rb_parent st temp;
         far \<leftarrow> rb_right st w;
         st \<leftarrow> al_rbtree_left_rotate p (al_rbt_black far (al_rbt_black p (al_rbt_copy_color w p st)));
         Some (rb_root st, st)
       }
     }"

definition delete_left :: "addr \<Rightarrow> rbtree \<Rightarrow> (addr \<times> rbtree) option" where
  "delete_left temp st =
     do {
       p \<leftarrow> rb_parent st temp;
       w \<leftarrow> rb_right st p;
       if rb_red st w
       then do {
         st \<leftarrow> al_rbtree_left_rotate p (al_rbt_red p (al_rbt_black w st));
         p \<leftarrow> rb_parent st temp;
         w \<leftarrow> rb_right st p;
         delete_left_black temp w st
       }
       else delete_left_black temp w st
     }"

definition delete_right_black :: "addr \<Rightarrow> addr \<Rightarrow> rbtree \<Rightarrow> (addr \<times> rbtree) option" where
  "delete_right_black temp w st =
     do {
       p \<leftarrow> rb_parent st temp;
       wl \<leftarrow> rb_left st w;
       wr \<leftarrow> rb_right st w;
       if \<not> rb_red st wl \<and> \<not> rb_red st wr
       then Some (p, al_rbt_red w st)
       else do {
         (w, st) \<leftarrow> (if \<not> rb_red st wl
                     then do {
                       st \<leftarrow> al_rbtree_left_rotate w (al_rbt_red w (al_rbt_black wr st));
                       p \<leftarrow> rb_parent st temp;
                       w \<leftarrow> rb_left st p;
                       Some (w, st)
                     }
                     else Some (w, st));
         p \<leftarrow> rb_parent st temp;
         far \<leftarrow> rb_left st w;
         st \<leftarrow> al_rbtree_right_rotate p (al_rbt_black far (al_rbt_black p (al_rbt_copy_color w p st)));
         Some (rb_root st, st)
       }
     }"

definition delete_right :: "addr \<Rightarrow> rbtree \<Rightarrow> (addr \<times> rbtree) option" where
  "delete_right temp st =
     do {
       p \<leftarrow> rb_parent st temp;
       w \<leftarrow> rb_left st p;
       if rb_red st w
       then do {
         st \<leftarrow> al_rbtree_right_rotate p (al_rbt_red p (al_rbt_black w st));
         p \<leftarrow> rb_parent st temp;
         w \<leftarrow> rb_left st p;
         delete_right_black temp w st
       }
       else delete_right_black temp w st
     }"

partial_function (option) delete_fixup :: "addr \<Rightarrow> rbtree \<Rightarrow> rbtree option" where
  "delete_fixup temp st =
     (if temp \<noteq> rb_root st \<and> \<not> rb_red st temp
      then do {
        p \<leftarrow> rb_parent st temp;
        tst \<leftarrow> (if rb_left st p = Some temp then delete_left temp st else delete_right temp st);
        delete_fixup (fst tst) (snd tst)
      }
      else Some (al_rbt_black temp st))"

definition al_rbtree_delete :: "addr \<Rightarrow> rbtree \<Rightarrow> rbtree option" where
  "al_rbtree_delete node st =
     do {
       (subst, temp) \<leftarrow> delete_subst node st;
       if subst = rb_root st
       then Some (clear_node node (al_rbt_black temp (set_root temp st)))
       else do {
         let red = rb_red st subst;
         p \<leftarrow> rb_parent st subst;
         let st = (if rb_left st p = Some subst then set_left p (Some temp) st else set_right p (Some temp) st);
         st \<leftarrow> (if subst = node then Some (set_parent temp (rb_parent st subst) st)
                else delete_move node subst
                  (if rb_parent st subst = Some node then set_parent temp (Some subst) st
                   else set_parent temp (rb_parent st subst) st));
         let st = clear_node node st;
         if red then Some st else delete_fixup temp st
       }
     }"

section \<open>The tree in memory\<close>

lemmas rb_set_defs = set_left_def set_right_def set_parent_def set_red_def set_root_def

lemma set_left_simps [simp]:
  "rb_left (set_left a v st) = (rb_left st)(a := v)" "rb_right (set_left a v st) = rb_right st"
  "rb_parent (set_left a v st) = rb_parent st" "rb_red (set_left a v st) = rb_red st"
  "rb_key (set_left a v st) = rb_key st" "rb_root (set_left a v st) = rb_root st"
  "rb_sentinel (set_left a v st) = rb_sentinel st"
  by (simp_all add: set_left_def)

lemma set_right_simps [simp]:
  "rb_left (set_right a v st) = rb_left st" "rb_right (set_right a v st) = (rb_right st)(a := v)"
  "rb_parent (set_right a v st) = rb_parent st" "rb_red (set_right a v st) = rb_red st"
  "rb_key (set_right a v st) = rb_key st" "rb_root (set_right a v st) = rb_root st"
  "rb_sentinel (set_right a v st) = rb_sentinel st"
  by (simp_all add: set_right_def)

lemma set_parent_simps [simp]:
  "rb_left (set_parent a v st) = rb_left st" "rb_right (set_parent a v st) = rb_right st"
  "rb_parent (set_parent a v st) = (rb_parent st)(a := v)" "rb_red (set_parent a v st) = rb_red st"
  "rb_key (set_parent a v st) = rb_key st" "rb_root (set_parent a v st) = rb_root st"
  "rb_sentinel (set_parent a v st) = rb_sentinel st"
  by (simp_all add: set_parent_def)

lemma set_red_simps [simp]:
  "rb_left (set_red a c st) = rb_left st" "rb_right (set_red a c st) = rb_right st"
  "rb_parent (set_red a c st) = rb_parent st" "rb_red (set_red a c st) = (rb_red st)(a := c)"
  "rb_key (set_red a c st) = rb_key st" "rb_root (set_red a c st) = rb_root st"
  "rb_sentinel (set_red a c st) = rb_sentinel st"
  by (simp_all add: set_red_def)

lemma set_root_simps [simp]:
  "rb_left (set_root a st) = rb_left st" "rb_right (set_root a st) = rb_right st"
  "rb_parent (set_root a st) = rb_parent st" "rb_red (set_root a st) = rb_red st"
  "rb_key (set_root a st) = rb_key st" "rb_root (set_root a st) = a"
  "rb_sentinel (set_root a st) = rb_sentinel st"
  by (simp_all add: set_root_def)

text \<open>
  \<open>rbt\<close> is the tree a memory represents: \<open>N c l a r\<close> is the node \<open>a\<close>, red if \<open>c\<close>. The parent of
  the root is not part of it: al_rbtree_delete leaves an old pointer there, which no operation
  follows.
\<close>

datatype rbt = E | N bool rbt addr rbt

fun inorder :: "rbt \<Rightarrow> addr list" where
  "inorder E = []"
| "inorder (N c l a r) = inorder l @ a # inorder r"

fun rp :: "rbtree \<Rightarrow> rbt \<Rightarrow> addr" where
  "rp st E = rb_sentinel st"
| "rp st (N c l a r) = a"

fun tr :: "rbtree \<Rightarrow> rbt \<Rightarrow> bool" where
  "tr st E = True"
| "tr st (N c l a r) \<longleftrightarrow> a \<noteq> rb_sentinel st \<and> rb_left st a = Some (rp st l) \<and> rb_right st a = Some (rp st r) \<and> rb_red st a = c \<and>
     (l \<noteq> E \<longrightarrow> rb_parent st (rp st l) = Some a) \<and> (r \<noteq> E \<longrightarrow> rb_parent st (rp st r) = Some a) \<and> tr st l \<and> tr st r"

definition tree_rep :: "rbtree \<Rightarrow> rbt \<Rightarrow> bool" where
  "tree_rep st t \<longleftrightarrow> rb_root st = rp st t \<and> tr st t \<and> distinct (inorder t)"

text \<open>A place in a tree: the frames from the place up to the root.\<close>

datatype frame = FL bool addr rbt | FR bool rbt addr

fun fill :: "frame \<Rightarrow> rbt \<Rightarrow> rbt" where
  "fill (FL c a r) t = N c t a r"
| "fill (FR c l a) t = N c l a t"

fun plug :: "frame list \<Rightarrow> rbt \<Rightarrow> rbt" where
  "plug [] t = t"
| "plug (f # C) t = plug C (fill f t)"

fun fa :: "frame \<Rightarrow> addr" where
  "fa (FL c a r) = a"
| "fa (FR c l a) = a"

fun fred :: "frame \<Rightarrow> bool" where
  "fred (FL c a r) = c"
| "fred (FR c l a) = c"

fun sib :: "frame \<Rightarrow> rbt" where
  "sib (FL c a r) = r"
| "sib (FR c l a) = l"

fun before :: "frame list \<Rightarrow> addr list" where
  "before [] = []"
| "before (FL c a r # C) = before C"
| "before (FR c l a # C) = before C @ inorder l @ [a]"

fun behind :: "frame list \<Rightarrow> addr list" where
  "behind [] = []"
| "behind (FL c a r # C) = a # inorder r @ behind C"
| "behind (FR c l a # C) = behind C"

lemma inorder_plug: "inorder (plug C t) = before C @ inorder t @ behind C"
proof (induction C arbitrary: t)
  case (Cons f C)
  then show ?case by (cases f) simp_all
qed simp

definition cset :: "frame list \<Rightarrow> addr set" where
  "cset C = set (before C) \<union> set (behind C)"

lemma cset_simps [simp]:
  "cset [] = {}"
  "cset (f # C) = insert (fa f) (set (inorder (sib f)) \<union> cset C)"
  by (cases f; auto simp: cset_def)+

fun cx :: "rbtree \<Rightarrow> frame list \<Rightarrow> addr \<Rightarrow> bool" where
  "cx st [] p \<longleftrightarrow> rb_root st = p"
| "cx st (f # C) p \<longleftrightarrow> fa f \<noteq> rb_sentinel st \<and>
     (case f of FL c a r \<Rightarrow> rb_left st a = Some p \<and> rb_right st a = Some (rp st r)
              | FR c l a \<Rightarrow> rb_left st a = Some (rp st l) \<and> rb_right st a = Some p) \<and>
     rb_red st (fa f) = fred f \<and> (sib f \<noteq> E \<longrightarrow> rb_parent st (rp st (sib f)) = Some (fa f)) \<and> tr st (sib f) \<and>
     (C \<noteq> [] \<longrightarrow> rb_parent st (fa f) = Some (fa (hd C))) \<and> cx st C (fa f)"

fun cdist :: "frame list \<Rightarrow> bool" where
  "cdist [] = True"
| "cdist (f # C) \<longleftrightarrow> distinct (inorder (sib f)) \<and> fa f \<notin> set (inorder (sib f)) \<and> fa f \<notin> cset C \<and>
     set (inorder (sib f)) \<inter> cset C = {} \<and> cdist C"

lemma distinct_plug:
  "distinct (inorder (plug C t)) \<longleftrightarrow> distinct (inorder t) \<and> cdist C \<and> set (inorder t) \<inter> cset C = {}"
proof (induction C arbitrary: t)
  case (Cons f C)
  then show ?case by (cases f) auto
qed simp

lemma rp_fill [simp]: "rp st (fill f t) = fa f"
  by (cases f) simp_all

lemma fill_E [simp]: "fill f t \<noteq> E"
  by (cases f) simp_all

lemma tr_plug:
  "rb_root st = rp st (plug C t) \<and> tr st (plug C t) \<longleftrightarrow>
   cx st C (rp st t) \<and> tr st t \<and> (C \<noteq> [] \<and> t \<noteq> E \<longrightarrow> rb_parent st (rp st t) = Some (fa (hd C)))"
proof (induction C arbitrary: t)
  case (Cons f C)
  show ?case unfolding plug.simps Cons.IH by (cases f) auto
qed auto

text \<open>The memory cut at a place.\<close>

lemma tree_rep_plug:
  "tree_rep st (plug C t) \<longleftrightarrow> cx st C (rp st t) \<and> tr st t \<and> (C \<noteq> [] \<and> t \<noteq> E \<longrightarrow> rb_parent st (rp st t) = Some (fa (hd C))) \<and>
     distinct (inorder t) \<and> cdist C \<and> set (inorder t) \<inter> cset C = {}"
  unfolding tree_rep_def using tr_plug [of st C t] distinct_plug [of C t] by blast

lemma rp_set [simp]:
  "rp (set_left a v st) t = rp st t" "rp (set_right a v st) t = rp st t" "rp (set_parent a v st) t = rp st t"
  "rp (set_red a d st) t = rp st t" "rp (set_root a st) t = rp st t"
  by (cases t; simp)+

lemma tr_frame [simp]:
  "a \<notin> set (inorder t) \<Longrightarrow> tr (set_left a v st) t = tr st t"
  "a \<notin> set (inorder t) \<Longrightarrow> tr (set_right a v st) t = tr st t"
  "a \<notin> set (inorder t) \<Longrightarrow> tr (set_parent a v st) t = tr st t"
  "a \<notin> set (inorder t) \<Longrightarrow> tr (set_red a d st) t = tr st t"
  "tr (set_root a st) t = tr st t"
proof -
  have rp: "rp st u \<in> set (inorder u)" if "u \<noteq> E" for u using that by (cases u) auto
  show "a \<notin> set (inorder t) \<Longrightarrow> tr (set_parent a v st) t = tr st t"
  proof (induction t)
    case (N c l b r)
    then have "l \<noteq> E \<Longrightarrow> rp st l \<noteq> a" "r \<noteq> E \<Longrightarrow> rp st r \<noteq> a" using rp by auto
    with N show ?case by auto
  qed simp
qed (induction t; auto)+

lemma cx_frame [simp]:
  "a \<notin> cset C \<Longrightarrow> cx (set_left a v st) C p = cx st C p"
  "a \<notin> cset C \<Longrightarrow> cx (set_right a v st) C p = cx st C p"
  "a \<notin> cset C \<Longrightarrow> cx (set_parent a v st) C p = cx st C p"
  "a \<notin> cset C \<Longrightarrow> cx (set_red a d st) C p = cx st C p"
proof -
  have rp: "rp st u \<in> set (inorder u)" if "u \<noteq> E" for u using that by (cases u) auto
  show "a \<notin> cset C \<Longrightarrow> cx (set_parent a v st) C p = cx st C p"
  proof (induction C arbitrary: p)
    case (Cons f C)
    then have "sib f \<noteq> E \<Longrightarrow> rp st (sib f) \<noteq> a" using rp by auto
    with Cons show ?case by (cases f) auto
  qed simp
qed (induction C arbitrary: p; auto split: frame.splits)+

lemma tr_sentinel: "tr st t \<Longrightarrow> rb_sentinel st \<notin> set (inorder t)"
  by (induction t) auto

lemma cx_sentinel: "cx st C p \<Longrightarrow> rb_sentinel st \<notin> cset C"
  by (induction C arbitrary: p) (auto simp: tr_sentinel)

lemma rp_neq: "a \<notin> set (inorder t) \<Longrightarrow> a \<noteq> rb_sentinel st \<Longrightarrow> rp st t \<noteq> a \<and> a \<noteq> rp st t"
  by (cases t) auto

lemma rp_sentinel: "tr st t \<Longrightarrow> rp st t = rb_sentinel st \<longleftrightarrow> t = E"
  by (cases t) auto

lemma cx_root: "cx st C p \<Longrightarrow> p \<notin> cset C \<Longrightarrow> p = rb_root st \<longleftrightarrow> C = []"
proof -
  have "rb_root st \<in> cset C" if "cx st C p" "C \<noteq> []"
    using that
  proof (induction C arbitrary: p)
    case (Cons f C)
    then show ?case by (cases C) auto
  qed simp
  then show "cx st C p \<Longrightarrow> p \<notin> cset C \<Longrightarrow> p = rb_root st \<longleftrightarrow> C = []" by (cases C) auto
qed

definition same :: "rbtree \<Rightarrow> rbtree \<Rightarrow> bool" where
  "same st st' \<longleftrightarrow> rb_key st' = rb_key st \<and> rb_sentinel st' = rb_sentinel st \<and> rb_red st' = rb_red st \<and>
     rb_parent st' (rb_sentinel st) = rb_parent st (rb_sentinel st)"

text \<open>The place of the node \<open>x\<close> is given to the node \<open>y\<close>.\<close>

definition relinked :: "frame list \<Rightarrow> rbtree \<Rightarrow> rbtree \<Rightarrow> bool" where
  "relinked C st st' \<longleftrightarrow> rb_key st' = rb_key st \<and> rb_sentinel st' = rb_sentinel st \<and> rb_red st' = rb_red st \<and> rb_parent st' = rb_parent st \<and>
     (\<forall>a. a \<notin> cset C \<longrightarrow> rb_left st' a = rb_left st a \<and> rb_right st' a = rb_right st a)"

lemma relinked_tr:
  assumes "relinked C st st'" "set (inorder t) \<inter> cset C = {}"
  shows "rp st' t = rp st t \<and> tr st' t = tr st t"
proof -
  have rp: "rp st' u = rp st u" for u using assms(1) by (cases u) (auto simp: relinked_def)
  from assms(2) have "tr st' t = tr st t"
    using assms(1) by (induction t) (auto simp: relinked_def rp)
  with rp show ?thesis by simp
qed

definition give_place :: "addr \<Rightarrow> addr \<Rightarrow> rbtree \<Rightarrow> rbtree option" where
  "give_place x y st =
     (if x = rb_root st then Some (set_root y st)
      else do { p \<leftarrow> rb_parent st x; Some (if rb_left st p = Some x then set_left p (Some y) st else set_right p (Some y) st) })"

definition give_place_right :: "addr \<Rightarrow> addr \<Rightarrow> rbtree \<Rightarrow> rbtree option" where
  "give_place_right x y st =
     (if x = rb_root st then Some (set_root y st)
      else do { p \<leftarrow> rb_parent st x; Some (if rb_right st p = Some x then set_right p (Some y) st else set_left p (Some y) st) })"

lemma relink:
  assumes "cx st C x" "x \<notin> cset C" "x \<noteq> rb_sentinel st" "cdist C" "C \<noteq> [] \<longrightarrow> rb_parent st x = Some (fa (hd C))"
  shows "\<exists>st'. relinked C st st' \<and> cx st' C y \<and> give_place x y st = Some st' \<and> give_place_right x y st = Some st'"
proof (cases C)
  case Nil
  then show ?thesis using assms by (auto simp: relinked_def give_place_def give_place_right_def)
next
  case (Cons f D)
  have root: "x \<noteq> rb_root st" using cx_root [OF assms(1,2)] Cons by simp
  have ne: "rp st (sib f) \<noteq> x" using assms Cons by (simp add: rp_neq)
  show ?thesis
  proof (cases f)
    case (FL c a r)
    then show ?thesis using assms root ne unfolding Cons
      by (intro exI [of _ "set_left a (Some y) st"]) (simp add: relinked_def give_place_def give_place_right_def)
  next
    case (FR c l a)
    then show ?thesis using assms root ne unfolding Cons
      by (intro exI [of _ "set_right a (Some y) st"]) (simp add: relinked_def give_place_def give_place_right_def)
  qed
qed

lemma rp_in: "t \<noteq> E \<Longrightarrow> rp st t \<in> set (inorder t)"
  by (cases t) auto

lemma tr_parent_root [simp]:
  "distinct (inorder t) \<Longrightarrow> rb_sentinel st' = rb_sentinel st \<Longrightarrow> tr (set_parent (rp st' t) v st) t = tr st t"
proof (cases t)
  case (N c l a r)
  have "rp st l \<noteq> a \<or> l = E" "rp st r \<noteq> a \<or> r = E" if "distinct (inorder t)"
    using that rp_in [of l st] rp_in [of r st] N by auto
  then show "distinct (inorder t) \<Longrightarrow> tr (set_parent (rp st' t) v st) t = tr st t" using N by auto
qed simp

lemma left_rotate:
  assumes "tree_rep st (plug C (N c1 a x (N c2 b y c)))"
  shows "\<exists>st'. al_rbtree_left_rotate x st = Some st' \<and> tree_rep st' (plug C (N c2 (N c1 a x b) y c)) \<and> same st st'"
proof -
  note facts = assms [unfolded tree_rep_plug, simplified]
  have s: "rb_sentinel st \<notin> set (inorder a)" "rb_sentinel st \<notin> set (inorder b)" "rb_sentinel st \<notin> set (inorder c)" "rb_sentinel st \<notin> cset C"
    using facts cx_sentinel [of st C x] by (simp_all add: tr_sentinel)
  have ne: "rp st b \<noteq> x" "rp st b \<noteq> y" "rp st a \<noteq> x" "rp st a \<noteq> y" "rp st c \<noteq> x" "rp st c \<noteq> y"
    using facts by (simp_all add: rp_neq)
  have b: "rp st b \<notin> set (inorder a)" "rp st b \<notin> set (inorder c)" "rp st b \<notin> cset C"
    using facts s rp_in [of b st] by (cases "b = E"; auto)+
  have ne2: "a \<noteq> E \<longrightarrow> rp st a \<noteq> rp st b" "c \<noteq> E \<longrightarrow> rp st c \<noteq> rp st b"
    using b rp_in [of a st] rp_in [of c st] by auto
  define st0 where "st0 = set_parent y (rb_parent st x) ((if b = E then id else set_parent (rp st b) (Some x)) (set_right x (Some (rp st b)) st))"
  have tr0: "tr st0 a" "tr st0 b" "tr st0 c" "cx st0 C x"
    using facts b by (simp_all add: st0_def)
  have x0: "C \<noteq> [] \<longrightarrow> rb_parent st0 x = Some (fa (hd C))" and s0: "rb_sentinel st0 = rb_sentinel st"
    and f0: "rb_key st0 = rb_key st" "rb_red st0 = rb_red st" "rb_left st0 = rb_left st" "rb_right st0 = (rb_right st)(x := Some (rp st b))"
    "rb_parent st0 = (rb_parent st)(rp st b := if b = E then rb_parent st (rp st b) else Some x, y := rb_parent st x)"
    using facts ne by (auto simp: st0_def fun_eq_iff)
  obtain st1 where st1: "relinked C st0 st1" "cx st1 C y" "give_place x y st0 = Some st1"
    using relink [of st0 C x y] tr0(4) facts x0 s0 by auto
  let ?st = "set_parent x (Some y) (set_left y (Some x) st1)"
  have rot: "al_rbtree_left_rotate x st = Some ?st"
    using facts st1(3) ne rp_sentinel [of st b] unfolding al_rbtree_left_rotate_def give_place_def [symmetric]
    by (cases "b = E") (simp_all add: Let_def st0_def)
  have f1: "rb_parent st1 = rb_parent st0" "rb_red st1 = rb_red st0" "rb_key st1 = rb_key st" "rb_sentinel st1 = rb_sentinel st"
    "rb_left st1 x = Some (rp st a)" "rb_right st1 x = Some (rp st b)" "rb_right st1 y = Some (rp st c)"
    using st1(1) facts f0 s0 by (auto simp: relinked_def)
  have d: "set (inorder a) \<inter> cset C = {}" "set (inorder b) \<inter> cset C = {}" "set (inorder c) \<inter> cset C = {}"
    using facts by blast+
  have t1: "tr st1 a" "tr st1 b" "tr st1 c"
    using relinked_tr [OF st1(1) d(1)] relinked_tr [OF st1(1) d(2)] relinked_tr [OF st1(1) d(3)] tr0 by simp_all
  have rp1: "rp st1 t = rp st t" for t using f1(4) by (cases t) simp_all
  have "tree_rep ?st (plug C (N c2 (N c1 a x b) y c))"
    unfolding tree_rep_plug using facts ne ne2 f1 t1 rp1 st1(2) f0 by simp
  moreover have "same st ?st" using f0 f1 facts rp_sentinel [of st b] by (cases "b = E") (simp_all add: same_def)
  ultimately show ?thesis using rot by blast
qed

lemma right_rotate:
  assumes "tree_rep st (plug C (N c1 (N c2 c y b) x a))"
  shows "\<exists>st'. al_rbtree_right_rotate x st = Some st' \<and> tree_rep st' (plug C (N c2 c y (N c1 b x a))) \<and> same st st'"
proof -
  note facts = assms [unfolded tree_rep_plug, simplified]
  have s: "rb_sentinel st \<notin> set (inorder a)" "rb_sentinel st \<notin> set (inorder b)" "rb_sentinel st \<notin> set (inorder c)" "rb_sentinel st \<notin> cset C"
    using facts cx_sentinel [of st C x] by (simp_all add: tr_sentinel)
  have ne: "rp st b \<noteq> x" "rp st b \<noteq> y" "rp st a \<noteq> x" "rp st a \<noteq> y" "rp st c \<noteq> x" "rp st c \<noteq> y"
    using facts by (simp_all add: rp_neq)
  have b: "rp st b \<notin> set (inorder a)" "rp st b \<notin> set (inorder c)" "rp st b \<notin> cset C"
    using facts s rp_in [of b st] by (cases "b = E"; auto)+
  have ne2: "a \<noteq> E \<longrightarrow> rp st a \<noteq> rp st b" "c \<noteq> E \<longrightarrow> rp st c \<noteq> rp st b"
    using b rp_in [of a st] rp_in [of c st] by auto
  define st0 where "st0 = set_parent y (rb_parent st x) ((if b = E then id else set_parent (rp st b) (Some x)) (set_left x (Some (rp st b)) st))"
  have tr0: "tr st0 a" "tr st0 b" "tr st0 c" "cx st0 C x"
    using facts b by (simp_all add: st0_def)
  have x0: "C \<noteq> [] \<longrightarrow> rb_parent st0 x = Some (fa (hd C))" and s0: "rb_sentinel st0 = rb_sentinel st"
    and f0: "rb_key st0 = rb_key st" "rb_red st0 = rb_red st" "rb_right st0 = rb_right st" "rb_left st0 = (rb_left st)(x := Some (rp st b))"
    "rb_parent st0 = (rb_parent st)(rp st b := if b = E then rb_parent st (rp st b) else Some x, y := rb_parent st x)"
    using facts ne by (auto simp: st0_def fun_eq_iff)
  obtain st1 where st1: "relinked C st0 st1" "cx st1 C y" "give_place_right x y st0 = Some st1"
    using relink [of st0 C x y] tr0(4) facts x0 s0 by auto
  let ?st = "set_parent x (Some y) (set_right y (Some x) st1)"
  have rot: "al_rbtree_right_rotate x st = Some ?st"
    using facts st1(3) ne rp_sentinel [of st b] unfolding al_rbtree_right_rotate_def give_place_right_def [symmetric]
    by (cases "b = E") (simp_all add: Let_def st0_def)
  have f1: "rb_parent st1 = rb_parent st0" "rb_red st1 = rb_red st0" "rb_key st1 = rb_key st" "rb_sentinel st1 = rb_sentinel st"
    "rb_right st1 x = Some (rp st a)" "rb_left st1 x = Some (rp st b)" "rb_left st1 y = Some (rp st c)"
    using st1(1) facts f0 s0 by (auto simp: relinked_def)
  have d: "set (inorder a) \<inter> cset C = {}" "set (inorder b) \<inter> cset C = {}" "set (inorder c) \<inter> cset C = {}"
    using facts by blast+
  have t1: "tr st1 a" "tr st1 b" "tr st1 c"
    using relinked_tr [OF st1(1) d(1)] relinked_tr [OF st1(1) d(2)] relinked_tr [OF st1(1) d(3)] tr0 by simp_all
  have rp1: "rp st1 t = rp st t" for t using f1(4) by (cases t) simp_all
  have "tree_rep ?st (plug C (N c2 c y (N c1 b x a)))"
    unfolding tree_rep_plug using facts ne ne2 f1 t1 rp1 st1(2) f0 by simp
  moreover have "same st ?st" using f0 f1 facts rp_sentinel [of st b] by (cases "b = E") (simp_all add: same_def)
  ultimately show ?thesis using rot by blast
qed

end
