(* ===== verification/Rbtree_Insert.thy ===== *)
theory Rbtree_Insert
  imports Rbtree
begin

text \<open>
  Insertion into the red-black tree of al_tree.c: the invariant on colours and black heights, the
  rounds of the loop that re-balances, and that al_rbtree_insert keeps the tree a sorted
  red-black tree. Search and the order of the nodes follow from the same invariant.
\<close>

section \<open>Colours and heights\<close>

fun bh :: "rbt \<Rightarrow> nat" where
  "bh E = 0"
| "bh (N c l a r) = (if c then bh l else Suc (bh l))"

fun isred :: "rbt \<Rightarrow> bool" where
  "isred E = False"
| "isred (N c l a r) = c"

fun rbinv :: "rbt \<Rightarrow> bool" where
  "rbinv E = True"
| "rbinv (N c l a r) \<longleftrightarrow> bh l = bh r \<and> (c \<longrightarrow> \<not> isred l \<and> \<not> isred r) \<and> rbinv l \<and> rbinv r"

text \<open>A place where a tree of black height \<open>n\<close> fits in.\<close>

fun cinv :: "frame list \<Rightarrow> nat \<Rightarrow> bool" where
  "cinv [] n = True"
| "cinv (f # C) n \<longleftrightarrow> rbinv (sib f) \<and> bh (sib f) = n \<and> (fred f \<longrightarrow> \<not> isred (sib f) \<and> C \<noteq> [] \<and> \<not> fred (hd C)) \<and>
     cinv C (if fred f then n else Suc n)"

lemma inv_plug:
  "rbinv (plug C t) \<and> \<not> isred (plug C t) \<longleftrightarrow> cinv C (bh t) \<and> rbinv t \<and> (isred t \<longrightarrow> C \<noteq> [] \<and> \<not> fred (hd C))"
proof (induction C arbitrary: t)
  case (Cons f C)
  show ?case unfolding plug.simps Cons.IH by (cases f) auto
qed auto

lemma red_rp: "tr st t \<Longrightarrow> \<not> rb_red st (rb_sentinel st) \<Longrightarrow> rb_red st (rp st t) = isred t"
  by (cases t) auto

definition keeps :: "rbtree \<Rightarrow> rbtree \<Rightarrow> bool" where
  "keeps st st' \<longleftrightarrow> rb_key st' = rb_key st \<and> rb_sentinel st' = rb_sentinel st \<and>
     rb_red st' (rb_sentinel st) = rb_red st (rb_sentinel st) \<and> rb_parent st' (rb_sentinel st) = rb_parent st (rb_sentinel st)"

lemma keeps_refl [simp]: "keeps st st"
  by (simp add: keeps_def)

lemma keeps_trans [trans]: "keeps st st' \<Longrightarrow> keeps st' st'' \<Longrightarrow> keeps st st''"
  by (simp add: keeps_def)

lemma same_keeps: "same st st' \<Longrightarrow> keeps st st'"
  by (simp add: same_def keeps_def)

lemma keeps_red: "keeps st st' \<Longrightarrow> \<not> rb_red st (rb_sentinel st) \<Longrightarrow> \<not> rb_red st' (rb_sentinel st')"
  by (simp add: keeps_def)

lemma recolor:
  assumes "tree_rep st (plug C (N c l a r))"
  shows "tree_rep (set_red a d st) (plug C (N d l a r)) \<and> keeps st (set_red a d st)"
  using assms by (simp add: tree_rep_plug keeps_def)

lemmas recolor_rep = recolor [THEN conjunct1] and recolor_keeps = recolor [THEN conjunct2]

lemma left_rotateE:
  assumes "tree_rep st (plug C (N c1 a x (N c2 b y c)))"
  obtains st' where "al_rbtree_left_rotate x st = Some st'" "tree_rep st' (plug C (N c2 (N c1 a x b) y c))" "keeps st st'"
  using left_rotate [OF assms] same_keeps by blast

lemma right_rotateE:
  assumes "tree_rep st (plug C (N c1 (N c2 c y b) x a))"
  obtains st' where "al_rbtree_right_rotate x st = Some st'" "tree_rep st' (plug C (N c2 c y (N c1 b x a)))" "keeps st st'"
  using right_rotate [OF assms] same_keeps by blast

text \<open>What can be read at a place.\<close>

lemma place_FL:
  assumes "tree_rep st (plug (FL c a r # C) t)"
  shows "rb_left st a = Some (rp st t)" "rb_right st a = Some (rp st r)" "rb_red st a = c" "a \<noteq> rb_sentinel st"
    "tr st t" "tr st r" "t \<noteq> E \<Longrightarrow> rb_parent st (rp st t) = Some a" "r \<noteq> E \<Longrightarrow> rb_parent st (rp st r) = Some a"
    "C \<noteq> [] \<Longrightarrow> rb_parent st a = Some (fa (hd C))" "a \<noteq> rp st t" "a \<noteq> rp st r" "t \<noteq> E \<Longrightarrow> rp st t \<noteq> rb_root st"
    "t \<noteq> E \<Longrightarrow> rp st r \<noteq> rp st t"
proof -
  note facts = assms [unfolded tree_rep_plug]
  show "rb_left st a = Some (rp st t)" "rb_right st a = Some (rp st r)" "rb_red st a = c" "a \<noteq> rb_sentinel st"
    "tr st t" "tr st r" "t \<noteq> E \<Longrightarrow> rb_parent st (rp st t) = Some a" "r \<noteq> E \<Longrightarrow> rb_parent st (rp st r) = Some a"
    "C \<noteq> [] \<Longrightarrow> rb_parent st a = Some (fa (hd C))" "a \<noteq> rp st t" "a \<noteq> rp st r"
    using facts by (simp_all add: rp_neq)
  show "t \<noteq> E \<Longrightarrow> rp st t \<noteq> rb_root st"
    using cx_root [of st "FL c a r # C" "rp st t"] facts rp_in [of t st] by auto
  show "t \<noteq> E \<Longrightarrow> rp st r \<noteq> rp st t"
    using facts rp_in [of t st] rp_in [of r st] by (cases "r = E") (auto simp: rp_sentinel [symmetric])
qed

lemma place_FR:
  assumes "tree_rep st (plug (FR c l a # C) t)"
  shows "rb_right st a = Some (rp st t)" "rb_left st a = Some (rp st l)" "rb_red st a = c" "a \<noteq> rb_sentinel st"
    "tr st t" "tr st l" "t \<noteq> E \<Longrightarrow> rb_parent st (rp st t) = Some a" "l \<noteq> E \<Longrightarrow> rb_parent st (rp st l) = Some a"
    "C \<noteq> [] \<Longrightarrow> rb_parent st a = Some (fa (hd C))" "a \<noteq> rp st t" "a \<noteq> rp st l" "t \<noteq> E \<Longrightarrow> rp st t \<noteq> rb_root st"
    "t \<noteq> E \<Longrightarrow> rp st l \<noteq> rp st t"
proof -
  note facts = assms [unfolded tree_rep_plug]
  show "rb_right st a = Some (rp st t)" "rb_left st a = Some (rp st l)" "rb_red st a = c" "a \<noteq> rb_sentinel st"
    "tr st t" "tr st l" "t \<noteq> E \<Longrightarrow> rb_parent st (rp st t) = Some a" "l \<noteq> E \<Longrightarrow> rb_parent st (rp st l) = Some a"
    "C \<noteq> [] \<Longrightarrow> rb_parent st a = Some (fa (hd C))" "a \<noteq> rp st t" "a \<noteq> rp st l"
    using facts by (simp_all add: rp_neq)
  show "t \<noteq> E \<Longrightarrow> rp st t \<noteq> rb_root st"
    using cx_root [of st "FR c l a # C" "rp st t"] facts rp_in [of t st] by auto
  show "t \<noteq> E \<Longrightarrow> rp st l \<noteq> rp st t"
    using facts rp_in [of t st] rp_in [of l st] by (cases "l = E") (auto simp: rp_sentinel [symmetric])
qed
section \<open>Insertion\<close>

fun fpaint :: "bool \<Rightarrow> frame \<Rightarrow> frame" where
  "fpaint d (FL c a r) = FL d a r"
| "fpaint d (FR c l a) = FR d l a"

lemma fpaint_simps [simp]: "fa (fpaint d f) = fa f" "fred (fpaint d f) = d" "sib (fpaint d f) = sib f"
  by (cases f; simp)+

lemma recolor_frame:
  assumes "tree_rep st (plug (f # C) t)"
  shows "tree_rep (set_red (fa f) d st) (plug (fpaint d f # C) t) \<and> keeps st (set_red (fa f) d st)"
  using assms recolor [of st C] by (cases f) (auto simp del: cset_simps)

lemma place_parent:
  assumes "tree_rep st (plug (f # C) t)" "t \<noteq> E"
  shows "rb_parent st (rp st t) = Some (fa f)" "rp st t \<noteq> rb_root st"
  using assms place_FL place_FR by (cases f; simp)+

lemma round_uncle_right:
  assumes "tree_rep st (plug (f # FL False g (N True ul u ur) # D) X)" "X \<noteq> E"
  shows "\<exists>st'. insert_round (rp st X) st = Some (g, st') \<and>
    tree_rep st' (plug D (N True (fill (fpaint False f) X) g (N False ul u ur))) \<and> keeps st st'"
proof -
  note 1 = place_parent [OF assms]
  have "tree_rep st (plug (FL False g (N True ul u ur) # D) (fill f X))" using assms(1) by simp
  note 2 = place_FL [OF this, simplified]
  have T1: "tree_rep (set_red (fa f) False st) (plug (FR False (fill (fpaint False f) X) g # D) (N True ul u ur))"
    using recolor_frame [OF assms(1), of False] by simp
  have T2: "tree_rep (set_red u False (set_red (fa f) False st)) (plug D (N False (fill (fpaint False f) X) g (N False ul u ur)))"
    using recolor [OF T1, of False] by simp
  have k: "keeps st (set_red (fa f) False st)" "keeps (set_red (fa f) False st) (set_red u False (set_red (fa f) False st))"
    using recolor_frame [OF assms(1), of False] recolor [OF T1, of False] by simp_all
  show ?thesis
    using recolor [OF T2, of True] 1 2 keeps_trans [OF k]
    by (auto simp: insert_round_def al_rbt_red_def al_rbt_black_def intro: keeps_trans)
qed

lemma round_uncle_left:
  assumes "tree_rep st (plug (f # FR False (N True ul u ur) g # D) X)" "X \<noteq> E"
  shows "\<exists>st'. insert_round (rp st X) st = Some (g, st') \<and>
    tree_rep st' (plug D (N True (N False ul u ur) g (fill (fpaint False f) X))) \<and> keeps st st'"
proof -
  note 1 = place_parent [OF assms]
  have "tree_rep st (plug (FR False (N True ul u ur) g # D) (fill f X))" using assms(1) by simp
  note 2 = place_FR [OF this, simplified]
  have T1: "tree_rep (set_red (fa f) False st) (plug (FL False g (fill (fpaint False f) X) # D) (N True ul u ur))"
    using recolor_frame [OF assms(1), of False] by simp
  have T2: "tree_rep (set_red u False (set_red (fa f) False st)) (plug D (N False (N False ul u ur) g (fill (fpaint False f) X)))"
    using recolor [OF T1, of False] by simp
  have k: "keeps st (set_red (fa f) False st)" "keeps (set_red (fa f) False st) (set_red u False (set_red (fa f) False st))"
    using recolor_frame [OF assms(1), of False] recolor [OF T1, of False] by simp_all
  show ?thesis
    using recolor [OF T2, of True] 1 2 keeps_trans [OF k]
    by (auto simp: insert_round_def al_rbt_red_def al_rbt_black_def intro: keeps_trans)
qed

text \<open>The last rotation of a round: the parent goes above the grandparent.\<close>

lemma lift_right:
  assumes "tree_rep st (plug (FL True p q # FL False g u # D) X)"
  obtains st' where "al_rbtree_right_rotate g (al_rbt_red g (al_rbt_black p st)) = Some st'"
    "tree_rep st' (plug D (N False X p (N True q g u)))" "keeps st st'"
proof -
  have T1: "tree_rep (set_red p False st) (plug D (N False (N False X p q) g u))"
    using recolor_frame [OF assms, of False] by simp
  have T2: "tree_rep (set_red g True (set_red p False st)) (plug D (N True (N False X p q) g u))"
    using recolor [OF T1, of True] by simp
  have k: "keeps st (set_red g True (set_red p False st))"
    using recolor_frame [OF assms, of False] recolor [OF T1, of True] keeps_trans by simp blast
  from right_rotateE [OF T2] keeps_trans [OF k] that show ?thesis unfolding al_rbt_red_def al_rbt_black_def by blast
qed

lemma lift_left:
  assumes "tree_rep st (plug (FR True q p # FR False u g # D) X)"
  obtains st' where "al_rbtree_left_rotate g (al_rbt_red g (al_rbt_black p st)) = Some st'"
    "tree_rep st' (plug D (N False (N True u g q) p X))" "keeps st st'"
proof -
  have T1: "tree_rep (set_red p False st) (plug D (N False u g (N False q p X)))"
    using recolor_frame [OF assms, of False] by simp
  have T2: "tree_rep (set_red g True (set_red p False st)) (plug D (N True u g (N False q p X)))"
    using recolor [OF T1, of True] by simp
  have k: "keeps st (set_red g True (set_red p False st))"
    using recolor_frame [OF assms, of False] recolor [OF T1, of True] keeps_trans by simp blast
  from left_rotateE [OF T2] keeps_trans [OF k] that show ?thesis unfolding al_rbt_red_def al_rbt_black_def by blast
qed

lemma round_left_left:
  assumes T: "tree_rep st (plug (FL True p q # FL False g u # D) X)" and X: "X \<noteq> E"
    and u: "\<not> isred u" "\<not> rb_red st (rb_sentinel st)"
  shows "\<exists>st'. insert_round (rp st X) st = Some (rp st X, st') \<and> tree_rep st' (plug D (N False X p (N True q g u))) \<and> keeps st st'"
proof -
  note 1 = place_FL [OF T]
  have "tree_rep st (plug (FL False g u # D) (N True X p q))" using T by simp
  note 2 = place_FL [OF this, simplified]
  have nr: "\<not> rb_red st (rp st u)" using red_rp 2 u by simp
  obtain st' where st': "al_rbtree_right_rotate g (al_rbt_red g (al_rbt_black p st)) = Some st'"
    "tree_rep st' (plug D (N False X p (N True q g u)))" "keeps st st'" using lift_right [OF T] by blast
  show ?thesis using 1 2 X nr st' by (simp add: insert_round_def)
qed

lemma round_left_right:
  assumes T: "tree_rep st (plug (FR True q p # FL False g u # D) (N True xl x xr))"
    and u: "\<not> isred u" "\<not> rb_red st (rb_sentinel st)"
  shows "\<exists>st'. insert_round x st = Some (p, st') \<and> tree_rep st' (plug D (N False (N True q p xl) x (N True xr g u))) \<and> keeps st st'"
proof -
  note 1 = place_FR [OF T, simplified]
  have "tree_rep st (plug (FL False g u # D) (N True q p (N True xl x xr)))" using T by simp
  note 2 = place_FL [OF this, simplified]
  have nr: "\<not> rb_red st (rp st u)" using red_rp 2 u by simp
  have "tree_rep st (plug (FL False g u # D) (N True q p (N True xl x xr)))" using T by simp
  from left_rotateE [OF this] obtain st1 where st1: "al_rbtree_left_rotate p st = Some st1"
    "tree_rep st1 (plug (FL False g u # D) (N True (N True q p xl) x xr))" "keeps st st1" by blast
  have T1: "tree_rep st1 (plug (FL True x xr # FL False g u # D) (N True q p xl))" using st1(2) by simp
  note 3 = place_FL [OF T1, simplified]
  obtain st' where st': "al_rbtree_right_rotate g (al_rbt_red g (al_rbt_black x st1)) = Some st'"
    "tree_rep st' (plug D (N False (N True q p xl) x (N True xr g u)))" "keeps st1 st'" using lift_right [OF T1] by blast
  show ?thesis using 1 2 3 nr st1(1) st' keeps_trans [OF st1(3) st'(3)] by (simp add: insert_round_def)
qed

lemma round_right_right:
  assumes T: "tree_rep st (plug (FR True q p # FR False u g # D) X)" and X: "X \<noteq> E"
    and u: "\<not> isred u" "\<not> rb_red st (rb_sentinel st)"
  shows "\<exists>st'. insert_round (rp st X) st = Some (rp st X, st') \<and> tree_rep st' (plug D (N False (N True u g q) p X)) \<and> keeps st st'"
proof -
  note 1 = place_FR [OF T]
  have "tree_rep st (plug (FR False u g # D) (N True q p X))" using T by simp
  note 2 = place_FR [OF this, simplified]
  have nr: "\<not> rb_red st (rp st u)" using red_rp 2 u by simp
  obtain st' where st': "al_rbtree_left_rotate g (al_rbt_red g (al_rbt_black p st)) = Some st'"
    "tree_rep st' (plug D (N False (N True u g q) p X))" "keeps st st'" using lift_left [OF T] by blast
  show ?thesis using 1 2 X nr st' by (simp add: insert_round_def)
qed

lemma round_right_left:
  assumes T: "tree_rep st (plug (FL True p q # FR False u g # D) (N True xl x xr))"
    and u: "\<not> isred u" "\<not> rb_red st (rb_sentinel st)"
  shows "\<exists>st'. insert_round x st = Some (p, st') \<and> tree_rep st' (plug D (N False (N True u g xl) x (N True xr p q))) \<and> keeps st st'"
proof -
  note 1 = place_FL [OF T, simplified]
  have "tree_rep st (plug (FR False u g # D) (N True (N True xl x xr) p q))" using T by simp
  note 2 = place_FR [OF this, simplified]
  have nr: "\<not> rb_red st (rp st u)" using red_rp 2 u by simp
  have "tree_rep st (plug (FR False u g # D) (N True (N True xl x xr) p q))" using T by simp
  from right_rotateE [OF this] obtain st1 where st1: "al_rbtree_right_rotate p st = Some st1"
    "tree_rep st1 (plug (FR False u g # D) (N True xl x (N True xr p q)))" "keeps st st1" by blast
  have T1: "tree_rep st1 (plug (FR True xl x # FR False u g # D) (N True xr p q))" using st1(2) by simp
  note 3 = place_FR [OF T1, simplified]
  obtain st' where st': "al_rbtree_left_rotate g (al_rbt_red g (al_rbt_black x st1)) = Some st'"
    "tree_rep st' (plug D (N False (N True u g xl) x (N True xr p q)))" "keeps st1 st'" using lift_left [OF T1] by blast
  show ?thesis using 1 2 3 nr st1(1) st' keeps_trans [OF st1(3) st'(3)] by (simp add: insert_round_def)
qed

fun blacken :: "rbt \<Rightarrow> rbt" where
  "blacken E = E"
| "blacken (N c l a r) = N False l a r"

lemma plug_E [simp]: "t \<noteq> E \<Longrightarrow> plug C t \<noteq> E"
proof (induction C arbitrary: t)
  case (Cons f C)
  then show ?case by simp
qed simp

lemma blacken_inv: "rbinv t \<Longrightarrow> rbinv (blacken t)"
  by (cases t) auto

definition balanced_as :: "rbtree \<Rightarrow> rbt \<Rightarrow> rbtree \<Rightarrow> bool" where
  "balanced_as st t st' \<longleftrightarrow> (\<exists>t'. tree_rep st' t' \<and> t' \<noteq> E \<and> rbinv (blacken t') \<and> inorder t' = inorder t) \<and> keeps st st'"

lemma balanced_asI:
  assumes "tree_rep st' (plug C t')" "keeps st st'" "cinv C (bh t')" "rbinv t'" "\<not> isred t'" "t' \<noteq> E" "inorder (plug C t') = inorder t"
  shows "balanced_as st t st'"
  using assms inv_plug [of C t'] blacken_inv plug_E unfolding balanced_as_def by blast

lemma fixup_stop:
  assumes "tree_rep st (plug (f # C) t)" "t \<noteq> E" "\<not> fred f"
  shows "insert_fixup (rp st t) st = Some st"
  using assms place_FL place_FR place_parent [OF assms(1,2)]
  by (subst insert_fixup.simps, cases f) auto

lemma fixup_step:
  assumes "tree_rep st (plug (f # C) t)" "t \<noteq> E" "fred f" "insert_round (rp st t) st = Some (node, st')"
  shows "insert_fixup (rp st t) st = insert_fixup node st'"
  using assms place_FL place_FR place_parent [OF assms(1,2)]
  by (subst insert_fixup.simps, cases f) auto

text \<open>The uncle is black: one round ends the loop.\<close>

lemma fixup_uncle_black:
  assumes T: "tree_rep st (plug (f # g # D) (N True l x r))" and i: "rbinv (N True l x r)" "cinv (f # g # D) (bh l)"
    and c: "fred f" "\<not> isred (sib g)" "\<not> rb_red st (rb_sentinel st)"
  shows "\<exists>st'. insert_fixup x st = Some st' \<and> balanced_as st (plug (f # g # D) (N True l x r)) st'"
proof -
  have step: "insert_fixup x st = insert_fixup node st'" if "insert_round x st = Some (node, st')" for node st'
    using fixup_step [OF T _ c(1)] that by simp
  have black: "\<not> fred g" using i c(1) by auto
  show ?thesis
  proof (cases g)
    case g: (FL cg b u)
    have cg: "\<not> cg" "\<not> isred u" using black c g by auto
    show ?thesis
    proof (cases f)
      case f: (FL cf p q)
      have cf: "cf" using c f by simp
      obtain st' where st': "insert_round x st = Some (x, st')" "tree_rep st' (plug D (N False (N True l x r) p (N True q b u)))" "keeps st st'"
        using round_left_left [of st p q b u D "N True l x r"] T cg cf c(3) by (auto simp: f g)
      have "insert_fixup x st' = Some st'" using fixup_stop [of st' "FL False p (N True q b u)" D "N True l x r"] st'(2) by simp
      moreover have "balanced_as st (plug (f # g # D) (N True l x r)) st'"
        by (rule balanced_asI [OF st'(2,3)]) (use i cg cf in \<open>auto simp: f g inorder_plug\<close>)
      ultimately show ?thesis using step [OF st'(1)] by simp
    next
      case f: (FR cf q p)
      have cf: "cf" using c f by simp
      obtain st' where st': "insert_round x st = Some (p, st')" "tree_rep st' (plug D (N False (N True q p l) x (N True r b u)))" "keeps st st'"
        using round_left_right [of st q p b u D l x r] T cg cf c(3) by (auto simp: f g)
      have "insert_fixup p st' = Some st'" using fixup_stop [of st' "FL False x (N True r b u)" D "N True q p l"] st'(2) by simp
      moreover have "balanced_as st (plug (f # g # D) (N True l x r)) st'"
        by (rule balanced_asI [OF st'(2,3)]) (use i cg cf in \<open>auto simp: f g inorder_plug\<close>)
      ultimately show ?thesis using step [OF st'(1)] by simp
    qed
  next
    case g: (FR cg u b)
    have cg: "\<not> cg" "\<not> isred u" using black c g by auto
    show ?thesis
    proof (cases f)
      case f: (FR cf q p)
      have cf: "cf" using c f by simp
      obtain st' where st': "insert_round x st = Some (x, st')" "tree_rep st' (plug D (N False (N True u b q) p (N True l x r)))" "keeps st st'"
        using round_right_right [of st q p u b D "N True l x r"] T cg cf c(3) by (auto simp: f g)
      have "insert_fixup x st' = Some st'" using fixup_stop [of st' "FR False (N True u b q) p" D "N True l x r"] st'(2) by simp
      moreover have "balanced_as st (plug (f # g # D) (N True l x r)) st'"
        by (rule balanced_asI [OF st'(2,3)]) (use i cg cf in \<open>auto simp: f g inorder_plug\<close>)
      ultimately show ?thesis using step [OF st'(1)] by simp
    next
      case f: (FL cf p q)
      have cf: "cf" using c f by simp
      obtain st' where st': "insert_round x st = Some (p, st')" "tree_rep st' (plug D (N False (N True u b l) x (N True r p q)))" "keeps st st'"
        using round_right_left [of st p q u b D l x r] T cg cf c(3) by (auto simp: f g)
      have "insert_fixup p st' = Some st'" using fixup_stop [of st' "FR False (N True u b l) x" D "N True r p q"] st'(2) by simp
      moreover have "balanced_as st (plug (f # g # D) (N True l x r)) st'"
        by (rule balanced_asI [OF st'(2,3)]) (use i cg cf in \<open>auto simp: f g inorder_plug\<close>)
      ultimately show ?thesis using step [OF st'(1)] by simp
    qed
  qed
qed

text \<open>The uncle is red: the loop goes on two levels up.\<close>

lemma fixup_uncle_red:
  assumes T: "tree_rep st (plug (f # g # D) (N True l x r))" and i: "rbinv (N True l x r)" "cinv (f # g # D) (bh l)"
    and c: "fred f" "isred (sib g)"
  shows "\<exists>st' l' b r'. insert_fixup x st = insert_fixup b st' \<and> tree_rep st' (plug D (N True l' b r')) \<and> keeps st st' \<and>
    rbinv (N True l' b r') \<and> cinv D (bh l') \<and> inorder (plug D (N True l' b r')) = inorder (plug (f # g # D) (N True l x r))"
proof -
  have step: "insert_fixup x st = insert_fixup node st'" if "insert_round x st = Some (node, st')" for node st'
    using fixup_step [OF T _ c(1)] that by simp
  have black: "\<not> fred g" using i c(1) by auto
  let ?X = "N True l x r"
  let ?P = "fill (fpaint False f) ?X"
  have P: "rbinv ?P" "bh ?P = Suc (bh l)" "\<not> isred ?P" "inorder ?P = inorder (fill f ?X)"
    using i c(1) by (cases f; auto)+
  obtain ul u ur where u: "sib g = N True ul u ur" using c(2) by (cases "sib g") auto
  have U: "rbinv (N False ul u ur)" "bh ul = bh l" "cinv D (Suc (bh l))" using i c u black by auto
  show ?thesis
  proof (cases g)
    case g: (FL cg b u')
    obtain st' where st': "insert_round x st = Some (b, st')" "tree_rep st' (plug D (N True ?P b (N False ul u ur)))" "keeps st st'"
      using round_uncle_right [of st f b ul u ur D ?X] T black u by (auto simp: g)
    show ?thesis
      using step [OF st'(1)] st'(2,3) P U black u g by (intro exI [of _ st'] exI [of _ b] exI [of _ ?P] exI [of _ "N False ul u ur"]) (simp add: inorder_plug)
  next
    case g: (FR cg u' b)
    obtain st' where st': "insert_round x st = Some (b, st')" "tree_rep st' (plug D (N True (N False ul u ur) b ?P))" "keeps st st'"
      using round_uncle_left [of st f ul u ur b D ?X] T black u by (auto simp: g)
    show ?thesis
      using step [OF st'(1)] st'(2,3) P U black u g by (intro exI [of _ st'] exI [of _ b] exI [of _ ?P] exI [of _ "N False ul u ur"]) (simp add: inorder_plug)
  qed
qed

lemma insert_fixup:
  assumes "tree_rep st (plug C (N True l x r))" "rbinv (N True l x r)" "cinv C (bh l)" "\<not> rb_red st (rb_sentinel st)"
  shows "\<exists>st'. insert_fixup x st = Some st' \<and> balanced_as st (plug C (N True l x r)) st'"
  using assms
proof (induction C arbitrary: st l x r rule: length_induct)
  case (1 C)
  note prems = "1.prems"
  consider "C = []" | (black) f D where "C = f # D" "\<not> fred f"
    | (red) f g D where "C = f # g # D" "fred f" "isred (sib g)" | (turn) f g D where "C = f # g # D" "fred f" "\<not> isred (sib g)"
    using prems(3) by (cases C rule: remdups_adj.cases) auto
  then show ?case
  proof cases
    case 1
    then have "insert_fixup x st = Some st" using prems(1) by (subst insert_fixup.simps) (simp add: tree_rep_def)
    moreover have "balanced_as st (plug C (N True l x r)) st"
      unfolding balanced_as_def using 1 prems by (intro conjI exI [of _ "N True l x r"]) auto
    ultimately show ?thesis by blast
  next
    case black
    have "insert_fixup x st = Some st" using fixup_stop [of st f D "N True l x r"] prems(1) black by simp
    moreover have "rbinv (plug C (N True l x r))" using inv_plug [of C "N True l x r"] prems black by simp
    then have "balanced_as st (plug C (N True l x r)) st"
      unfolding balanced_as_def using prems(1) by (intro conjI exI [of _ "plug C (N True l x r)"]) (simp_all add: blacken_inv)
    ultimately show ?thesis by blast
  next
    case red
    from fixup_uncle_red [OF prems(1) [unfolded red] prems(2) prems(3) [unfolded red] red(2,3)]
    obtain st1 l' b r' where st1: "insert_fixup x st = insert_fixup b st1" "tree_rep st1 (plug D (N True l' b r'))" "keeps st st1"
      "rbinv (N True l' b r')" "cinv D (bh l')" "inorder (plug D (N True l' b r')) = inorder (plug (f # g # D) (N True l x r))" by blast
    have "length D < length C" using red by simp
    then obtain st' where "insert_fixup b st1 = Some st'" "balanced_as st1 (plug D (N True l' b r')) st'"
      using "1.IH" st1 keeps_red [OF st1(3) prems(4)] by blast
    then show ?thesis using st1 keeps_trans [OF st1(3)] unfolding balanced_as_def red(1) by auto
  next
    case turn
    then show ?thesis using fixup_uncle_black prems by blast
  qed
qed

text \<open>
  \<open>rb_tree st t\<close>: the memory \<open>st\<close> holds the red-black tree \<open>t\<close>, sorted by key, and the sentinel
  is black.
\<close>

definition rb_tree :: "rbtree \<Rightarrow> rbt \<Rightarrow> bool" where
  "rb_tree st t \<longleftrightarrow> tree_rep st t \<and> rbinv t \<and> \<not> isred t \<and> \<not> rb_red st (rb_sentinel st) \<and> sorted (map (rb_key st) (inorder t))"

lemma plug_append: "plug (C @ D) t = plug D (plug C t)"
  by (induction C arbitrary: t) simp_all

lemma before_append: "before (C @ D) = before D @ before C" and behind_append: "behind (C @ D) = behind C @ behind D"
proof -
  show "before (C @ D) = before D @ before C"
  proof (induction C)
    case (Cons f C)
    then show ?case by (cases f) simp_all
  qed simp
  show "behind (C @ D) = behind C @ behind D"
  proof (induction C)
    case (Cons f C)
    then show ?case by (cases f) simp_all
  qed simp
qed

lemma insert_pos:
  assumes "tr st t" "t \<noteq> E" "sorted (map (rb_key st) (inorder t))"
  shows "\<exists>f C. t = plug (f # C) E \<and> insert_pos st k (rp st t) = Some (fa f, case f of FL c a r \<Rightarrow> True | FR c l a \<Rightarrow> False) \<and>
    (\<forall>x \<in> set (before (f # C)). rb_key st x \<le> k) \<and> (\<forall>x \<in> set (behind (f # C)). k < rb_key st x)"
  using assms
proof (induction t)
  case (N c l a r)
  have sl: "sorted (map (rb_key st) (inorder l))" and sr: "sorted (map (rb_key st) (inorder r))"
    and la: "\<forall>x \<in> set (inorder l). rb_key st x \<le> rb_key st a" and ra: "\<forall>x \<in> set (inorder r). rb_key st a \<le> rb_key st x"
    using N.prems(3) by (auto simp: sorted_append)
  show ?case
  proof (cases "k < rb_key st a")
    case True
    note lt = this
    show ?thesis
    proof (cases "l = E")
      case True
      then show ?thesis using N.prems lt ra
        by (intro exI [of _ "FL c a r"] exI [of _ "[]"]) (subst insert_pos.simps, auto)
    next
      case False
      then obtain f C where f: "l = plug (f # C) E" "insert_pos st k (rp st l) = Some (fa f, case f of FL c a r \<Rightarrow> True | FR c l a \<Rightarrow> False)"
        "\<forall>x \<in> set (before (f # C)). rb_key st x \<le> k" "\<forall>x \<in> set (behind (f # C)). k < rb_key st x"
        using N.IH(1) N.prems sl by auto
      have "insert_pos st k (rp st (N c l a r)) = Some (fa f, case f of FL c a r \<Rightarrow> True | FR c l a \<Rightarrow> False)"
        using N.prems lt False rp_sentinel [of st l] f(2) by (subst insert_pos.simps) simp
      moreover have "N c l a r = plug (f # C @ [FL c a r]) E" using f(1) by (simp add: plug_append)
      moreover have "\<forall>x \<in> set (behind (f # C @ [FL c a r])). k < rb_key st x" "\<forall>x \<in> set (before (f # C @ [FL c a r])). rb_key st x \<le> k"
        using f(3,4) lt ra behind_append [of "f # C"] before_append [of "f # C"] by auto
      ultimately show ?thesis by (intro exI [of _ f] exI [of _ "C @ [FL c a r]"] conjI) assumption+
    qed
  next
    case False
    note ge = this
    show ?thesis
    proof (cases "r = E")
      case True
      then show ?thesis using N.prems ge la
        by (intro exI [of _ "FR c l a"] exI [of _ "[]"]) (subst insert_pos.simps, auto)
    next
      case False
      then obtain f C where f: "r = plug (f # C) E" "insert_pos st k (rp st r) = Some (fa f, case f of FL c a r \<Rightarrow> True | FR c l a \<Rightarrow> False)"
        "\<forall>x \<in> set (before (f # C)). rb_key st x \<le> k" "\<forall>x \<in> set (behind (f # C)). k < rb_key st x"
        using N.IH(2) N.prems sr by auto
      have "insert_pos st k (rp st (N c l a r)) = Some (fa f, case f of FL c a r \<Rightarrow> True | FR c l a \<Rightarrow> False)"
        using N.prems ge False rp_sentinel [of st r] f(2) by (subst insert_pos.simps) simp
      moreover have "N c l a r = plug (f # C @ [FR c l a]) E" using f(1) by (simp add: plug_append)
      moreover have "\<forall>x \<in> set (behind (f # C @ [FR c l a])). k < rb_key st x" "\<forall>x \<in> set (before (f # C @ [FR c l a])). rb_key st x \<le> k"
        using f(3,4) ge la behind_append [of "f # C"] before_append [of "f # C"] by auto
      ultimately show ?thesis by (intro exI [of _ f] exI [of _ "C @ [FR c l a]"] conjI) assumption+
    qed
  qed
qed simp

lemma insert_value:
  assumes "tree_rep st t" "t \<noteq> E" "sorted (map (rb_key st) (inorder t))" "node \<notin> set (inorder t)" "node \<noteq> rb_sentinel st"
  shows "\<exists>C st'. t = plug C E \<and> C \<noteq> [] \<and> al_rbtree_insert_value (rb_root st) node st = Some st' \<and> tree_rep st' (plug C (N True E node E)) \<and> keeps st st' \<and>
    (\<forall>x \<in> set (before C). rb_key st x \<le> rb_key st node) \<and> (\<forall>x \<in> set (behind C). rb_key st node < rb_key st x)"
proof -
  obtain f C where f: "t = plug (f # C) E" "insert_pos st (rb_key st node) (rb_root st) = Some (fa f, case f of FL c a r \<Rightarrow> True | FR c l a \<Rightarrow> False)"
    "\<forall>x \<in> set (before (f # C)). rb_key st x \<le> rb_key st node" "\<forall>x \<in> set (behind (f # C)). rb_key st node < rb_key st x"
    using insert_pos [of st t "rb_key st node"] assms by (auto simp: tree_rep_def)
  have T: "tree_rep st (plug (f # C) E)" using assms(1) f(1) by simp
  have n: "node \<notin> cset (f # C)" using assms(4) f(1) inorder_plug [of "f # C" E] unfolding cset_def by simp
  then have ne: "rp st (sib f) \<noteq> node" using assms(5) by (simp add: rp_neq)
  show ?thesis
  proof (cases f)
    case (FL c a r)
    show ?thesis using f T n ne assms(5)
      by (intro exI [of _ "f # C"]) (simp add: FL al_rbtree_insert_value_def Let_def al_rbt_red_def tree_rep_plug keeps_def)
  next
    case (FR c l a)
    show ?thesis using f T n ne assms(5)
      by (intro exI [of _ "f # C"]) (simp add: FR al_rbtree_insert_value_def Let_def al_rbt_red_def tree_rep_plug keeps_def)
  qed
qed

lemma rb_tree_balanced:
  assumes "balanced_as st t st'" "sorted (map (rb_key st) (inorder t))" "\<not> rb_red st (rb_sentinel st)"
  shows "\<exists>t'. rb_tree (al_rbt_black (rb_root st') st') t' \<and> inorder t' = inorder t \<and> rb_key (al_rbt_black (rb_root st') st') = rb_key st \<and>
    rb_sentinel (al_rbt_black (rb_root st') st') = rb_sentinel st"
proof -
  obtain c l a r where t': "tree_rep st' (N c l a r)" "rbinv (N False l a r)" "inorder (N c l a r) = inorder t" and k: "keeps st st'"
    using assms(1) unfolding balanced_as_def by (metis blacken.simps(2) rbt.exhaust)
  have root: "rb_root st' = a" using t'(1) by (simp add: tree_rep_def)
  have "tree_rep (set_red a False st') (N False l a r)" using recolor [of st' "[]" c l a r False] t'(1) by simp
  moreover have "a \<noteq> rb_sentinel st'" using t'(1) by (simp add: tree_rep_def)
  ultimately show ?thesis
    using t'(2,3) k assms(2,3) unfolding rb_tree_def root al_rbt_black_def
    by (intro exI [of _ "N False l a r"]) (simp add: keeps_def)
qed

lemma insert_correct:
  assumes "rb_tree st t" "node \<notin> set (inorder t)" "node \<noteq> rb_sentinel st"
  shows "\<exists>st' t' xs ys. al_rbtree_insert node st = Some st' \<and> rb_tree st' t' \<and>
    inorder t = xs @ ys \<and> inorder t' = xs @ node # ys \<and>
    (\<forall>x \<in> set xs. rb_key st x \<le> rb_key st node) \<and> (\<forall>y \<in> set ys. rb_key st node < rb_key st y) \<and>
    rb_key st' = rb_key st \<and> rb_sentinel st' = rb_sentinel st"
proof (cases "t = E")
  case True
  let ?st = "set_root node (al_rbt_black node (set_right node (Some (rb_sentinel st)) (set_left node (Some (rb_sentinel st)) (set_parent node None st))))"
  have "al_rbtree_insert node st = Some ?st" using assms(1) True by (simp add: al_rbtree_insert_def rb_tree_def tree_rep_def)
  moreover have "rb_tree ?st (N False E node E)" using assms by (simp add: rb_tree_def tree_rep_def al_rbt_black_def)
  ultimately show ?thesis using True by (intro exI [of _ ?st] exI [of _ "N False E node E"] exI [of _ "[]"]) (simp add: al_rbt_black_def)
next
  case False
  note t = assms(1) [unfolded rb_tree_def]
  obtain C st1 where C: "t = plug C E" "C \<noteq> []" and st1: "al_rbtree_insert_value (rb_root st) node st = Some st1"
    "tree_rep st1 (plug C (N True E node E))" "keeps st st1"
    and keys: "\<forall>x \<in> set (before C). rb_key st x \<le> rb_key st node" "\<forall>x \<in> set (behind C). rb_key st node < rb_key st x"
    using insert_value [of st t node] t False assms(2,3) by blast
  have "cinv C 0" using inv_plug [of C E] t C(1) by simp
  then obtain st2 where st2: "insert_fixup node st1 = Some st2" "balanced_as st1 (plug C (N True E node E)) st2"
    using insert_fixup [OF st1(2)] keeps_red [OF st1(3)] t by auto
  have "sorted (map (rb_key st) (before C @ node # behind C))"
    using t C keys by (auto simp: inorder_plug sorted_append less_imp_le)
  then have "sorted (map (rb_key st1) (inorder (plug C (N True E node E))))"
    using st1(3) by (simp add: inorder_plug keeps_def)
  from rb_tree_balanced [OF st2(2) this keeps_red [OF st1(3)]] t
  obtain t' where t': "rb_tree (al_rbt_black (rb_root st2) st2) t'" "inorder t' = inorder (plug C (N True E node E))"
    "rb_key (al_rbt_black (rb_root st2) st2) = rb_key st1" "rb_sentinel (al_rbt_black (rb_root st2) st2) = rb_sentinel st1" by blast
  have "rb_root st \<noteq> rb_sentinel st" using t False rp_sentinel [of st t] by (simp add: tree_rep_def)
  then have "al_rbtree_insert node st = Some (al_rbt_black (rb_root st2) st2)" using st1(1) st2(1) by (simp add: al_rbtree_insert_def)
  then show ?thesis using t' st1(3) C keys 
    by (intro exI [of _ "al_rbt_black (rb_root st2) st2"] exI [of _ t'] exI [of _ "before C"] exI [of _ "behind C"]) (simp add: inorder_plug keeps_def)
qed

section \<open>Search and order\<close>

lemma lookup_from:
  assumes "tr st t" "sorted (map (rb_key st) (inorder t))"
  shows "\<exists>r. lookup_from st k (rp st t) = Some r \<and>
    (case r of None \<Rightarrow> k \<notin> rb_key st ` set (inorder t) | Some a \<Rightarrow> a \<in> set (inorder t) \<and> rb_key st a = k)"
  using assms
proof (induction t)
  case E
  then show ?case by (subst lookup_from.simps) simp
next
  case (N c l a r)
  have sl: "sorted (map (rb_key st) (inorder l))" and sr: "sorted (map (rb_key st) (inorder r))"
    and la: "\<forall>x \<in> set (inorder l). rb_key st x \<le> rb_key st a" and ra: "\<forall>x \<in> set (inorder r). rb_key st a \<le> rb_key st x"
    using N.prems(2) by (auto simp: sorted_append)
  consider "k < rb_key st a" | "k > rb_key st a" | "k = rb_key st a" by (rule linorder_cases)
  then show ?case
  proof cases
    case 1
    then have "k \<notin> rb_key st ` set (inorder r)" using ra by auto
    moreover have "lookup_from st k a = lookup_from st k (rp st l)" using 1 N.prems(1) by (subst lookup_from.simps) simp
    moreover obtain v where "lookup_from st k (rp st l) = Some v"
      "case v of None \<Rightarrow> k \<notin> rb_key st ` set (inorder l) | Some a \<Rightarrow> a \<in> set (inorder l) \<and> rb_key st a = k"
      using N.IH(1) N.prems(1) sl by auto
    ultimately show ?thesis using 1 by (intro exI [of _ v]) (auto split: option.splits)
  next
    case 2
    then have "k \<notin> rb_key st ` set (inorder l)" using la by auto
    moreover have "lookup_from st k a = lookup_from st k (rp st r)" using 2 N.prems(1) by (subst lookup_from.simps) (simp add: less_not_sym)
    moreover obtain v where "lookup_from st k (rp st r) = Some v"
      "case v of None \<Rightarrow> k \<notin> rb_key st ` set (inorder r) | Some a \<Rightarrow> a \<in> set (inorder r) \<and> rb_key st a = k"
      using N.IH(2) N.prems(1) sr by auto
    ultimately show ?thesis using 2 by (intro exI [of _ v]) (auto split: option.splits)
  next
    case 3
    then have "lookup_from st k a = Some (Some a)" using N.prems(1) by (subst lookup_from.simps) simp
    then show ?thesis using 3 by simp
  qed
qed

lemma lookup_correct:
  assumes "rb_tree st t"
  shows "\<exists>r. al_rbtree_lookup k st = Some r \<and>
    (case r of None \<Rightarrow> k \<notin> rb_key st ` set (inorder t) | Some a \<Rightarrow> a \<in> set (inorder t) \<and> rb_key st a = k)"
  using lookup_from [of st t k] assms by (simp add: rb_tree_def tree_rep_def al_rbtree_lookup_def)

lemma rbtree_min:
  assumes "tr st t" "t \<noteq> E"
  shows "\<exists>C c a r. t = plug C (N c E a r) \<and> before C = [] \<and> al_rbtree_min st (rp st t) = Some a"
  using assms
proof (induction t)
  case (N c l a r)
  show ?case
  proof (cases "l = E")
    case True
    then have "al_rbtree_min st a = Some a" using N.prems by (subst al_rbtree_min.simps) simp
    then show ?thesis using True by (intro exI [of _ "[]"]) simp
  next
    case False
    then obtain C d b q where C: "l = plug C (N d E b q)" "before C = []" "al_rbtree_min st (rp st l) = Some b"
      using N.IH(1) N.prems by auto
    have "al_rbtree_min st (rp st (N c l a r)) = Some b" using C(3) N.prems False rp_sentinel [of st l] by (subst al_rbtree_min.simps) simp
    moreover have "N c l a r = plug (C @ [FL c a r]) (N d E b q)" using C(1) by (simp add: plug_append)
    moreover have "before (C @ [FL c a r]) = []" using C(2) by (simp add: before_append)
    ultimately show ?thesis by blast
  qed
qed simp

lemma next_up:
  assumes "tree_rep st (plug C t)" "t \<noteq> E"
  shows "next_up st (rp st t) = Some (case behind C of [] \<Rightarrow> None | y # _ \<Rightarrow> Some y)"
  using assms
proof (induction C arbitrary: t)
  case Nil
  then show ?case by (subst next_up.simps) (simp add: tree_rep_def)
next
  case (Cons f C)
  note par = place_parent [OF Cons.prems]
  show ?case
  proof (cases f)
    case (FL c a r)
    then show ?thesis using par place_FL [OF Cons.prems(1) [unfolded FL]] by (subst next_up.simps) simp
  next
    case (FR c l a)
    have "next_up st a = Some (case behind C of [] \<Rightarrow> None | y # _ \<Rightarrow> Some y)"
      using Cons.IH [of "N c l a t"] Cons.prems(1) FR by simp
    then show ?thesis using FR par place_FR [OF Cons.prems(1) [unfolded FR]] Cons.prems(2) by (subst next_up.simps) simp
  qed
qed

lemma place_of: "a \<in> set (inorder t) \<Longrightarrow> \<exists>C c l r. t = plug C (N c l a r)"
proof (induction t)
  case (N c l b r)
  consider "a = b" | "a \<in> set (inorder l)" | "a \<in> set (inorder r)" using N.prems by auto
  then show ?case
  proof cases
    case 1
    then have "N c l b r = plug [] (N c l a r)" by simp
    then show ?thesis by blast
  next
    case 2
    then obtain C d p q where "l = plug C (N d p a q)" using N.IH(1) by blast
    then have "N c l b r = plug (C @ [FL c b r]) (N d p a q)" by (simp add: plug_append)
    then show ?thesis by blast
  next
    case 3
    then obtain C d p q where "r = plug C (N d p a q)" using N.IH(2) by blast
    then have "N c l b r = plug (C @ [FR c l b]) (N d p a q)" by (simp add: plug_append)
    then show ?thesis by blast
  qed
qed simp

end
