(* ===== verification/Rbtree_Delete.thy ===== *)
theory Rbtree_Delete
  imports Rbtree_Insert
begin

text \<open>
  Deletion from the red-black tree of al_tree.c: the rounds of the loop that re-balances, the
  three ways a node is unlinked, and that al_rbtree_delete leaves a sorted red-black tree
  without the node.
\<close>

section \<open>Deletion\<close>

lemma keeps_rp: "keeps st st' \<Longrightarrow> rp st' t = rp st t"
  by (cases t) (simp_all add: keeps_def)

lemma temp_parent:
  assumes "tree_rep st' (plug (f # C) t)" "keeps st st'" "rb_parent st (rp st t) = Some (fa f)"
  shows "rb_parent st' (rp st t) = Some (fa f)"
proof (cases "t = E")
  case True
  then show ?thesis using assms(2,3) by (simp add: keeps_def)
next
  case False
  then show ?thesis using place_parent [OF assms(1) False] keeps_rp [OF assms(2), of t] by simp
qed

text \<open>
  A round of the loop ends with a node whose subtree lacks one black node: either that node is
  red, or it is nearer to the root than before.
\<close>

definition delete_goes_on :: "(addr \<times> rbtree) option \<Rightarrow> rbtree \<Rightarrow> nat \<Rightarrow> rbt \<Rightarrow> rbtree \<Rightarrow> bool" where
  "delete_goes_on res st n t st' \<longleftrightarrow> (\<exists>D t'. res = Some (rp st' t', st') \<and> tree_rep st' (plug D t') \<and> t' \<noteq> E \<and> rbinv (blacken t') \<and>
     cinv D (Suc (bh t')) \<and> (isred t' \<or> length D \<le> n) \<and> inorder (plug D t') = inorder t \<and> keeps st st')"

lemma delete_goes_onI:
  assumes "res = Some (rp st' t', st')" "tree_rep st' (plug D t')" "t' \<noteq> E" "rbinv (blacken t')" "cinv D (Suc (bh t'))"
    "isred t' \<or> length D \<le> n" "inorder (plug D t') = inorder t" "keeps st st'"
  shows "delete_goes_on res st n t st'"
  using assms unfolding delete_goes_on_def by blast

lemma delete_goes_on_rootI:
  assumes "res = Some (rb_root st', st')" "tree_rep st' (plug D t')" "keeps st st'" "t' \<noteq> E" "rbinv t'" "cinv D (bh t')" "isred t' \<longrightarrow> D \<noteq> [] \<and> \<not> fred (hd D)"
    "inorder (plug D t') = inorder t"
  shows "delete_goes_on res st n t st'"
proof (rule delete_goes_onI [where D = "[]" and t' = "plug D t'"])
  show "res = Some (rp st' (plug D t'), st')" using assms(1,2) by (simp add: tree_rep_def)
  show "rbinv (blacken (plug D t'))" using inv_plug [of D t'] assms blacken_inv by blast
qed (use assms in simp_all)

lemma delete_goes_on_le: "delete_goes_on res st m t st' \<Longrightarrow> m \<le> n \<Longrightarrow> delete_goes_on res st n t st'"
proof -
  assume g: "delete_goes_on res st m t st'" and le: "m \<le> n"
  from g obtain D t' where g': "res = Some (rp st' t', st')" "tree_rep st' (plug D t')" "t' \<noteq> E" "rbinv (blacken t')" "cinv D (Suc (bh t'))"
    "isred t' \<or> length D \<le> m" "inorder (plug D t') = inorder t" "keeps st st'" unfolding delete_goes_on_def by blast
  then show ?thesis using le by (intro delete_goes_onI [OF g'(1-5) _ g'(7,8)]) auto
qed

lemma delete_goes_on_more:
  assumes "delete_goes_on res st1 0 t1 st'" "keeps st st1" "inorder t1 = inorder t"
  shows "delete_goes_on res st n t st'"
proof -
  from assms(1) obtain D t' where g': "res = Some (rp st' t', st')" "tree_rep st' (plug D t')" "t' \<noteq> E" "rbinv (blacken t')" "cinv D (Suc (bh t'))"
    "isred t' \<or> length D \<le> 0" "inorder (plug D t') = inorder t1" "keeps st1 st'" unfolding delete_goes_on_def by blast
  then show ?thesis using assms(3) by (intro delete_goes_onI [OF g'(1-5) _ _ keeps_trans [OF assms(2) g'(8)]]) auto
qed

lemma delete_left_black_red:
  assumes T: "tree_rep st (plug (FL c p (N False wl w wr) # C) t)" and par: "rb_parent st (rp st t) = Some p"
    and k: "\<not> rb_red st (rb_sentinel st)" "\<not> isred wl" "\<not> isred wr"
  shows "delete_left_black (rp st t) w st = Some (p, set_red w True st) \<and>
    tree_rep (set_red w True st) (plug C (N c t p (N True wl w wr))) \<and> keeps st (set_red w True st)"
proof -
  note 1 = place_FL [OF T, simplified]
  have "tree_rep st (plug (FR c t p # C) (N False wl w wr))" using T by simp
  note 2 = recolor [OF this, of True]
  have "\<not> rb_red st (rp st wl)" "\<not> rb_red st (rp st wr)" using 1 k by (simp_all add: red_rp)
  then show ?thesis using 1 2 par by (simp add: delete_left_black_def al_rbt_red_def)
qed

text \<open>The far child of the sibling is red: the last rotation of the loop.\<close>

lemma delete_left_lift:
  assumes T: "tree_rep st (plug (FL c p (N False wl w (N True a b d)) # C) t)"
  obtains st' where "al_rbtree_left_rotate p (al_rbt_black b (al_rbt_black p (al_rbt_copy_color w p st))) = Some st'"
    "tree_rep st' (plug C (N c (N False t p wl) w (N False a b d)))" "keeps st st'"
proof -
  have "tree_rep st (plug (FR c t p # C) (N False wl w (N True a b d)))" using T by simp
  note 1 = recolor [OF this, of c]
  have "tree_rep (set_red w c st) (plug C (N c t p (N c wl w (N True a b d))))" using 1 by simp
  note 2 = recolor [OF this, of False]
  have "tree_rep (set_red p False (set_red w c st)) (plug (FR c wl w # FR False t p # C) (N True a b d))" using 2 by simp
  note 3 = recolor [OF this, of False]
  have k: "keeps st (set_red b False (set_red p False (set_red w c st)))"
    by (rule keeps_trans [OF keeps_trans [OF 1 [THEN conjunct2] 2 [THEN conjunct2]] 3 [THEN conjunct2]])
  have "tree_rep (set_red b False (set_red p False (set_red w c st))) (plug C (N False t p (N c wl w (N False a b d))))"
    using 3 by simp
  from left_rotateE [OF this] keeps_trans [OF k] that place_FL(3) [OF T]
  show ?thesis unfolding al_rbt_black_def al_rbt_copy_color_def by blast
qed

lemma delete_left_black_far:
  assumes T: "tree_rep st (plug (FL c p (N False wl w (N True a b d)) # C) t)" and par: "rb_parent st (rp st t) = Some p"
  shows "\<exists>st'. delete_left_black (rp st t) w st = Some (rb_root st', st') \<and>
    tree_rep st' (plug C (N c (N False t p wl) w (N False a b d))) \<and> keeps st st'"
proof -
  note 1 = place_FL [OF T, simplified]
  from delete_left_lift [OF T] obtain st' where "al_rbtree_left_rotate p (al_rbt_black b (al_rbt_black p (al_rbt_copy_color w p st))) = Some st'"
    "tree_rep st' (plug C (N c (N False t p wl) w (N False a b d)))" "keeps st st'" by blast
  then show ?thesis using 1 par by (simp add: delete_left_black_def)
qed

lemma delete_left_black_near:
  assumes T: "tree_rep st (plug (FL c p (N False (N True a b d) w wr) # C) t)" and par: "rb_parent st (rp st t) = Some p"
    and k: "\<not> rb_red st (rb_sentinel st)" "\<not> isred wr"
  shows "\<exists>st'. delete_left_black (rp st t) w st = Some (rb_root st', st') \<and>
    tree_rep st' (plug C (N c (N False t p a) b (N False d w wr))) \<and> keeps st st'"
proof -
  note 1 = place_FL [OF T, simplified]
  have "tree_rep st (plug (FL False w wr # FR c t p # C) (N True a b d))" using T by simp
  note 2 = recolor [OF this, of False]
  have "tree_rep (set_red b False st) (plug (FR c t p # C) (N False (N False a b d) w wr))" using 2 by simp
  note 3 = recolor [OF this, of True]
  have k2: "keeps st (set_red w True (set_red b False st))" by (rule keeps_trans [OF 2 [THEN conjunct2] 3 [THEN conjunct2]])
  obtain st1 where st1: "al_rbtree_right_rotate w (set_red w True (set_red b False st)) = Some st1"
    "tree_rep st1 (plug (FR c t p # C) (N False a b (N True d w wr)))" "keeps st st1"
    using right_rotateE [OF 3 [THEN conjunct1]] keeps_trans [OF k2] by blast
  have T1: "tree_rep st1 (plug (FL c p (N False a b (N True d w wr)) # C) t)" using st1(2) by simp
  note 4 = place_FL [OF T1, simplified]
  have par1: "rb_parent st1 (rp st t) = Some p" using temp_parent [OF T1 st1(3)] par by simp
  from delete_left_lift [OF T1] obtain st' where st': "al_rbtree_left_rotate p (al_rbt_black w (al_rbt_black p (al_rbt_copy_color b p st1))) = Some st'"
    "tree_rep st' (plug C (N c (N False t p a) b (N False d w wr)))" "keeps st1 st'" by blast
  have "\<not> rb_red st (rp st wr)" using 1 k by (simp add: red_rp)
  then show ?thesis using 1 par par1 4 st1(1) st' keeps_trans [OF st1(3) st'(3)]
    by (simp add: delete_left_black_def al_rbt_red_def al_rbt_black_def)
qed

text \<open>A round with a black sibling.\<close>

lemma delete_left_black:
  assumes T: "tree_rep st (plug (FL c p (N False wl w wr) # C) t)" and par: "rb_parent st (rp st t) = Some p"
    and k: "\<not> rb_red st (rb_sentinel st)" and i: "rbinv t" "cinv (FL c p (N False wl w wr) # C) (Suc (bh t))" "\<not> isred t"
  shows "\<exists>st'. delete_goes_on (delete_left_black (rp st t) w st) st (if c then 0 else length C) (plug (FL c p (N False wl w wr) # C) t) st'"
proof -
  consider "\<not> isred wl" "\<not> isred wr" | a b d where "wr = N True a b d" | a b d where "wl = N True a b d" "\<not> isred wr"
    by (cases wl; cases wr) auto
  then show ?thesis
  proof cases
    case 1
    from delete_left_black_red [OF T par k 1] show ?thesis
      using i 1 by (intro exI [of _ "set_red w True st"] delete_goes_onI [where D = C and t' = "N c t p (N True wl w wr)"]) (auto simp: inorder_plug)
  next
    case 2
    from delete_left_black_far [OF T [unfolded 2] par] obtain st' where st': "delete_left_black (rp st t) w st = Some (rb_root st', st')"
      "tree_rep st' (plug C (N c (N False t p wl) w (N False a b d)))" "keeps st st'" by blast
    show ?thesis by (intro exI [of _ st'] delete_goes_on_rootI [OF st']) (use i 2 in \<open>auto simp: inorder_plug\<close>)
  next
    case 3
    from delete_left_black_near [OF T [unfolded 3] par k 3(2)] obtain st' where st': "delete_left_black (rp st t) w st = Some (rb_root st', st')"
      "tree_rep st' (plug C (N c (N False t p a) b (N False d w wr)))" "keeps st st'" by blast
    show ?thesis by (intro exI [of _ st'] delete_goes_on_rootI [OF st']) (use i 3 in \<open>auto simp: inorder_plug\<close>)
  qed
qed

lemma delete_left_round:
  assumes T: "tree_rep st (plug (FL c p W # C) t)" and par: "rb_parent st (rp st t) = Some p"
    and k: "\<not> rb_red st (rb_sentinel st)" and i: "rbinv t" "cinv (FL c p W # C) (Suc (bh t))" "\<not> isred t"
  shows "\<exists>st'. delete_goes_on (delete_left (rp st t) st) st (length C) (plug (FL c p W # C) t) st'"
proof -
  note 1 = place_FL [OF T]
  have "W \<noteq> E" using i by auto
  then obtain cw wl w wr where W: "W = N cw wl w wr" by (cases W) auto
  show ?thesis
  proof (cases cw)
    case False
    then have W': "W = N False wl w wr" using W by simp
    then have "delete_left (rp st t) st = delete_left_black (rp st t) w st" using 1 W par by (simp add: delete_left_def)
    moreover obtain st' where st': "delete_goes_on (delete_left_black (rp st t) w st) st (if c then 0 else length C) (plug (FL c p W # C) t) st'"
      using delete_left_black [OF T [unfolded W'] par k i(1) i(2) [unfolded W'] i(3)] W' by auto
    have "delete_goes_on (delete_left_black (rp st t) w st) st (length C) (plug (FL c p W # C) t) st'" by (rule delete_goes_on_le [OF st']) simp
    ultimately show ?thesis by auto
  next
    case True
    have c: "\<not> c" "\<not> isred wl" using i(2) W True by simp_all
    obtain wa b wd where wl: "wl = N False wa b wd" using i(2) W True c(2) by (cases wl) auto
    have "tree_rep st (plug (FR False t p # C) (N True wl w wr))" using T W True c by simp
    note 2 = recolor [OF this, of False]
    have "tree_rep (set_red w False st) (plug C (N False t p (N False wl w wr)))" using 2 by simp
    note 3 = recolor [OF this, of True]
    have k2: "keeps st (set_red p True (set_red w False st))" by (rule keeps_trans [OF 2 [THEN conjunct2] 3 [THEN conjunct2]])
    obtain st1 where st1: "al_rbtree_left_rotate p (set_red p True (set_red w False st)) = Some st1"
      "tree_rep st1 (plug C (N False (N True t p wl) w wr))" "keeps st st1"
      using left_rotateE [OF 3 [THEN conjunct1]] keeps_trans [OF k2] by blast
    let ?f = "FL True p (N False wa b wd)"
    have T1: "tree_rep st1 (plug (?f # FL False w wr # C) t)" using st1(2) wl by simp
    have par1: "rb_parent st1 (rp st1 t) = Some p" "rp st1 t = rp st t" using temp_parent [OF T1 st1(3)] par keeps_rp [OF st1(3)] by simp_all
    have i1: "cinv (?f # FL False w wr # C) (Suc (bh t))" using i(2) W True c(1) wl by simp
    obtain st' where st': "delete_goes_on (delete_left_black (rp st1 t) b st1) st1 0 (plug (?f # FL False w wr # C) t) st'"
      using delete_left_black [OF T1 par1(1) keeps_red [OF st1(3) k] i(1) i1 i(3)] by auto
    have "delete_left (rp st t) st = delete_left_black (rp st1 t) b st1"
      using 1 W True par par1 st1(1) place_FL [OF T1, simplified] by (simp add: delete_left_def al_rbt_red_def al_rbt_black_def)
    moreover have "inorder (plug (?f # FL False w wr # C) t) = inorder (plug (FL c p W # C) t)" using W wl by (simp add: inorder_plug)
    ultimately show ?thesis using delete_goes_on_more [OF st' st1(3)] by metis
  qed
qed

lemma delete_right_black_red:
  assumes T: "tree_rep st (plug (FR c (N False wr w wl) p # C) t)" and par: "rb_parent st (rp st t) = Some p"
    and k: "\<not> rb_red st (rb_sentinel st)" "\<not> isred wl" "\<not> isred wr"
  shows "delete_right_black (rp st t) w st = Some (p, set_red w True st) \<and>
    tree_rep (set_red w True st) (plug C (N c (N True wr w wl) p t)) \<and> keeps st (set_red w True st)"
proof -
  note 1 = place_FR [OF T, simplified]
  have "tree_rep st (plug (FL c p t # C) (N False wr w wl))" using T by simp
  note 2 = recolor [OF this, of True]
  have "\<not> rb_red st (rp st wl)" "\<not> rb_red st (rp st wr)" using 1 k by (simp_all add: red_rp)
  then show ?thesis using 1 2 par by (simp add: delete_right_black_def al_rbt_red_def)
qed

text \<open>The far child of the sibling is red: the last rotation of the loop.\<close>

lemma delete_right_lift:
  assumes T: "tree_rep st (plug (FR c (N False (N True d b a) w wl) p # C) t)"
  obtains st' where "al_rbtree_right_rotate p (al_rbt_black b (al_rbt_black p (al_rbt_copy_color w p st))) = Some st'"
    "tree_rep st' (plug C (N c (N False d b a) w (N False wl p t)))" "keeps st st'"
proof -
  have "tree_rep st (plug (FL c p t # C) (N False (N True d b a) w wl))" using T by simp
  note 1 = recolor [OF this, of c]
  have "tree_rep (set_red w c st) (plug C (N c (N c (N True d b a) w wl) p t))" using 1 by simp
  note 2 = recolor [OF this, of False]
  have "tree_rep (set_red p False (set_red w c st)) (plug (FL c w wl # FL False p t # C) (N True d b a))" using 2 by simp
  note 3 = recolor [OF this, of False]
  have k: "keeps st (set_red b False (set_red p False (set_red w c st)))"
    by (rule keeps_trans [OF keeps_trans [OF 1 [THEN conjunct2] 2 [THEN conjunct2]] 3 [THEN conjunct2]])
  have "tree_rep (set_red b False (set_red p False (set_red w c st))) (plug C (N False (N c (N False d b a) w wl) p t))"
    using 3 by simp
  from right_rotateE [OF this] keeps_trans [OF k] that place_FR(3) [OF T]
  show ?thesis unfolding al_rbt_black_def al_rbt_copy_color_def by blast
qed

lemma delete_right_black_far:
  assumes T: "tree_rep st (plug (FR c (N False (N True d b a) w wl) p # C) t)" and par: "rb_parent st (rp st t) = Some p"
  shows "\<exists>st'. delete_right_black (rp st t) w st = Some (rb_root st', st') \<and>
    tree_rep st' (plug C (N c (N False d b a) w (N False wl p t))) \<and> keeps st st'"
proof -
  note 1 = place_FR [OF T, simplified]
  from delete_right_lift [OF T] obtain st' where "al_rbtree_right_rotate p (al_rbt_black b (al_rbt_black p (al_rbt_copy_color w p st))) = Some st'"
    "tree_rep st' (plug C (N c (N False d b a) w (N False wl p t)))" "keeps st st'" by blast
  then show ?thesis using 1 par by (simp add: delete_right_black_def)
qed

lemma delete_right_black_near:
  assumes T: "tree_rep st (plug (FR c (N False wr w (N True d b a)) p # C) t)" and par: "rb_parent st (rp st t) = Some p"
    and k: "\<not> rb_red st (rb_sentinel st)" "\<not> isred wr"
  shows "\<exists>st'. delete_right_black (rp st t) w st = Some (rb_root st', st') \<and>
    tree_rep st' (plug C (N c (N False wr w d) b (N False a p t))) \<and> keeps st st'"
proof -
  note 1 = place_FR [OF T, simplified]
  have "tree_rep st (plug (FR False wr w # FL c p t # C) (N True d b a))" using T by simp
  note 2 = recolor [OF this, of False]
  have "tree_rep (set_red b False st) (plug (FL c p t # C) (N False wr w (N False d b a)))" using 2 by simp
  note 3 = recolor [OF this, of True]
  have k2: "keeps st (set_red w True (set_red b False st))" by (rule keeps_trans [OF 2 [THEN conjunct2] 3 [THEN conjunct2]])
  obtain st1 where st1: "al_rbtree_left_rotate w (set_red w True (set_red b False st)) = Some st1"
    "tree_rep st1 (plug (FL c p t # C) (N False (N True wr w d) b a))" "keeps st st1"
    using left_rotateE [OF 3 [THEN conjunct1]] keeps_trans [OF k2] by blast
  have T1: "tree_rep st1 (plug (FR c (N False (N True wr w d) b a) p # C) t)" using st1(2) by simp
  note 4 = place_FR [OF T1, simplified]
  have par1: "rb_parent st1 (rp st t) = Some p" using temp_parent [OF T1 st1(3)] par by simp
  from delete_right_lift [OF T1] obtain st' where st': "al_rbtree_right_rotate p (al_rbt_black w (al_rbt_black p (al_rbt_copy_color b p st1))) = Some st'"
    "tree_rep st' (plug C (N c (N False wr w d) b (N False a p t)))" "keeps st1 st'" by blast
  have "\<not> rb_red st (rp st wr)" using 1 k by (simp add: red_rp)
  then show ?thesis using 1 par par1 4 st1(1) st' keeps_trans [OF st1(3) st'(3)]
    by (simp add: delete_right_black_def al_rbt_red_def al_rbt_black_def)
qed

text \<open>A round with a black sibling.\<close>

lemma delete_right_black:
  assumes T: "tree_rep st (plug (FR c (N False wr w wl) p # C) t)" and par: "rb_parent st (rp st t) = Some p"
    and k: "\<not> rb_red st (rb_sentinel st)" and i: "rbinv t" "cinv (FR c (N False wr w wl) p # C) (Suc (bh t))" "\<not> isred t"
  shows "\<exists>st'. delete_goes_on (delete_right_black (rp st t) w st) st (if c then 0 else length C) (plug (FR c (N False wr w wl) p # C) t) st'"
proof -
  consider "\<not> isred wl" "\<not> isred wr" | a b d where "wr = N True d b a" | a b d where "wl = N True d b a" "\<not> isred wr"
    by (cases wl; cases wr) auto
  then show ?thesis
  proof cases
    case 1
    from delete_right_black_red [OF T par k 1] show ?thesis
      using i 1 by (intro exI [of _ "set_red w True st"] delete_goes_onI [where D = C and t' = "N c (N True wr w wl) p t"]) (auto simp: inorder_plug)
  next
    case 2
    from delete_right_black_far [OF T [unfolded 2] par] obtain st' where st': "delete_right_black (rp st t) w st = Some (rb_root st', st')"
      "tree_rep st' (plug C (N c (N False d b a) w (N False wl p t)))" "keeps st st'" by blast
    show ?thesis by (intro exI [of _ st'] delete_goes_on_rootI [OF st']) (use i 2 in \<open>auto simp: inorder_plug\<close>)
  next
    case 3
    from delete_right_black_near [OF T [unfolded 3] par k 3(2)] obtain st' where st': "delete_right_black (rp st t) w st = Some (rb_root st', st')"
      "tree_rep st' (plug C (N c (N False wr w d) b (N False a p t)))" "keeps st st'" by blast
    show ?thesis by (intro exI [of _ st'] delete_goes_on_rootI [OF st']) (use i 3 in \<open>auto simp: inorder_plug\<close>)
  qed
qed

lemma delete_right_round:
  assumes T: "tree_rep st (plug (FR c W p # C) t)" and par: "rb_parent st (rp st t) = Some p"
    and k: "\<not> rb_red st (rb_sentinel st)" and i: "rbinv t" "cinv (FR c W p # C) (Suc (bh t))" "\<not> isred t"
  shows "\<exists>st'. delete_goes_on (delete_right (rp st t) st) st (length C) (plug (FR c W p # C) t) st'"
proof -
  note 1 = place_FR [OF T]
  have "W \<noteq> E" using i by auto
  then obtain cw wl w wr where W: "W = N cw wr w wl" by (cases W) auto
  show ?thesis
  proof (cases cw)
    case False
    then have W': "W = N False wr w wl" using W by simp
    then have "delete_right (rp st t) st = delete_right_black (rp st t) w st" using 1 W par by (simp add: delete_right_def)
    moreover obtain st' where st': "delete_goes_on (delete_right_black (rp st t) w st) st (if c then 0 else length C) (plug (FR c W p # C) t) st'"
      using delete_right_black [OF T [unfolded W'] par k i(1) i(2) [unfolded W'] i(3)] W' by auto
    have "delete_goes_on (delete_right_black (rp st t) w st) st (length C) (plug (FR c W p # C) t) st'" by (rule delete_goes_on_le [OF st']) simp
    ultimately show ?thesis by auto
  next
    case True
    have c: "\<not> c" "\<not> isred wl" using i(2) W True by simp_all
    obtain wa b wd where wl: "wl = N False wd b wa" using i(2) W True c(2) by (cases wl) auto
    have "tree_rep st (plug (FL False p t # C) (N True wr w wl))" using T W True c by simp
    note 2 = recolor [OF this, of False]
    have "tree_rep (set_red w False st) (plug C (N False (N False wr w wl) p t))" using 2 by simp
    note 3 = recolor [OF this, of True]
    have k2: "keeps st (set_red p True (set_red w False st))" by (rule keeps_trans [OF 2 [THEN conjunct2] 3 [THEN conjunct2]])
    obtain st1 where st1: "al_rbtree_right_rotate p (set_red p True (set_red w False st)) = Some st1"
      "tree_rep st1 (plug C (N False wr w (N True wl p t)))" "keeps st st1"
      using right_rotateE [OF 3 [THEN conjunct1]] keeps_trans [OF k2] by blast
    let ?f = "FR True (N False wd b wa) p"
    have T1: "tree_rep st1 (plug (?f # FR False wr w # C) t)" using st1(2) wl by simp
    have par1: "rb_parent st1 (rp st1 t) = Some p" "rp st1 t = rp st t" using temp_parent [OF T1 st1(3)] par keeps_rp [OF st1(3)] by simp_all
    have i1: "cinv (?f # FR False wr w # C) (Suc (bh t))" using i(2) W True c(1) wl by simp
    obtain st' where st': "delete_goes_on (delete_right_black (rp st1 t) b st1) st1 0 (plug (?f # FR False wr w # C) t) st'"
      using delete_right_black [OF T1 par1(1) keeps_red [OF st1(3) k] i(1) i1 i(3)] by auto
    have "delete_right (rp st t) st = delete_right_black (rp st1 t) b st1"
      using 1 W True par par1 st1(1) place_FR [OF T1, simplified] by (simp add: delete_right_def al_rbt_red_def al_rbt_black_def)
    moreover have "inorder (plug (?f # FR False wr w # C) t) = inorder (plug (FR c W p # C) t)" using W wl by (simp add: inorder_plug)
    ultimately show ?thesis using delete_goes_on_more [OF st' st1(3)] by metis
  qed
qed

definition rebalanced :: "rbtree \<Rightarrow> rbt \<Rightarrow> rbtree \<Rightarrow> bool" where
  "rebalanced st t st' \<longleftrightarrow> (\<exists>t'. tree_rep st' t' \<and> rbinv t' \<and> \<not> isred t' \<and> inorder t' = inorder t) \<and> keeps st st'"

lemma delete_fixup_exit:
  assumes T: "tree_rep st (plug C t)" and c: "C = [] \<or> isred t" and i: "rbinv (blacken t)" "cinv C (Suc (bh t))"
    and k: "\<not> rb_red st (rb_sentinel st)"
  shows "\<exists>st'. delete_fixup (rp st t) st = Some st' \<and> rebalanced st (plug C t) st'"
proof -
  have "tr st t" "C = [] \<Longrightarrow> rb_root st = rp st t" using T tree_rep_plug [of st C t] by (auto simp: tree_rep_def)
  then have ex: "delete_fixup (rp st t) st = Some (set_red (rp st t) False st)"
    using c k by (subst delete_fixup.simps) (auto simp: red_rp al_rbt_black_def)
  show ?thesis
  proof (cases t)
    case E
    then have "tree_rep (set_red (rp st t) False st) E" "C = []" using T c by (simp_all add: tree_rep_def)
    then show ?thesis using ex E k unfolding rebalanced_def
      by (intro exI [of _ "set_red (rp st t) False st"] conjI exI [of _ E]) (simp_all add: keeps_def)
  next
    case (N d l a r)
    note T' = recolor [OF T [unfolded N], of False]
    have "rbinv (plug C (N False l a r)) \<and> \<not> isred (plug C (N False l a r))"
      using inv_plug [of C "N False l a r"] i c N by auto
    then have "rebalanced st (plug C t) (set_red a False st)"
      using T' N unfolding rebalanced_def by (intro conjI exI [of _ "plug C (N False l a r)"]) (simp_all add: inorder_plug)
    then show ?thesis using ex N by simp
  qed
qed

lemma delete_fixup:
  assumes "tree_rep st (plug C t)" "rbinv (blacken t)" "cinv C (Suc (bh t))" "\<not> rb_red st (rb_sentinel st)"
    "C \<noteq> [] \<longrightarrow> rb_parent st (rp st t) = Some (fa (hd C))"
  shows "\<exists>st'. delete_fixup (rp st t) st = Some st' \<and> rebalanced st (plug C t) st'"
  using assms
proof (induction C arbitrary: st t rule: length_induct)
  case (1 C)
  note T = "1.prems"(1) and i = "1.prems"(2,3) and k = "1.prems"(4) and par = "1.prems"(5)
  show ?case
  proof (cases "C = [] \<or> isred t")
    case True
    then show ?thesis by (rule delete_fixup_exit [OF T _ i k])
  next
    case False
    then obtain f D where C: "C = f # D" by (cases C) auto
    have black: "\<not> isred t" "rbinv t" using False i by (cases t; auto)+
    have par': "rb_parent st (rp st t) = Some (fa f)" using par C by simp
    note T' = T [unfolded C]
    have root: "rp st t \<noteq> rb_root st"
    proof (cases "t = E")
      case True
      have "plug C t \<noteq> E" using C by simp
      then have "rb_root st \<noteq> rb_sentinel st" using T rp_sentinel [of st "plug C t"] by (simp add: tree_rep_def)
      then show ?thesis using True by simp
    next
      case False
      then show ?thesis using place_parent [OF T' False] by simp
    qed
    obtain st1 where g: "delete_goes_on (if rb_left st (fa f) = Some (rp st t) then delete_left (rp st t) st else delete_right (rp st t) st) st (length D) (plug C t) st1"
    proof (cases f)
      case (FL c p W)
      then show ?thesis using delete_left_round [of st c p W D t] T' par' k black i(2) place_FL [of st c p W D t] that C by auto
    next
      case (FR c W p)
      have "W \<noteq> E" using i(2) C FR by auto
      then have "rb_left st p \<noteq> Some (rp st t)" using place_FR [OF T' [unfolded FR]] rp_sentinel [of st W] by (cases "t = E") auto
      then show ?thesis using delete_right_round [of st c W p D t] T' par' k black i(2) place_FR [of st c W p D t] that C FR by auto
    qed
    then obtain D' t' where r: "(if rb_left st (fa f) = Some (rp st t) then delete_left (rp st t) st else delete_right (rp st t) st) = Some (rp st1 t', st1)"
      "tree_rep st1 (plug D' t')" "t' \<noteq> E" "rbinv (blacken t')" "cinv D' (Suc (bh t'))" "isred t' \<or> length D' \<le> length D"
      "inorder (plug D' t') = inorder (plug C t)" "keeps st st1" unfolding delete_goes_on_def by blast
    have step: "delete_fixup (rp st t) st = delete_fixup (rp st1 t') st1"
      using root black k T par' r(1) red_rp [of st t] by (subst delete_fixup.simps) (simp add: tree_rep_plug)
    have k1: "\<not> rb_red st1 (rb_sentinel st1)" by (rule keeps_red [OF r(8) k])
    have par1: "D' \<noteq> [] \<longrightarrow> rb_parent st1 (rp st1 t') = Some (fa (hd D'))" using r(2,3) by (simp add: tree_rep_plug)
    have "\<exists>st'. delete_fixup (rp st1 t') st1 = Some st' \<and> rebalanced st1 (plug D' t') st'"
    proof (cases "isred t'")
      case True
      then show ?thesis using delete_fixup_exit [OF r(2) _ r(4,5) k1] by blast
    next
      case False
      then have "length D' < length C" using r(6) C by simp
      then show ?thesis using "1.IH" r(2,4,5) k1 par1 by blast
    qed
    then show ?thesis using step r(7) keeps_trans [OF r(8)] unfolding rebalanced_def by auto
  qed
qed

text \<open>The node \<open>m\<close> takes the place of the node \<open>a\<close>.\<close>

lemma delete_move:
  assumes C: "cx st C a" "cdist C" "C \<noteq> [] \<longrightarrow> rb_parent st a = Some (fa (hd C))"
    and t: "tr st l" "tr st r" "l \<noteq> E" "distinct (inorder l)" "distinct (inorder r)"
    and a: "rb_left st a = Some (rp st l)" "rb_right st a = Some (rp st r)" "rb_red st a = c" "a \<noteq> rb_sentinel st" "m \<noteq> rb_sentinel st" "m \<noteq> a"
    and d: "set (inorder l) \<inter> set (inorder r) = {}" "(set (inorder l) \<union> set (inorder r)) \<inter> cset C = {}"
      "a \<notin> set (inorder l) \<union> set (inorder r) \<union> cset C" "m \<notin> set (inorder l) \<union> set (inorder r) \<union> cset C"
  shows "\<exists>st'. delete_move a m st = Some st' \<and> tree_rep st' (plug C (N c l m r)) \<and> rb_key st' = rb_key st \<and> rb_sentinel st' = rb_sentinel st \<and>
    rb_red st' (rb_sentinel st) = rb_red st (rb_sentinel st) \<and>
    (\<forall>x. x \<noteq> m \<and> x \<noteq> rp st l \<and> (x \<noteq> rp st r \<or> r = E) \<longrightarrow> rb_parent st' x = rb_parent st x)"
proof -
  define st1 where "st1 = set_red m c (set_parent m (rb_parent st a) (set_right m (Some (rp st r)) (set_left m (Some (rp st l)) st)))"
  have s: "rb_sentinel st \<notin> set (inorder l)" "rb_sentinel st \<notin> set (inorder r)" "rb_sentinel st \<notin> cset C"
    using t tr_sentinel cx_sentinel [OF C(1)] by auto
  have rl: "rp st l \<notin> set (inorder r)" "rp st l \<notin> cset C" "rp st l \<noteq> m" "rp st l \<noteq> rb_sentinel st"
    using rp_in [OF t(3), of st] d s by auto
  have rr: "rp st r \<notin> set (inorder l)" "rp st r \<notin> cset C" "rp st r \<noteq> m" "rp st r \<noteq> rp st l"
    using rp_in [of r st] rp_in [OF t(3), of st] d s a(5) by (cases "r = E"; auto)+
  have st1: "cx st1 C a" "tr st1 l" "tr st1 r" "rb_sentinel st1 = rb_sentinel st" "rb_key st1 = rb_key st" "rb_parent st1 a = rb_parent st a"
    "rb_left st1 m = Some (rp st l)" "rb_right st1 m = Some (rp st r)" "rb_red st1 m = c" "rb_parent st1 = (rb_parent st)(m := rb_parent st a)"
    "rb_red st1 (rb_sentinel st) = rb_red st (rb_sentinel st)"
    using C(1) t d a by (simp_all add: st1_def)
  obtain st2 where st2: "relinked C st1 st2" "cx st2 C m" "give_place a m st1 = Some st2"
    using relink [OF st1(1), of m] d C a(4) st1(4,6) by auto
  have f2: "rb_parent st2 = rb_parent st1" "rb_sentinel st2 = rb_sentinel st" "rb_key st2 = rb_key st" "rb_red st2 = rb_red st1"
    "rb_left st2 m = Some (rp st l)" "rb_right st2 m = Some (rp st r)"
    using st2(1) st1 d(4) by (simp_all add: relinked_def)
  have dl: "set (inorder l) \<inter> cset C = {}" "set (inorder r) \<inter> cset C = {}" using d(2) by auto
  have t2: "tr st2 l" "tr st2 r" using relinked_tr [OF st2(1) dl(1)] relinked_tr [OF st2(1) dl(2)] st1 by simp_all
  have rp2: "rp st2 u = rp st u" for u using f2(2) by (cases u) simp_all
  let ?st = "(if r = E then id else set_parent (rp st r) (Some m)) (set_parent (rp st l) (Some m) st2)"
  have "delete_move a m st = Some ?st"
    unfolding delete_move_def give_place_def [symmetric]
    using a st2(3) f2 rl rr rp_sentinel [OF t(2)] by (simp add: Let_def al_rbt_copy_color_def st1_def)
  moreover have "tree_rep ?st (plug C (N c l m r))"
    unfolding tree_rep_plug using t t2 st2(2) f2 st1 rl rr rp2 d C a by simp
  moreover have "\<forall>x. x \<noteq> m \<and> x \<noteq> rp st l \<and> (x \<noteq> rp st r \<or> r = E) \<longrightarrow> rb_parent ?st x = rb_parent st x"
    using f2(1) st1(10) by simp
  ultimately show ?thesis using f2 st1(11) by auto
qed

text \<open>A subtree is cut out and a part of it put in its place.\<close>

lemma unlink:
  assumes T: "tree_rep st (plug (f # D) t)" "t \<noteq> E" and u: "tr st u" "distinct (inorder u)" "set (inorder u) \<subseteq> set (inorder t)"
  defines "st1 \<equiv> (if rb_left st (fa f) = Some (rp st t) then set_left (fa f) (Some (rp st u)) st else set_right (fa f) (Some (rp st u)) st)"
  shows "tree_rep (set_parent (rp st u) (Some (fa f)) st1) (plug (f # D) u)"
proof -
  note facts = T [unfolded tree_rep_plug]
  have s: "rb_sentinel st \<notin> cset (f # D)" using cx_sentinel [of st "f # D" "rp st t"] facts by blast
  have ru: "rp st u \<notin> cset (f # D)" "rp st u \<noteq> fa f" "sib f \<noteq> E \<longrightarrow> rp st u \<noteq> rp st (sib f)"
    using rp_in [of u st] rp_in [of "sib f" st] s u(3) facts by (cases "u = E"; fastforce)+
  have fu: "fa f \<notin> set (inorder u)" "set (inorder u) \<inter> cset (f # D) = {}" using u(3) facts by auto
  show ?thesis
  proof (cases f)
    case (FL c p r)
    then have "st1 = set_left p (Some (rp st u)) st" using facts by (simp add: st1_def)
    then show ?thesis unfolding tree_rep_plug using facts ru u fu FL by simp
  next
    case (FR c l p)
    have "rb_left st p \<noteq> Some (rp st t)" using place_FR [OF T(1) [unfolded FR]] T(2) by simp
    then have "st1 = set_right p (Some (rp st u)) st" by (simp add: st1_def FR)
    then show ?thesis unfolding tree_rep_plug using facts ru u fu FR by simp
  qed
qed

lemma delete_finish:
  assumes "tree_rep st (plug X q)" "X \<noteq> []" "rbinv q" "cinv X (if d then bh q else Suc (bh q))" "d \<longrightarrow> \<not> isred q"
    "\<not> rb_red st (rb_sentinel st)" "rb_parent st (rp st q) = Some (fa (hd X))"
  shows "\<exists>st'. (if d then Some st else delete_fixup (rp st q) st) = Some st' \<and> rebalanced st (plug X q) st'"
proof (cases d)
  case True
  have "rbinv (plug X q) \<and> \<not> isred (plug X q)" using inv_plug [of X q] assms True by simp
  then have "rebalanced st (plug X q) st" using assms(1) unfolding rebalanced_def by (intro conjI exI [of _ "plug X q"]) simp_all
  then show ?thesis using True by simp
next
  case False
  then show ?thesis using delete_fixup [of st X q] assms blacken_inv by simp
qed

lemma tree_rep_clear:
  assumes "a \<notin> set (inorder t)"
  shows "tree_rep (clear_node a st) t = tree_rep st t"
proof -
  have "rp (clear_node a st) u = rp st u" for u by (cases u) (simp_all add: clear_node_def)
  moreover have "tr (clear_node a st) u = tr (set_parent a None (set_right a None (set_left a None st))) u" for u
  proof (induction u)
    case (N c l b r)
    have "rp (clear_node a st) u = rp st u" for u by (cases u) (simp_all add: clear_node_def)
    then show ?case using N by (simp add: clear_node_def)
  qed simp
  ultimately show ?thesis using assms by (simp add: tree_rep_def) (simp add: clear_node_def)
qed

lemma clear_node_simps [simp]:
  "rb_parent (clear_node a st) = (rb_parent st)(a := None)" "rb_red (clear_node a st) = rb_red st"
  "rb_sentinel (clear_node a st) = rb_sentinel st" "rb_key (clear_node a st) = (rb_key st)(a := 0)" "rb_root (clear_node a st) = rb_root st"
  by (simp_all add: clear_node_def)

lemma rp_clear [simp]: "rp (clear_node a st) t = rp st t"
  by (cases t) simp_all

lemma cinv_addr: "cinv (D @ FR c l a # C) n = cinv (D @ FR c l m # C) n"
proof (induction D arbitrary: n)
  case (Cons f D)
  then show ?case by (cases D) simp_all
qed simp

text \<open>
  \<open>deleted st t a st'\<close>: the memory \<open>st'\<close> holds what is left of the tree \<open>t\<close> of \<open>st\<close> without \<open>a\<close>.
\<close>

definition deleted :: "rbtree \<Rightarrow> rbt \<Rightarrow> addr \<Rightarrow> rbtree \<Rightarrow> bool" where
  "deleted st t a st' \<longleftrightarrow> (\<exists>t'. rb_tree st' t' \<and> inorder t' = remove1 a (inorder t)) \<and> rb_key st' = (rb_key st)(a := 0) \<and>
     rb_sentinel st' = rb_sentinel st"

lemma deletedI:
  assumes "rb_tree st t" "a \<in> set (inorder t)" "rebalanced st1 t1 st'" "inorder t1 = remove1 a (inorder t)"
    "rb_key st1 = (rb_key st)(a := 0)" "rb_sentinel st1 = rb_sentinel st" "\<not> rb_red st1 (rb_sentinel st)"
  shows "deleted st t a st'"
proof -
  obtain t' where t': "tree_rep st' t'" "rbinv t'" "\<not> isred t'" "inorder t' = inorder t1" and k: "keeps st1 st'"
    using assms(3) unfolding rebalanced_def by blast
  have d: "distinct (inorder t)" "sorted (map (rb_key st) (inorder t))" using assms(1) by (simp_all add: rb_tree_def tree_rep_def)
  have "map (rb_key st') (inorder t') = map (rb_key st) (remove1 a (inorder t))"
    using t'(4) assms(4,5) k d(1) by (simp add: keeps_def)
  moreover have "sorted (map (rb_key st) (remove1 a (inorder t)))" by (rule sorted_map_remove1 [OF d(2)])
  ultimately have "rb_tree st' t'" using t' k assms(6,7) by (simp add: rb_tree_def keeps_def)
  moreover have "rb_key st' = (rb_key st)(a := 0)" "rb_sentinel st' = rb_sentinel st" using assms(5,6) k by (simp_all add: keeps_def)
  ultimately show ?thesis using t'(4) assms(4) unfolding deleted_def by auto
qed

lemma remove1_place: "distinct (inorder (plug C (N c l a r))) \<Longrightarrow> remove1 a (inorder (plug C (N c l a r))) = before C @ inorder l @ inorder r @ behind C"
proof -
  have "a \<notin> set xs \<Longrightarrow> remove1 a (xs @ a # ys) = xs @ ys" for xs ys :: "addr list" by (simp add: remove1_append)
  from this [of "before C @ inorder l" "inorder r @ behind C"] show "distinct (inorder (plug C (N c l a r))) \<Longrightarrow> remove1 a (inorder (plug C (N c l a r))) = before C @ inorder l @ inorder r @ behind C"
    by (simp add: inorder_plug)
qed

text \<open>A node with at most one child.\<close>

lemma delete_one_child:
  assumes R: "rb_tree st (plug C (N c l a r))" and u: "l = E \<and> u = r \<or> r = E \<and> u = l"
  shows "\<exists>st'. al_rbtree_delete a st = Some st' \<and> deleted st (plug C (N c l a r)) a st'"
proof -
  have T: "tree_rep st (plug C (N c l a r))" and k: "\<not> rb_red st (rb_sentinel st)" using R by (simp_all add: rb_tree_def)
  have i: "cinv C (bh (N c l a r))" "rbinv (N c l a r)" using inv_plug [of C "N c l a r"] R by (simp_all add: rb_tree_def)
  note facts = T [unfolded tree_rep_plug]
  have tu: "tr st u" "distinct (inorder u)" "set (inorder u) \<subseteq> set (inorder (N c l a r))" "a \<notin> set (inorder u)" "rbinv u" "c \<longrightarrow> \<not> isred u" "bh u = bh l"
    using facts u i by auto
  have sub: "delete_subst a st = Some (a, rp st u)" using facts u by (auto simp: delete_subst_def)
  have dist: "distinct (inorder (plug C (N c l a r)))" using T by (simp add: tree_rep_def)
  have ino: "inorder (plug C u) = remove1 a (inorder (plug C (N c l a r)))" using u remove1_place [OF dist] by (auto simp: inorder_plug)
  have aC: "a \<notin> cset C" "a \<noteq> rb_sentinel st" "rp st u \<noteq> a" using facts tu(4) by (auto simp: rp_neq)
  then have au: "a \<notin> set (inorder (plug C u))" using tu(4) by (simp add: inorder_plug cset_def)
  have mem: "a \<in> set (inorder (plug C (N c l a r)))" by (simp add: inorder_plug)
  show ?thesis
  proof (cases C)
    case Nil
    let ?st0 = "clear_node a (set_root (rp st u) st)"
    have "tree_rep ?st0 (plug [] u)" using tu au Nil by (simp add: tree_rep_clear) (simp add: tree_rep_def)
    from delete_fixup_exit [OF this] tu(5) k blacken_inv
    obtain st' where st': "delete_fixup (rp st u) ?st0 = Some st'" "rebalanced ?st0 u st'" by auto
    have "delete_fixup (rp st u) ?st0 = Some (al_rbt_black (rp st u) ?st0)" by (subst delete_fixup.simps) simp
    moreover have "al_rbt_black (rp st u) ?st0 = clear_node a (al_rbt_black (rp st u) (set_root (rp st u) st))"
      by (simp add: clear_node_def al_rbt_black_def rb_set_defs)
    moreover have "a = rb_root st" using T Nil by (simp add: tree_rep_def)
    ultimately have "al_rbtree_delete a st = Some st'" using st'(1) sub by (simp add: al_rbtree_delete_def)
    moreover have "deleted st (plug C (N c l a r)) a st'"
      by (rule deletedI [OF R mem st'(2)]) (use ino Nil k in simp_all)
    ultimately show ?thesis by blast
  next
    case (Cons f D)
    have root: "a \<noteq> rb_root st" and par: "rb_parent st a = Some (fa f)" using place_parent [OF T [unfolded Cons]] by simp_all
    define st1 where "st1 = (if rb_left st (fa f) = Some a then set_left (fa f) (Some (rp st u)) st else set_right (fa f) (Some (rp st u)) st)"
    define st2 where "st2 = clear_node a (set_parent (rp st u) (Some (fa f)) st1)"
    have f1: "rb_sentinel st1 = rb_sentinel st" "rb_red st1 = rb_red st" "rb_key st1 = rb_key st" "rb_parent st1 = rb_parent st" by (simp_all add: st1_def)
    have f2: "rb_sentinel st2 = rb_sentinel st" "rb_red st2 = rb_red st" "rb_key st2 = (rb_key st)(a := 0)" "rb_parent st2 (rp st u) = Some (fa f)"
      using aC(3) f1 by (simp_all add: st2_def)
    have rp2: "rp st2 u = rp st u" using f2(1) by (cases u) simp_all
    have T2: "tree_rep st2 (plug (f # D) u)"
      using unlink [OF T [unfolded Cons] _ tu(1-3)] au Cons by (simp add: st2_def st1_def tree_rep_clear)
    have i2: "cinv (f # D) (if c then bh u else Suc (bh u))" using i(1) tu(7) Cons by (auto split: if_splits)
    have "\<exists>st'. (if c then Some st2 else delete_fixup (rp st u) st2) = Some st' \<and> rebalanced st2 (plug C u) st'"
      using delete_finish [OF T2 _ tu(5) i2 tu(6)] f2(1,2,4) rp2 k unfolding Cons by (simp split del: if_split cong: if_cong)
    then obtain st' where st': "(if c then Some st2 else delete_fixup (rp st u) st2) = Some st'" "rebalanced st2 (plug C u) st'" by blast
    have "al_rbtree_delete a st = (if c then Some st2 else delete_fixup (rp st u) st2)"
      using sub root par facts f1 by (simp add: al_rbtree_delete_def Let_def st2_def st1_def [symmetric] split del: if_split cong: if_cong)
    moreover have "deleted st (plug C (N c l a r)) a st'"
      by (rule deletedI [OF R mem st'(2) ino f2(3,1)]) (use f2 k in simp)
    ultimately show ?thesis using st'(1) by simp
  qed
qed

lemma set_parent_twice [simp]: "set_parent x v (set_parent x w st) = set_parent x v st"
  by (simp add: set_parent_def)

lemma set_inorder_plug: "set (inorder (plug C t)) = cset C \<union> set (inorder t)"
  by (auto simp: inorder_plug cset_def)

lemma cset_append: "cset (C @ D) = cset C \<union> cset D"
  by (auto simp: cset_def before_append behind_append)

text \<open>A node with two children: the smallest node behind it takes its place.\<close>

lemma delete_two_children_move:
  assumes T: "tree_rep st (plug (D @ FR c l a # C) (N d E m q))" and l: "l \<noteq> E"
  defines "p \<equiv> fa (hd (D @ FR c l a # C))"
  defines "st1 \<equiv> (if rb_left st p = Some m then set_left p (Some (rp st q)) st else set_right p (Some (rp st q)) st)"
  shows "rb_parent st m = Some p \<and> m \<noteq> rb_root st \<and> m \<noteq> a \<and> (\<exists>st3. delete_move a m
      (if rb_parent st1 m = Some a then set_parent (rp st q) (Some m) st1 else set_parent (rp st q) (rb_parent st1 m) st1) = Some st3 \<and>
    tree_rep st3 (plug (D @ FR c l m # C) q) \<and> rb_parent st3 (rp st q) = Some (fa (hd (D @ FR c l m # C))) \<and>
    rb_key st3 = rb_key st \<and> rb_sentinel st3 = rb_sentinel st \<and> rb_red st3 (rb_sentinel st) = rb_red st (rb_sentinel st))"
proof -
  obtain g Y where X: "D @ FR c l a # C = g # Y" by (cases D) auto
  have p: "p = fa g" using X by (simp add: p_def)
  note par = place_parent [OF T [unfolded X], simplified]
  have facts: "tr st q" "distinct (inorder q)" "m \<notin> set (inorder q)" "m \<noteq> rb_sentinel st" "m \<notin> cset (D @ FR c l a # C)"
    "cdist (D @ FR c l a # C)" "set (inorder q) \<inter> cset (D @ FR c l a # C) = {}"
    using T [unfolded tree_rep_plug] by simp_all
  define st2 where "st2 = set_parent (rp st q) (Some p) st1"
  have f1: "rb_sentinel st1 = rb_sentinel st" "rb_red st1 = rb_red st" "rb_key st1 = rb_key st" "rb_parent st1 = rb_parent st" by (simp_all add: st1_def)
  have rp1: "rp st1 u = rp st u" for u using f1(1) by (cases u) simp_all
  have sub: "set (inorder q) \<subseteq> set (inorder (N d E m q))" by auto
  have T2: "tree_rep st2 (plug (D @ FR c l a # C) q)"
    using unlink [OF T [unfolded X] _ facts(1,2) sub] unfolding X by (simp add: st2_def st1_def p split del: if_split cong: if_cong)
  then have T3: "tree_rep st2 (plug C (N c l a (plug D q)))" by (simp add: plug_append)
  note F = T3 [unfolded tree_rep_plug, simplified]
  have m: "m \<notin> set (inorder l) \<union> set (inorder (plug D q)) \<union> cset C" "m \<noteq> a"
    using facts(3,5) by (simp_all add: set_inorder_plug cset_append)
  have s2: "rb_sentinel st2 = rb_sentinel st" "rb_red st2 = rb_red st" "rb_key st2 = rb_key st" using f1 by (simp_all add: st2_def)
  have rp2: "rp st2 u = rp st u" for u using s2(1) by (cases u) simp_all
  define st2' where "st2' = (if rb_parent st1 m = Some a then set_parent (rp st q) (Some m) st1 else set_parent (rp st q) (rb_parent st1 m) st1)"
  have st2': "st2' = (if D = [] then set_parent (rp st q) (Some m) st2 else st2)"
  proof (cases D)
    case Nil
    then show ?thesis using par f1(4) by (simp add: st2'_def st2_def p_def p [symmetric])
  next
    case (Cons f D')
    then have "p \<noteq> a" using facts(6) by (auto simp: p_def cset_append)
    then show ?thesis using par f1(4) Cons by (simp add: st2'_def st2_def p [symmetric])
  qed
  have rq: "rp st q \<notin> cset C" "rp st q \<notin> set (inorder l)" "rp st q \<noteq> a"
    using T2 [unfolded tree_rep_plug] cx_sentinel [of st2 "D @ FR c l a # C"] rp_in [of q st] s2(1)
    by (cases "q = E"; fastforce simp: cset_append)+
  have s2': "rb_sentinel st2' = rb_sentinel st" "rb_red st2' = rb_red st" "rb_key st2' = rb_key st" "rb_left st2' = rb_left st2" "rb_right st2' = rb_right st2"
    using s2 by (simp_all add: st2')
  have rp2': "rp st2' u = rp st u" for u using s2'(1) by (cases u) simp_all
  have H: "cx st2' C a" "tr st2' l" "tr st2' (plug D q)" "rb_parent st2' a = rb_parent st2 a"
    using F facts(2) rq s2(1) rp2 tr_parent_root [of q st st2 "Some m"] by (cases "D = []"; simp add: st2')+
  have "\<exists>st3. delete_move a m st2' = Some st3 \<and> tree_rep st3 (plug C (N c l m (plug D q))) \<and> rb_key st3 = rb_key st2' \<and>
    rb_sentinel st3 = rb_sentinel st2' \<and> rb_red st3 (rb_sentinel st2') = rb_red st2' (rb_sentinel st2') \<and>
    (\<forall>x. x \<noteq> m \<and> x \<noteq> rp st2' l \<and> (x \<noteq> rp st2' (plug D q) \<or> plug D q = E) \<longrightarrow> rb_parent st3 x = rb_parent st2' x)"
    by (rule delete_move) (use F H l m facts(4) s2 s2' rp2 rp2' in \<open>simp_all\<close>)
  then obtain st3 where st3: "delete_move a m st2' = Some st3" "tree_rep st3 (plug C (N c l m (plug D q)))" "rb_key st3 = rb_key st2'"
    "rb_sentinel st3 = rb_sentinel st2'" "rb_red st3 (rb_sentinel st2') = rb_red st2' (rb_sentinel st2')"
    "\<And>x. x \<noteq> m \<and> x \<noteq> rp st2' l \<and> (x \<noteq> rp st2' (plug D q) \<or> plug D q = E) \<Longrightarrow> rb_parent st3 x = rb_parent st2' x" by blast
  have T4: "tree_rep st3 (plug (D @ FR c l m # C) q)" using st3(2) by (simp add: plug_append)
  have "rb_parent st3 (rp st q) = Some (fa (hd (D @ FR c l m # C)))"
  proof (cases "q = E")
    case True
    have "rb_parent st2' (rb_sentinel st) = Some (fa (hd (D @ FR c l m # C)))"
      using True by (cases D) (simp_all add: st2' st2_def p_def)
    moreover have "rp st l \<noteq> rb_sentinel st" using F l s2(1) rp_sentinel [of st2 l] rp2 by simp
    moreover have "rp st (plug D q) = rb_sentinel st \<longrightarrow> plug D q = E" using F s2(1) rp_sentinel [of st2 "plug D q"] rp2 by simp
    ultimately show ?thesis using st3(6) [of "rb_sentinel st"] facts(4) True rp2' by auto
  next
    case False
    have "rp st3 q = rp st q" using False by (cases q) simp_all
    then show ?thesis using T4 [unfolded tree_rep_plug] False by simp
  qed
  then show ?thesis using par p st3 T4 s2' m(2) by (simp add: st2'_def)
qed

lemma delete_two_children:
  assumes R: "rb_tree st (plug C (N c l a r))" and lr: "l \<noteq> E" "r \<noteq> E"
  shows "\<exists>st'. al_rbtree_delete a st = Some st' \<and> deleted st (plug C (N c l a r)) a st'"
proof -
  let ?t = "plug C (N c l a r)"
  have T: "tree_rep st ?t" and k: "\<not> rb_red st (rb_sentinel st)" using R by (simp_all add: rb_tree_def)
  note facts = T [unfolded tree_rep_plug, simplified]
  obtain D d m q where D: "r = plug D (N d E m q)" "before D = []" "al_rbtree_min st (rp st r) = Some m"
    using rbtree_min [of st r] facts lr(2) by auto
  let ?X = "D @ FR c l m # C"
  have T': "tree_rep st (plug (D @ FR c l a # C) (N d E m q))" using T D(1) by (simp add: plug_append)
  define p where "p = fa (hd (D @ FR c l a # C))"
  define st1 where "st1 = (if rb_left st p = Some m then set_left p (Some (rp st q)) st else set_right p (Some (rp st q)) st)"
  from delete_two_children_move [OF T' lr(1), folded p_def, folded st1_def]
  obtain st3 where m: "rb_parent st m = Some p" "m \<noteq> rb_root st" "m \<noteq> a"
    and st3: "delete_move a m (if rb_parent st1 m = Some a then set_parent (rp st q) (Some m) st1 else set_parent (rp st q) (rb_parent st1 m) st1) = Some st3"
      "tree_rep st3 (plug ?X q)" "rb_parent st3 (rp st q) = Some (fa (hd ?X))" "rb_key st3 = rb_key st" "rb_sentinel st3 = rb_sentinel st"
      "rb_red st3 (rb_sentinel st) = rb_red st (rb_sentinel st)" by blast
  define st4 where "st4 = clear_node a st3"
  have i: "cinv (D @ FR c l a # C) (bh (N d E m q))" "rbinv (N d E m q)"
    using inv_plug [of "D @ FR c l a # C" "N d E m q"] R D(1) by (simp_all add: rb_tree_def plug_append)
  have i4: "cinv ?X (if d then bh q else Suc (bh q))" "rbinv q" "d \<longrightarrow> \<not> isred q" using i cinv_addr [of D c l a C _ m] by (auto split: if_splits)
  have dist: "distinct (inorder ?t)" using T by (simp add: tree_rep_def)
  have ino: "inorder (plug ?X q) = remove1 a (inorder ?t)"
    using remove1_place [OF dist] D(1,2) by (simp add: inorder_plug before_append behind_append)
  have au: "a \<notin> set (inorder (plug ?X q))" unfolding ino using dist by simp
  have f4: "rb_sentinel st4 = rb_sentinel st" "rb_key st4 = (rb_key st)(a := 0)" "\<not> rb_red st4 (rb_sentinel st)" "rp st4 q = rp st q"
    using st3 k by (simp_all add: st4_def) (cases q; simp)
  have rq: "rp st q \<noteq> a" using au facts by (simp add: rp_neq set_inorder_plug)
  have T4: "tree_rep st4 (plug ?X q)" using st3(2) au by (simp add: st4_def tree_rep_clear)
  have par4: "rb_parent st4 (rp st q) = Some (fa (hd ?X))" using st3(3) rq by (simp add: st4_def)
  obtain st' where st': "(if d then Some st4 else delete_fixup (rp st q) st4) = Some st'" "rebalanced st4 (plug ?X q) st'"
    using delete_finish [OF T4 _ i4(2,1,3), unfolded f4(1,4)] f4(3) st3(3) rq par4 by auto
  have "delete_subst a st = Some (m, rp st q)"
    using facts D(3) lr rp_sentinel [of st l] rp_sentinel [of st r] T' [unfolded tree_rep_plug] by (simp add: delete_subst_def)
  moreover have "rb_red st m = d" using T' [unfolded tree_rep_plug] by simp
  ultimately have "al_rbtree_delete a st = (if d then Some st4 else delete_fixup (rp st q) st4)"
    using m st3(1) by (simp add: al_rbtree_delete_def Let_def st4_def st1_def [symmetric] split del: if_split cong: if_cong)
  moreover have "deleted st ?t a st'"
    by (rule deletedI [OF R _ st'(2) ino f4(2,1,3)]) (simp add: inorder_plug)
  ultimately show ?thesis using st'(1) by simp
qed

lemma delete_correct:
  assumes "rb_tree st t" "a \<in> set (inorder t)"
  shows "\<exists>st'. al_rbtree_delete a st = Some st' \<and> deleted st t a st'"
proof -
  obtain C c l r where t: "t = plug C (N c l a r)" using place_of [OF assms(2)] by blast
  show ?thesis
    using delete_one_child [of st C c l a r r] delete_one_child [of st C c l a r l] delete_two_children [of st C c l a r] assms(1) t
    by (cases "l = E"; cases "r = E") blast+
qed

end
