(* ===== verification/Rbtree_Index.thy ===== *)
theory Rbtree_Index
  imports Rbtree_Delete
begin

text \<open>
  The red-black tree as an index from keys to nodes. The locale \<open>key_index\<close> is what a user of the
  tree relies on; it is interpreted on the operations of al_tree.c.
\<close>

section \<open>The interface\<close>

locale key_index =
  fixes inv :: "'st \<Rightarrow> ('k \<Rightarrow> 'a option) \<Rightarrow> bool" and key :: "'st \<Rightarrow> 'a \<Rightarrow> 'k" and free :: "'st \<Rightarrow> 'a \<Rightarrow> bool"
    and lookup :: "'k \<Rightarrow> 'st \<Rightarrow> 'a option option" and insert_node :: "'a \<Rightarrow> 'st \<Rightarrow> 'st option" and delete_node :: "'a \<Rightarrow> 'st \<Rightarrow> 'st option"
  assumes lookup_law: "inv st m \<Longrightarrow> lookup k st = Some (m k)"
    and key_law: "inv st m \<Longrightarrow> m k = Some a \<Longrightarrow> key st a = k"
    and insert_law: "inv st m \<Longrightarrow> m (key st a) = None \<Longrightarrow> free st a \<Longrightarrow> a \<notin> ran m \<Longrightarrow>
      \<exists>st'. insert_node a st = Some st' \<and> inv st' (m(key st a \<mapsto> a)) \<and> key st' = key st \<and> free st' = free st"
    and delete_law: "inv st m \<Longrightarrow> m k = Some a \<Longrightarrow>
      \<exists>st'. delete_node a st = Some st' \<and> inv st' (m(k := None)) \<and> (\<forall>b. b \<noteq> a \<longrightarrow> key st' b = key st b) \<and> free st' = free st"
begin

lemma insert_lookup:
  assumes "inv st m" "m (key st a) = None" "free st a" "a \<notin> ran m"
  shows "\<exists>st'. insert_node a st = Some st' \<and> inv st' (m(key st a \<mapsto> a)) \<and>
    lookup (key st a) st' = Some (Some a) \<and> (\<forall>k. k \<noteq> key st a \<longrightarrow> lookup k st' = lookup k st)"
proof -
  obtain st' where st': "insert_node a st = Some st'" "inv st' (m(key st a \<mapsto> a))" using insert_law [OF assms] by blast
  then show ?thesis using lookup_law [OF assms(1)] lookup_law [OF st'(2)] by simp
qed

lemma delete_lookup:
  assumes "inv st m" "m k = Some a"
  shows "\<exists>st'. delete_node a st = Some st' \<and> inv st' (m(k := None)) \<and>
    lookup k st' = Some None \<and> (\<forall>j. j \<noteq> k \<longrightarrow> lookup j st' = lookup j st)"
proof -
  obtain st' where st': "delete_node a st = Some st'" "inv st' (m(k := None))" using delete_law [OF assms] by blast
  then show ?thesis using lookup_law [OF assms(1)] lookup_law [OF st'(2)] by simp
qed

text \<open>A node that was taken out can be put in again under any key that is not in use.\<close>

lemma insert_delete:
  assumes "inv st m" "m (key st a) = None" "free st a" "a \<notin> ran m"
  shows "\<exists>st' st''. insert_node a st = Some st' \<and> delete_node a st' = Some st'' \<and> inv st'' m"
proof -
  obtain st' where st': "insert_node a st = Some st'" "inv st' (m(key st a \<mapsto> a))" using insert_law [OF assms] by blast
  obtain st'' where "delete_node a st' = Some st''" "inv st'' ((m(key st a \<mapsto> a))(key st a := None))"
    using delete_law [OF st'(2), of "key st a" a] by auto
  moreover have "(m(key st a \<mapsto> a))(key st a := None) = m" using assms(2) by auto
  ultimately show ?thesis using st'(1) by auto
qed

end

section \<open>The tree as an index\<close>

definition rb_index :: "rbtree \<Rightarrow> (u64 \<Rightarrow> addr option) \<Rightarrow> bool" where
  "rb_index st m \<longleftrightarrow> (\<exists>t. rb_tree st t \<and> distinct (map (rb_key st) (inorder t)) \<and> m = map_of (map (\<lambda>a. (rb_key st a, a)) (inorder t)))"

definition rb_free :: "rbtree \<Rightarrow> addr \<Rightarrow> bool" where
  "rb_free st a \<longleftrightarrow> a \<noteq> rb_sentinel st"

lemma option_ext: "(\<And>b. x = Some b \<longleftrightarrow> y = Some b) \<Longrightarrow> x = y"
  by (cases x; cases y) auto

lemma map_of_keys: "map_of (map (\<lambda>a. (f a, a)) xs) k = Some a \<longleftrightarrow> a \<in> set xs \<and> f a = k" if "distinct (map f xs)"
proof -
  have "distinct (map fst (map (\<lambda>a. (f a, a)) xs))" using that by (simp add: comp_def)
  then show ?thesis by (subst map_of_eq_Some_iff) auto
qed

lemma map_of_keys_None: "map_of (map (\<lambda>a. (f a, a)) xs) k = None \<longleftrightarrow> k \<notin> f ` set xs"
  by (induction xs) auto

interpretation rbi: key_index rb_index rb_key rb_free al_rbtree_lookup al_rbtree_insert al_rbtree_delete
proof
  fix st m k
  assume "rb_index st m"
  then obtain t where t: "rb_tree st t" "distinct (map (rb_key st) (inorder t))" "m = map_of (map (\<lambda>a. (rb_key st a, a)) (inorder t))"
    unfolding rb_index_def by blast
  from lookup_correct [OF t(1), of k] obtain r where r: "al_rbtree_lookup k st = Some r"
    "case r of None \<Rightarrow> k \<notin> rb_key st ` set (inorder t) | Some a \<Rightarrow> a \<in> set (inorder t) \<and> rb_key st a = k" by blast
  have "m k = r"
    using r(2) map_of_keys [OF t(2)] map_of_keys_None [of "rb_key st" "inorder t" k] t(3) by (cases r) auto
  then show "al_rbtree_lookup k st = Some (m k)" using r(1) by simp
next
  fix st m k a
  assume "rb_index st m" "m k = Some a"
  then obtain t where "distinct (map (rb_key st) (inorder t))" "map_of (map (\<lambda>a. (rb_key st a, a)) (inorder t)) k = Some a"
    unfolding rb_index_def by blast
  then show "rb_key st a = k" by (simp add: map_of_keys)
next
  fix st m a
  assume inv: "rb_index st m" and none: "m (rb_key st a) = None" and free: "rb_free st a" and ran: "a \<notin> ran m"
  obtain t where t: "rb_tree st t" "distinct (map (rb_key st) (inorder t))" "m = map_of (map (\<lambda>a. (rb_key st a, a)) (inorder t))"
    using inv unfolding rb_index_def by blast
  have a: "rb_key st a \<notin> rb_key st ` set (inorder t)" "a \<notin> set (inorder t)" using none t(3) by (auto simp: map_of_keys_None)
  from insert_correct [OF t(1) a(2)] free [unfolded rb_free_def]
  obtain st' t' xs ys where st': "al_rbtree_insert a st = Some st'" "rb_tree st' t'" "inorder t = xs @ ys" "inorder t' = xs @ a # ys"
    "rb_key st' = rb_key st" "rb_sentinel st' = rb_sentinel st" by blast
  have d: "distinct (map (rb_key st') (inorder t'))" using t(2) a(1) st'(3-5) by auto
  have "(m(rb_key st a \<mapsto> a)) k = map_of (map (\<lambda>a. (rb_key st' a, a)) (inorder t')) k" for k
  proof (cases "k = rb_key st a")
    case True
    then have "map_of (map (\<lambda>a. (rb_key st' a, a)) (inorder t')) k = Some a" using map_of_keys [OF d, of k] st'(4,5) by simp
    then show ?thesis using True by simp
  next
    case False
    have "map_of (map (\<lambda>a. (rb_key st' a, a)) (inorder t')) k = Some b \<longleftrightarrow> m k = Some b" for b
      using map_of_keys [OF t(2), of k] map_of_keys [OF d, of k] t(3) st'(3-5) False by auto
    from option_ext [OF this] show ?thesis using False by simp
  qed
  then have "rb_index st' (m(rb_key st a \<mapsto> a))" using st'(2) d unfolding rb_index_def by blast
  then show "\<exists>st'. al_rbtree_insert a st = Some st' \<and> rb_index st' (m(rb_key st a \<mapsto> a)) \<and> rb_key st' = rb_key st \<and> rb_free st' = rb_free st"
    using st' by (auto simp: rb_free_def fun_eq_iff)
next
  fix st m k a
  assume inv: "rb_index st m" and mk: "m k = Some a"
  obtain t where t: "rb_tree st t" "distinct (map (rb_key st) (inorder t))" "m = map_of (map (\<lambda>a. (rb_key st a, a)) (inorder t))"
    using inv unfolding rb_index_def by blast
  have a: "a \<in> set (inorder t)" "rb_key st a = k" using mk t by (simp_all add: map_of_keys)
  from delete_correct [OF t(1) a(1)] obtain st' t' where st': "al_rbtree_delete a st = Some st'" "rb_tree st' t'"
    "inorder t' = remove1 a (inorder t)" "rb_key st' = (rb_key st)(a := 0)" "rb_sentinel st' = rb_sentinel st" unfolding deleted_def by blast
  have dt: "distinct (inorder t)" using t(2) distinct_map by blast
  have keys: "map (rb_key st') (inorder t') = map (rb_key st) (remove1 a (inorder t))" "set (inorder t') = set (inorder t) - {a}"
    using st'(3,4) dt by (auto simp: set_remove1_eq)
  have d: "distinct (map (rb_key st') (inorder t'))" using t(2) keys(1) dt by (simp add: distinct_map inj_on_subset [of _ "set (inorder t)"] set_remove1_subset)
  have "(m(k := None)) j = map_of (map (\<lambda>a. (rb_key st' a, a)) (inorder t')) j" for j
  proof -
    have "map_of (map (\<lambda>a. (rb_key st' a, a)) (inorder t')) j = Some b \<longleftrightarrow> (m(k := None)) j = Some b" for b
      using map_of_keys [OF t(2), of j b] map_of_keys [OF d, of j b] t(2,3) keys(2) st'(4) a
      by (auto simp: distinct_map dest: inj_onD)
    from option_ext [OF this] show ?thesis by simp
  qed
  then have "rb_index st' (m(k := None))" using st'(2) d unfolding rb_index_def by blast
  then show "\<exists>st'. al_rbtree_delete a st = Some st' \<and> rb_index st' (m(k := None)) \<and> (\<forall>b. b \<noteq> a \<longrightarrow> rb_key st' b = rb_key st b) \<and> rb_free st' = rb_free st"
    using st' by (auto simp: rb_free_def fun_eq_iff)
qed

section \<open>Properties\<close>

text \<open>A tree with three nodes, for the witnesses below.\<close>

definition three_nodes :: rbtree where
  "three_nodes = \<lparr>rb_root = 2, rb_sentinel = 0, rb_key = (\<lambda>a. 10 * of_nat a),
     rb_left = (\<lambda>a. if a = 2 then Some 1 else Some 0), rb_right = (\<lambda>a. if a = 2 then Some 3 else Some 0),
     rb_parent = (\<lambda>a. if a = 2 then None else Some 2), rb_red = (\<lambda>a. a = 1 \<or> a = 3)\<rparr>"

lemma three_nodes_tree: "rb_tree three_nodes (N False (N True E 1 E) 2 (N True E 3 E))"
  by (simp add: rb_tree_def tree_rep_def three_nodes_def)

lemma three_nodes_index: "rb_index three_nodes [10 \<mapsto> 1, 20 \<mapsto> 2, 30 \<mapsto> 3]"
  unfolding rb_index_def using three_nodes_tree
  by (intro exI conjI, assumption) (auto simp: three_nodes_def fun_eq_iff)

text \<open>
  C8: al_rbtree_insert puts a node with a new key into the index: it returns, the memory is a
  red-black tree again, the key is found at the node, and the search for every other key gives
  what it gave before.
\<close>

theorem rbtree_insert_lookup:
  assumes "rb_index st m" "m (rb_key st a) = None" "a \<noteq> rb_sentinel st"
  shows "\<exists>st'. al_rbtree_insert a st = Some st' \<and> rb_index st' (m(rb_key st a \<mapsto> a)) \<and>
    al_rbtree_lookup (rb_key st a) st' = Some (Some a) \<and>
    (\<forall>k. k \<noteq> rb_key st a \<longrightarrow> al_rbtree_lookup k st' = al_rbtree_lookup k st)"
proof (rule rbi.insert_lookup [OF assms(1,2)])
  show "a \<notin> ran m" using rbi.key_law [OF assms(1)] assms(2) by (auto simp: ran_def)
qed (simp add: rb_free_def assms(3))

theorem rbtree_insert_lookup_witness:
  "\<exists>st'. al_rbtree_insert 4 three_nodes = Some st' \<and> al_rbtree_lookup 40 st' = Some (Some 4) \<and> al_rbtree_lookup 10 st' = al_rbtree_lookup 10 three_nodes"
proof -
  have "rb_key three_nodes 4 = 40" "rb_sentinel three_nodes = 0" by (simp_all add: three_nodes_def)
  then show ?thesis using rbtree_insert_lookup [OF three_nodes_index, of 4] by auto
qed

text \<open>
  C9: al_rbtree_delete takes a node out of the index: it returns, the memory is a red-black tree
  again, the key of the node is not found any more, and the search for every other key gives
  what it gave before.
\<close>

theorem rbtree_delete_lookup:
  assumes "rb_index st m" "m k = Some a"
  shows "\<exists>st'. al_rbtree_delete a st = Some st' \<and> rb_index st' (m(k := None)) \<and>
    al_rbtree_lookup k st' = Some None \<and> (\<forall>j. j \<noteq> k \<longrightarrow> al_rbtree_lookup j st' = al_rbtree_lookup j st)"
  by (rule rbi.delete_lookup [OF assms])

theorem rbtree_delete_lookup_witness:
  "\<exists>st'. al_rbtree_delete 2 three_nodes = Some st' \<and> al_rbtree_lookup 20 st' = Some None \<and> al_rbtree_lookup 30 st' = al_rbtree_lookup 30 three_nodes"
  using rbtree_delete_lookup [OF three_nodes_index, of 20 2] by auto

text \<open>
  C32: al_rbtree_next gives, for every node of a red-black tree, the next node in the order of the
  keys, and the null pointer for the last one.
\<close>

theorem rbtree_next:
  assumes "rb_tree st t" "inorder t = xs @ a # ys"
  shows "al_rbtree_next a st = Some (case ys of [] \<Rightarrow> None | y # _ \<Rightarrow> Some y)"
proof -
  obtain C c l r where C: "t = plug C (N c l a r)" using place_of [of a t] assms(2) by auto
  have T: "tree_rep st (plug C (N c l a r))" using assms(1) C by (simp add: rb_tree_def)
  have d: "distinct (xs @ a # ys)" using assms by (simp add: rb_tree_def tree_rep_def)
  have "xs @ a # ys = (before C @ inorder l) @ a # (inorder r @ behind C)" using assms(2) C by (simp add: inorder_plug)
  with d have ys: "ys = inorder r @ behind C" by (metis append_Cons_eq_iff distinct_append not_distinct_conv_prefix distinct.simps(2) disjoint_iff list.set_intros(1))
  have tr: "tr st (N c l a r)" using T by (simp add: tree_rep_plug)
  show ?thesis
  proof (cases "r = E")
    case True
    then have "al_rbtree_next a st = next_up st a" using tr by (simp add: al_rbtree_next_def)
    then show ?thesis using next_up [OF T] True ys by simp
  next
    case False
    obtain D d b q where D: "r = plug D (N d E b q)" "before D = []" "al_rbtree_min st (rp st r) = Some b"
      using rbtree_min [of st r] tr False by auto
    then have "inorder r = b # inorder q @ behind D" by (simp add: inorder_plug)
    then show ?thesis using ys D(3) tr False rp_sentinel [of st r] by (simp add: al_rbtree_next_def)
  qed
qed

theorem rbtree_next_witness: "al_rbtree_next 2 three_nodes = Some (Some 3)"
  using rbtree_next [OF three_nodes_tree, of "[1]" 2 "[3]"] by simp

end
