(* ===== verification/Group.thy ===== *)
theory Group
  imports Member Rbtree_Index
begin

text \<open>
  The groups of al_member.c: a red-black tree (al_tree.c) finds the record of a group by filter
  and group id, and the record holds the scheduling method and the first cluster of members.
  The address of the tree node is the address of the group record. Reading the configured
  members from the database is a parameter: the rows of the group with the outcome of the
  allocation each of them may need, or \<open>None\<close> when the database cannot be read. \<open>g_alloc\<close> are the
  records that are allocated.
\<close>

section \<open>State\<close>

definition AL_ALG_RR :: u8 where "AL_ALG_RR = 0"
definition AL_ALG_WEIGHT :: u8 where "AL_ALG_WEIGHT = 1"
definition AL_ALG_RR_WEIGHT :: u8 where "AL_ALG_RR_WEIGHT = 2"
definition AL_ALG_GEOIP :: u8 where "AL_ALG_GEOIP = 3"

record group_state =
  g_tree :: rbtree
  g_mem :: member_state
  g_schd :: "addr \<Rightarrow> u8"
  g_fid :: "addr \<Rightarrow> u32"
  g_gid :: "addr \<Rightarrow> u32"
  g_alloc :: "addr set"

definition set_key :: "addr \<Rightarrow> u64 \<Rightarrow> rbtree \<Rightarrow> rbtree" where
  "set_key a k t = t\<lparr>rb_key := (rb_key t)(a := k)\<rparr>"

definition al_members_init :: "addr \<Rightarrow> group_state \<Rightarrow> int \<times> group_state" where
  "al_members_init s st =
     (let t = set_key s 0 (set_left s None (set_right s None (set_parent s None (g_tree st))))
      in (0, st\<lparr>g_tree := al_rbtree_init s t\<rparr>))"

section \<open>Operations\<close>

text \<open>The call through \<open>g_alg_fun\<close>; an index past its four entries is undefined.\<close>

definition g_alg_fun :: "u8 \<Rightarrow> addr \<Rightarrow> al_margs \<Rightarrow> member_state \<Rightarrow> (mref option \<times> al_margs \<times> member_state) option" where
  "g_alg_fun schd mc margs ms =
     (if schd = AL_ALG_RR then map_option (\<lambda>(m, ms'). (m, margs, ms')) (al_alg_rr mc ms)
      else if schd = AL_ALG_WEIGHT then map_option (\<lambda>(m, ms'). (m, margs, ms')) (al_alg_weight mc ms)
      else if schd = AL_ALG_RR_WEIGHT then map_option (\<lambda>(m, ms'). (m, margs, ms')) (al_alg_rr_weight mc ms)
      else if schd = AL_ALG_GEOIP then map_option (\<lambda>(m, margs'). (m, margs', ms)) (al_alg_geoip mc margs ms)
      else None)"

definition al_member_lookup :: "u32 \<Rightarrow> u32 \<Rightarrow> al_margs \<Rightarrow> group_state \<Rightarrow> (int \<times> al_margs \<times> group_state) option" where
  "al_member_lookup fid gid margs st =
     do {
       node \<leftarrow> al_rbtree_lookup (al_make_key fid gid) (g_tree st);
       case node of
         None \<Rightarrow> Some (-1, margs, st)
       | Some mn \<Rightarrow> do {
           (m, margs, ms) \<leftarrow> g_alg_fun (g_schd st mn) mn margs (g_mem st);
           let st = st\<lparr>g_mem := ms\<rparr>;
           case m of
             None \<Rightarrow> Some (-1, margs, st)
           | Some r \<Rightarrow>
               let x = c_m (cluster mn ms (fst r)) ! snd r;
                   addr = (if a_af (m_addr x) = AF_INET then copy_addr4 (m_addr x) (ma_addr margs) else m_addr x)
               in Some (0, margs\<lparr>ma_mid := m_mid x, ma_port := m_port x, ma_addr := addr, ma_schd := g_schd st mn\<rparr>, st)
         }
     }"

text \<open>al_group_load_member: the members of the group are inserted one by one, until one fails.\<close>

fun al_group_load_member :: "(addr option \<times> al_member_conf) list \<Rightarrow> addr \<Rightarrow> member_state \<Rightarrow> (int \<times> member_state) option" where
  "al_group_load_member [] mc ms = Some (0, ms)"
| "al_group_load_member ((got, conf) # rows) mc ms =
     do {
       (rc, ms) \<leftarrow> al_member_insert got mc conf ms;
       if rc \<noteq> 0 then Some (-1, ms) else al_group_load_member rows mc ms
     }"

text \<open>
  al_member_chain_release frees the chained clusters of a group, and \<open>free_record\<close> is al_free of a
  group record. Both leave the memory as it is; to free what is not allocated is undefined.
\<close>

definition al_member_chain_release :: "addr \<Rightarrow> member_state \<Rightarrow> member_state option" where
  "al_member_chain_release f ms = hlist_for_each_safe ms_lists al_free (heads (ms_lists ms) f) ms"

definition free_record :: "addr \<Rightarrow> group_state \<Rightarrow> group_state option" where
  "free_record node st = (if node \<in> g_alloc st then Some (st\<lparr>g_alloc := g_alloc st - {node}\<rparr>) else None)"

definition al_group_insert ::
  "addr option \<Rightarrow> (addr option \<times> al_member_conf) list option \<Rightarrow> u32 \<Rightarrow> u32 \<Rightarrow> u8 \<Rightarrow> group_state \<Rightarrow> (int \<times> group_state) option" where
  "al_group_insert got db fid gid sched st =
     do {
       found \<leftarrow> al_rbtree_lookup (al_make_key fid gid) (g_tree st);
       case found of
         Some _ \<Rightarrow> Some (-1, st)
       | None \<Rightarrow>
           (case got of
              None \<Rightarrow> Some (-1, st)
            | Some node \<Rightarrow> do {
                let st = st\<lparr>g_alloc := insert node (g_alloc st)\<rparr>;
                let st = st\<lparr>g_tree := set_key node (al_make_key fid gid) (g_tree st)\<rparr>;
                let st = st\<lparr>g_schd := (g_schd st)(node := sched)\<rparr>;
                let ms = (g_mem st)\<lparr>ms_lists := INIT_HLIST_HEAD node (ms_lists (g_mem st))\<rparr>;
                let mc = ms_first ms node;
                let ms = ms\<lparr>ms_first := (ms_first ms)(node := mc\<lparr>c_m := INIT_MC (c_m mc)\<rparr>)\<rparr>;
                let st = st\<lparr>g_fid := (g_fid st)(node := fid), g_gid := (g_gid st)(node := gid)\<rparr>;
                (rc, ms) \<leftarrow> (case db of None \<Rightarrow> Some (-1, ms) | Some rows \<Rightarrow> al_group_load_member rows node ms);
                if rc \<noteq> 0
                then do {
                  ms \<leftarrow> al_member_chain_release node ms;
                  st \<leftarrow> free_record node (st\<lparr>g_mem := ms\<rparr>);
                  Some (-1, st)
                }
                else do {
                  t \<leftarrow> al_rbtree_insert node (g_tree st);
                  Some (0, st\<lparr>g_mem := ms, g_tree := t\<rparr>)
                }
              })
     }"

text \<open>al_group_load: the scheduling method comes from the database, \<open>None\<close> if there is none.\<close>

definition al_group_load ::
  "u8 option \<Rightarrow> addr option \<Rightarrow> (addr option \<times> al_member_conf) list option \<Rightarrow> u32 \<Rightarrow> u32 \<Rightarrow> group_state \<Rightarrow> (int \<times> group_state) option" where
  "al_group_load info got db fid gid st =
     (case info of None \<Rightarrow> Some (-1, st) | Some schd \<Rightarrow> al_group_insert got db fid gid schd st)"

definition al_group_delete :: "u32 \<Rightarrow> u32 \<Rightarrow> group_state \<Rightarrow> (int \<times> group_state) option" where
  "al_group_delete fid gid st =
     do {
       found \<leftarrow> al_rbtree_lookup (al_make_key fid gid) (g_tree st);
       case found of
         None \<Rightarrow> Some (-1, st)
       | Some node \<Rightarrow> do {
           t \<leftarrow> al_rbtree_delete node (g_tree st);
           ms \<leftarrow> al_member_chain_release node (g_mem st);
           st \<leftarrow> free_record node (st\<lparr>g_tree := t, g_mem := ms\<rparr>);
           Some (0, st)
         }
     }"

definition al_member_delete :: "u32 \<Rightarrow> u32 \<Rightarrow> u32 \<Rightarrow> group_state \<Rightarrow> (int \<times> group_state) option" where
  "al_member_delete fid gid mid st =
     do {
       found \<leftarrow> al_rbtree_lookup (al_make_key fid gid) (g_tree st);
       case found of
         None \<Rightarrow> Some (-1, st)
       | Some node \<Rightarrow> map_option (\<lambda>(rc, ms). (rc, st\<lparr>g_mem := ms\<rparr>)) (al_member_del node mid (g_mem st))
     }"

definition al_member_add :: "addr option \<Rightarrow> u32 \<Rightarrow> u32 \<Rightarrow> al_member_conf \<Rightarrow> group_state \<Rightarrow> (int \<times> group_state) option" where
  "al_member_add got fid gid conf st =
     do {
       found \<leftarrow> al_rbtree_lookup (al_make_key fid gid) (g_tree st);
       case found of
         None \<Rightarrow> Some (-1, st)
       | Some node \<Rightarrow> map_option (\<lambda>(rc, ms). (rc, st\<lparr>g_mem := ms\<rparr>)) (al_member_insert got node conf (g_mem st))
     }"

section \<open>Well-formed groups\<close>

text \<open>
  \<open>group_wf st m L\<close>: the tree is an index with the groups \<open>m\<close>, their members are well-formed with
  the clusters \<open>L\<close>, every group has one of the four scheduling methods, and exactly the records in
  the tree are allocated.
\<close>

definition group_wf :: "group_state \<Rightarrow> (u64 \<Rightarrow> addr option) \<Rightarrow> (addr \<Rightarrow> addr list) \<Rightarrow> bool" where
  "group_wf st m L \<longleftrightarrow> rb_index (g_tree st) m \<and> mem_wf (ran m) (g_mem st) L \<and> (\<forall>a \<in> ran m. g_schd st a < 4) \<and> g_alloc st = ran m"

lemma al_make_key_inj: "al_make_key f g = al_make_key f' g' \<longleftrightarrow> f = f' \<and> g = g'"
proof
  assume k: "al_make_key f g = al_make_key f' g'"
  have low: "(ucast (al_make_key a b) :: u32) = b" for a b
    unfolding al_make_key_def by (rule bit_word_eqI) (auto simp: bit_simps)
  have high: "(ucast (drop_bit 32 (al_make_key a b)) :: u32) = a" for a b
    unfolding al_make_key_def by (rule bit_word_eqI) (auto simp: bit_simps dest: bit_imp_le_length)
  show "f = f' \<and> g = g'" using low [of f g] low [of f' g'] high [of f g] high [of f' g'] k by simp
qed simp

lemma set_key_simps [simp]:
  "rb_root (set_key a k t) = rb_root t" "rb_sentinel (set_key a k t) = rb_sentinel t" "rb_red (set_key a k t) = rb_red t"
  "rb_left (set_key a k t) = rb_left t" "rb_right (set_key a k t) = rb_right t" "rb_parent (set_key a k t) = rb_parent t"
  by (simp_all add: set_key_def)

lemma rp_set_key [simp]: "rp (set_key a k t) u = rp t u"
  by (cases u) simp_all

lemma tr_set_key [simp]: "tr (set_key a k t) u = tr t u"
  by (induction u) simp_all

lemma rb_index_set_key:
  assumes "rb_index t m" "a \<notin> ran m"
  shows "rb_index (set_key a k t) m"
proof -
  obtain u where u: "rb_tree t u" "distinct (map (rb_key t) (inorder u))" "m = map_of (map (\<lambda>a. (rb_key t a, a)) (inorder u))"
    using assms(1) unfolding rb_index_def by blast
  have "a \<notin> set (inorder u)"
  proof
    assume "a \<in> set (inorder u)"
    then have "m (rb_key t a) = Some a" using map_of_keys [OF u(2)] u(3) by simp
    then show False using assms(2) by (auto simp: ran_def)
  qed
  then have k: "map (rb_key (set_key a k t)) (inorder u) = map (rb_key t) (inorder u)"
    and m: "map (\<lambda>b. (rb_key (set_key a k t) b, b)) (inorder u) = map (\<lambda>b. (rb_key t b, b)) (inorder u)"
    by (auto simp: set_key_def)
  have "rb_tree (set_key a k t) u"
    unfolding rb_tree_def tree_rep_def k using u(1) by (simp add: rb_tree_def tree_rep_def)
  then show ?thesis unfolding rb_index_def using u by (intro exI [of _ u]) (simp add: k m)
qed

lemma inserted_slot:
  assumes "inserted c conf r st L st' L'"
  shows "r \<in> set (slots L' c) \<and> can_pick (member_at c st' r) \<and> m_mid (member_at c st' r) = mc_mid conf"
  using assms unfolding inserted_def by (elim conjE) (intro conjI, assumption+)

lemma inserted_free: "inserted c conf r st L st' L' \<Longrightarrow> r \<in> set (slots L c) \<Longrightarrow> \<not> m_is_used (member_at c st r)"
  unfolding inserted_def by (elim conjE) (erule mp)

lemma inserted_same:
  "inserted c conf r st L st' L' \<Longrightarrow> s \<noteq> r \<Longrightarrow> s \<in> set (slots L c) \<Longrightarrow> s \<in> set (slots L' c) \<and> member_at c st' s = member_at c st s"
  unfolding inserted_def by blast

lemma load_members:
  assumes "mem_wf G ms L" "c \<in> G" "distinct (map fst rows)" "\<forall>a \<in> fst ` set rows. a \<notin> ms_alloc ms"
  shows "\<exists>ms' L'. al_group_load_member (map (\<lambda>(a, conf). (Some a, conf)) rows) c ms = Some (0, ms') \<and> mem_wf G ms' L' \<and>
    (\<forall>d. d \<noteq> c \<longrightarrow> L' d = L d \<and> ms_first ms' d = ms_first ms d) \<and>
    (\<forall>r \<in> set (cands ms L c). r \<in> set (cands ms' L' c) \<and> member_at c ms' r = member_at c ms r) \<and>
    (\<forall>conf \<in> snd ` set rows. \<exists>r \<in> set (cands ms' L' c). m_mid (member_at c ms' r) = mc_mid conf)"
  using assms
proof (induction rows arbitrary: ms L)
  case (Cons row rows)
  obtain a conf where row: "row = (a, conf)" by (cases row)
  have "a \<notin> ms_alloc ms" using Cons.prems(4) row by simp
  from member_insert_step [OF Cons.prems(1,2) this, of conf]
  obtain ms1 L1 r1 where 1: "al_member_insert (Some a) c conf ms = Some (0, ms1)" "mem_wf G ms1 L1" "inserted c conf r1 ms L ms1 L1"
    "L1 = L \<or> L1 = L(c := a # L c)" "\<forall>d. d \<noteq> c \<longrightarrow> ms_first ms1 d = ms_first ms d" by blast
  have d: "distinct (map fst rows)" "a \<notin> fst ` set rows" using Cons.prems(3) row by simp_all
  have f: "b \<notin> ms_alloc ms1" if "b \<in> fst ` set rows" for b
  proof -
    have "b \<notin> ms_alloc ms" "b \<noteq> a" using Cons.prems(4) that d(2) by auto
    then have "b \<notin> set (L1 e)" for e using 1(4) Cons.prems(1) by (auto simp: mem_wf_def split: if_splits)
    then show ?thesis using 1(2) by (simp add: mem_wf_def)
  qed
  from Cons.IH [OF 1(2) Cons.prems(2) d(1)] f
  obtain ms' L' where 2: "al_group_load_member (map (\<lambda>(a, conf). (Some a, conf)) rows) c ms1 = Some (0, ms')" "mem_wf G ms' L'"
    "\<forall>d. d \<noteq> c \<longrightarrow> L' d = L1 d \<and> ms_first ms' d = ms_first ms1 d"
    "\<forall>r \<in> set (cands ms1 L1 c). r \<in> set (cands ms' L' c) \<and> member_at c ms' r = member_at c ms1 r"
    "\<forall>conf \<in> snd ` set rows. \<exists>r \<in> set (cands ms' L' c). m_mid (member_at c ms' r) = mc_mid conf" by blast
  have r1: "r1 \<in> set (cands ms1 L1 c)" "m_mid (member_at c ms1 r1) = mc_mid conf"
    using inserted_slot [OF 1(3)] by (simp_all add: cands_def)
  have keep: "r \<in> set (cands ms1 L1 c) \<and> member_at c ms1 r = member_at c ms r" if "r \<in> set (cands ms L c)" for r
  proof -
    have r: "r \<in> set (slots L c)" "can_pick (member_at c ms r)" using that by (simp_all add: cands_def)
    have "r \<noteq> r1" using inserted_free [OF 1(3)] r by (auto simp: can_pick_def)
    from inserted_same [OF 1(3) this r(1)] show ?thesis using r(2) by (simp add: cands_def)
  qed
  have new: "\<exists>r \<in> set (cands ms' L' c). m_mid (member_at c ms' r) = mc_mid conf"
    using bspec [OF 2(4) r1(1)] r1(2) by (intro bexI [of _ r1]) simp_all
  have "al_group_load_member (map (\<lambda>(a, conf). (Some a, conf)) (row # rows)) c ms = Some (0, ms')"
    using 1(1) 2(1) by (simp add: row)
  moreover have "\<forall>d. d \<noteq> c \<longrightarrow> L' d = L d \<and> ms_first ms' d = ms_first ms d" using 1(4,5) 2(3) by auto
  moreover have "\<forall>r \<in> set (cands ms L c). r \<in> set (cands ms' L' c) \<and> member_at c ms' r = member_at c ms r"
  proof
    fix r assume "r \<in> set (cands ms L c)"
    from keep [OF this] show "r \<in> set (cands ms' L' c) \<and> member_at c ms' r = member_at c ms r" using bspec [OF 2(4), of r] by simp
  qed
  moreover have "\<forall>conf \<in> snd ` set (row # rows). \<exists>r \<in> set (cands ms' L' c). m_mid (member_at c ms' r) = mc_mid conf"
    using new 2(5) by (simp add: row)
  ultimately show ?case using 2(2) by blast
next
  case Nil
  then show ?case by (intro exI [of _ ms] exI [of _ L]) simp
qed
lemma used_INIT_MC [simp]: "used (INIT_MC ms) = 0"
  by (simp add: used_def INIT_MC_def filter_empty_conv)

lemma length_INIT_MC [simp]: "length (INIT_MC ms) = length ms"
  by (simp add: INIT_MC_def)

text \<open>The members of a record that al_group_insert has initialised.\<close>

definition fresh_record :: "addr \<Rightarrow> member_state \<Rightarrow> member_state" where
  "fresh_record node ms = (let mc = ms_first ms node in
     ms\<lparr>ms_lists := INIT_HLIST_HEAD node (ms_lists ms), ms_first := (ms_first ms)(node := mc\<lparr>c_m := INIT_MC (c_m mc)\<rparr>)\<rparr>)"

lemma fresh_record_wf:
  assumes "mem_wf G ms L" "node \<notin> G" "c_cnt (ms_first ms node) = 0"
  shows "mem_wf (insert node G) (fresh_record node ms) L"
proof -
  have "L node = []" using assms by (simp add: mem_wf_def)
  then show ?thesis using assms by (auto simp: mem_wf_def fresh_record_def Let_def cluster_wf_def live_init)
qed

lemma group_insert_eq:
  assumes "rb_index (g_tree st) m" "m (al_make_key fid gid) = None"
  shows "al_group_insert (Some node) (Some rows) fid gid sched st =
    do {
      (rc, ms) \<leftarrow> al_group_load_member rows node (fresh_record node (g_mem st));
      let st1 = st\<lparr>g_alloc := insert node (g_alloc st), g_tree := set_key node (al_make_key fid gid) (g_tree st),
                  g_schd := (g_schd st)(node := sched), g_fid := (g_fid st)(node := fid), g_gid := (g_gid st)(node := gid)\<rparr>;
      if rc \<noteq> 0 then do { ms \<leftarrow> al_member_chain_release node ms; st \<leftarrow> free_record node (st1\<lparr>g_mem := ms\<rparr>); Some (-1, st) }
      else do { t \<leftarrow> al_rbtree_insert node (g_tree st1); Some (0, st1\<lparr>g_mem := ms, g_tree := t\<rparr>) }
    }"
  using rbi.lookup_law [OF assms(1)] assms(2)
  by (simp add: al_group_insert_def fresh_record_def Let_def cong: if_cong)

lemma tree_insert_new:
  assumes "rb_index t m" "m k = None" "node \<notin> ran m" "node \<noteq> rb_sentinel t"
  shows "\<exists>t'. al_rbtree_insert node (set_key node k t) = Some t' \<and> rb_index t' (m(k \<mapsto> node)) \<and> rb_sentinel t' = rb_sentinel t"
proof -
  have i: "rb_index (set_key node k t) m" by (rule rb_index_set_key [OF assms(1,3)])
  have k: "rb_key (set_key node k t) node = k" by (simp add: set_key_def)
  from rbi.insert_law [OF i, of node] assms(2-4) k
  obtain t' where t': "al_rbtree_insert node (set_key node k t) = Some t'" "rb_index t' (m(k \<mapsto> node))" "rb_free t' = rb_free (set_key node k t)"
    by (auto simp: rb_free_def)
  have "rb_free t' (rb_sentinel t) = False" using t'(3) by (simp add: rb_free_def)
  then have "rb_sentinel t' = rb_sentinel t" by (simp add: rb_free_def)
  then show ?thesis using t' by blast
qed

text \<open>
  C14: al_group_insert of a group that does not exist yet, scheduled by one of the four methods
  there are, with the record's member count zero in
  the memory the allocator gave: it succeeds, the groups stay well-formed, the tree finds the
  new group besides the old ones, and every member read from the database can be scheduled.
\<close>

theorem group_insert_ready:
  assumes wf: "group_wf st m L" and new: "m (al_make_key fid gid) = None" and sched: "sched < 4"
    and node: "node \<notin> ran m" "node \<noteq> rb_sentinel (g_tree st)" "c_cnt (ms_first (g_mem st) node) = 0"
    and rows: "distinct (map fst rows)" "\<forall>a \<in> fst ` set rows. a \<notin> ms_alloc (g_mem st)"
  shows "\<exists>st' L'. al_group_insert (Some node) (Some (map (\<lambda>(a, conf). (Some a, conf)) rows)) fid gid sched st = Some (0, st') \<and>
    group_wf st' (m(al_make_key fid gid \<mapsto> node)) L' \<and>
    (\<forall>conf \<in> snd ` set rows. \<exists>r \<in> set (cands (g_mem st') L' node). m_mid (member_at node (g_mem st') r) = mc_mid conf)"
proof -
  have idx: "rb_index (g_tree st) m" and mem: "mem_wf (ran m) (g_mem st) L" and sch: "\<forall>a \<in> ran m. g_schd st a < 4"
    and al: "g_alloc st = ran m" using wf by (simp_all add: group_wf_def)
  have f: "\<forall>a \<in> fst ` set rows. a \<notin> ms_alloc (fresh_record node (g_mem st))" using rows(2) by (simp add: fresh_record_def Let_def)
  obtain ms' L' where ms': "al_group_load_member (map (\<lambda>(a, conf). (Some a, conf)) rows) node (fresh_record node (g_mem st)) = Some (0, ms')"
    "mem_wf (insert node (ran m)) ms' L'"
    "\<forall>conf \<in> snd ` set rows. \<exists>r \<in> set (cands ms' L' node). m_mid (member_at node ms' r) = mc_mid conf"
    using load_members [OF fresh_record_wf [OF mem node(1,3)] _ rows(1) f] by blast
  obtain t' where t': "al_rbtree_insert node (set_key node (al_make_key fid gid) (g_tree st)) = Some t'"
    "rb_index t' (m(al_make_key fid gid \<mapsto> node))" using tree_insert_new [OF idx new node(1,2)] by blast
  have r: "ran (m(al_make_key fid gid \<mapsto> node)) = insert node (ran m)" using new by (simp add: ran_map_upd)
  show ?thesis
    unfolding group_insert_eq [OF idx new] group_wf_def r using ms' t' sched sch al
    by (intro exI [of _ "st\<lparr>g_tree := t', g_mem := ms', g_schd := (g_schd st)(node := sched), g_fid := (g_fid st)(node := fid),
        g_gid := (g_gid st)(node := gid), g_alloc := insert node (ran m)\<rparr>"] exI [of _ L'])
      (simp add: Let_def)
qed

text \<open>
  C29: al_group_insert does not set the member count of the new record. When the memory it gets
  holds another number there, a group without members is inserted all the same, and the next
  al_member_lookup of the group by round robin reads past the members of the cluster.
\<close>

theorem group_insert_crash:
  assumes wf: "group_wf st m L" and new: "m (al_make_key fid gid) = None"
    and node: "node \<notin> ran m" "node \<noteq> rb_sentinel (g_tree st)" "c_cnt (ms_first (g_mem st) node) \<noteq> 0"
  shows "\<exists>st'. al_group_insert (Some node) (Some []) fid gid AL_ALG_RR st = Some (0, st') \<and> al_member_lookup fid gid margs st' = None"
proof -
  have idx: "rb_index (g_tree st) m" using wf by (simp add: group_wf_def)
  obtain t' where t': "al_rbtree_insert node (set_key node (al_make_key fid gid) (g_tree st)) = Some t'"
    "rb_index t' (m(al_make_key fid gid \<mapsto> node))" using tree_insert_new [OF idx new node(1,2)] by blast
  let ?st = "st\<lparr>g_tree := t', g_mem := fresh_record node (g_mem st), g_schd := (g_schd st)(node := AL_ALG_RR), g_fid := (g_fid st)(node := fid), g_gid := (g_gid st)(node := gid),
    g_alloc := insert node (g_alloc st)\<rparr>"
  have "rr_cluster node None ((0, None), fresh_record node (g_mem st)) = None"
    using rr_loop_short [of "INIT_MC (c_m (ms_first (g_mem st) node))" "unat (c_cnt (ms_first (g_mem st) node))"] node(3)
    by (simp add: rr_cluster_def cluster_def fresh_record_def Let_def unat_gt_0)
  then have "al_alg_rr node (fresh_record node (g_mem st)) = None" by (simp add: al_alg_rr_def)
  then have "al_member_lookup fid gid margs ?st = None"
    using rbi.lookup_law [OF t'(2)] by (simp add: al_member_lookup_def g_alg_fun_def)
  moreover have "al_group_insert (Some node) (Some []) fid gid AL_ALG_RR st = Some (0, ?st)"
    unfolding group_insert_eq [OF idx new] using t'(1) by (simp add: Let_def)
  ultimately show ?thesis by blast
qed

lemma u8_below_4: "x = 0 \<or> x = 1 \<or> x = 2 \<or> x = 3" if "x < 4" for x :: u8
proof -
  have "unat x = 0 \<or> unat x = 1 \<or> unat x = 2 \<or> unat x = 3" using that by (simp add: word_less_nat_alt) arith
  then show ?thesis by (elim disjE) (drule arg_cong [where f = "of_nat :: nat \<Rightarrow> u8"], simp)+
qed

lemma heap_is_drop: "heap_is h L \<Longrightarrow> heap_is (INIT_HLIST_HEAD b h) (L(b := []))"
proof -
  assume h: "heap_is h L"
  have "hseg (INIT_HLIST_HEAD b h) (First c) (L c) = hseg h (First c) (L c)" if "c \<noteq> b" for c
    using that by (intro hseg_cong) (auto simp: INIT_HLIST_HEAD_def)
  then show ?thesis using h by (auto simp: heap_is_def INIT_HLIST_HEAD_def)
qed

lemma release_seg:
  assumes "hseg h s xs" "ms_lists ms = h" "distinct xs" "set xs \<subseteq> ms_alloc ms"
  shows "hlist_for_each_safe ms_lists al_free (slot_val h s) ms = Some (ms\<lparr>ms_alloc := ms_alloc ms - set xs\<rparr>)"
  using assms
proof (induction xs arbitrary: s ms)
  case Nil
  then show ?case by (simp add: hlist_for_each_safe.simps)
next
  case (Cons a xs)
  let ?ms = "ms\<lparr>ms_alloc := ms_alloc ms - {a}\<rparr>"
  have "hlist_for_each_safe ms_lists al_free (slot_val h (Next a)) ?ms = Some (?ms\<lparr>ms_alloc := ms_alloc ?ms - set xs\<rparr>)"
    using Cons.prems by (intro Cons.IH) auto
  moreover have "al_free a ms = Some ?ms" using Cons.prems(4) by (simp add: al_free_def)
  moreover have "ms_alloc ms - insert a (set xs) = ms_alloc ms - {a} - set xs" by blast
  ultimately show ?case using Cons.prems by (subst hlist_for_each_safe.simps) simp
qed

lemma chain_release:
  assumes "mem_wf G ms L" "c \<in> G"
  shows "al_member_chain_release c ms = Some (ms\<lparr>ms_alloc := ms_alloc ms - set (L c)\<rparr>)"
proof -
  have h: "heap_is (live G (ms_lists ms)) L" and al: "set (L c) \<subseteq> ms_alloc ms" using assms(1) by (auto simp: mem_wf_def)
  show ?thesis
    using release_seg [OF live_seg [OF h assms(2)] refl heap_is_distinct [OF h] al] by (simp add: al_member_chain_release_def)
qed

lemma released_wf:
  assumes "mem_wf G ms L" "c \<in> G"
  shows "mem_wf (G - {c}) (ms\<lparr>ms_alloc := ms_alloc ms - set (L c)\<rparr>) (L(c := []))"
proof -
  have h: "heap_is (live G (ms_lists ms)) L" using assms(1) by (simp add: mem_wf_def)
  have "live (G - {c}) (ms_lists ms) = INIT_HLIST_HEAD c (live G (ms_lists ms))"
    by (auto simp: live_def INIT_HLIST_HEAD_def hfield_defs fun_eq_iff)
  then have "heap_is (live (G - {c}) (ms_lists ms)) (L(c := []))" using heap_is_drop [OF h, of c] by simp
  moreover have "a \<in> ms_alloc ms - set (L c) \<longleftrightarrow> (\<exists>d. a \<in> set ((L(c := [])) d))" for a
  proof -
    have "a \<in> ms_alloc ms \<longleftrightarrow> (\<exists>d. a \<in> set (L d))" using assms(1) by (simp add: mem_wf_def)
    moreover have "d = c" if "a \<in> set (L d)" "a \<in> set (L c)" for d using heap_is_disjoint [OF h that] .
    ultimately show ?thesis by (auto split: if_splits)
  qed
  ultimately show ?thesis using assms(1) by (auto simp: mem_wf_def)
qed

lemma member_lookup_step:
  assumes wf: "group_wf st m L" and node: "m (al_make_key fid gid) = Some node" and alg: "g_schd st node \<noteq> AL_ALG_GEOIP"
  shows "\<exists>rc margs' st'. al_member_lookup fid gid margs st = Some (rc, margs', st') \<and> group_wf st' m L \<and>
    (cands (g_mem st) L node = [] \<longrightarrow> rc = -1 \<and> margs' = margs) \<and>
    (cands (g_mem st) L node \<noteq> [] \<longrightarrow> rc = 0 \<and> ma_schd margs' = g_schd st node \<and> (\<exists>r \<in> set (cands (g_mem st) L node).
       ma_mid margs' = m_mid (member_at node (g_mem st) r) \<and> ma_port margs' = m_port (member_at node (g_mem st) r) \<and>
       a_af (ma_addr margs') = a_af (m_addr (member_at node (g_mem st) r)) \<and>
       ipv4 (a_addr (ma_addr margs')) = ipv4 (a_addr (m_addr (member_at node (g_mem st) r))) \<and>
       (a_af (ma_addr margs') \<noteq> AF_INET \<longrightarrow> ma_addr margs' = m_addr (member_at node (g_mem st) r))))"
proof -
  let ?at = "\<lambda>r. member_at node (g_mem st) r"
  have idx: "rb_index (g_tree st) m" and mem: "mem_wf (ran m) (g_mem st) L" and sch: "\<forall>a \<in> ran m. g_schd st a < 4"
    using wf by (simp_all add: group_wf_def)
  have n: "node \<in> ran m" using node by (auto simp: ran_def)
  obtain best ms' where rr: "al_alg_rr node (g_mem st) = Some (best, ms')" "mem_wf (ran m) ms' L" "best = None \<longleftrightarrow> cands (g_mem st) L node = []"
    "\<forall>r. best = Some r \<longrightarrow> r \<in> set (cands (g_mem st) L node)"
    "\<forall>r \<in> set (slots L node). member_at node ms' r = (if best = Some r
       then (bump (?at r))\<lparr>m_current_weight := raised (?at r) - round_total (g_mem st) L node\<rparr> else bump (?at r))"
    using rr_round_step [OF mem n] by blast
  have s4: "g_schd st node = 0 \<or> g_schd st node = 1 \<or> g_schd st node = 2 \<or> g_schd st node = 3" using sch n by (intro u8_below_4) simp
  have alg_eq: "g_alg_fun (g_schd st node) node margs (g_mem st) = Some (best, margs, ms')"
    using s4 alg rr(1) by (auto simp: g_alg_fun_def AL_ALG_RR_def AL_ALG_WEIGHT_def AL_ALG_RR_WEIGHT_def AL_ALG_GEOIP_def al_alg_weight_def al_alg_rr_weight_def)
  have wf': "group_wf (st\<lparr>g_mem := ms'\<rparr>) m L" using idx rr(2) sch wf by (simp add: group_wf_def)
  show ?thesis
  proof (cases best)
    case None
    then show ?thesis using rr(3) alg_eq wf' rbi.lookup_law [OF idx] node by (simp add: al_member_lookup_def)
  next
    case (Some r)
    then have r: "r \<in> set (cands (g_mem st) L node)" using rr(4) by simp
    have "member_at node ms' r = (bump (?at r))\<lparr>m_current_weight := raised (?at r) - round_total (g_mem st) L node\<rparr>"
      using bspec [OF rr(5) cands_slots [OF r]] Some by simp
    then have x: "m_mid (member_at node ms' r) = m_mid (?at r)" "m_port (member_at node ms' r) = m_port (?at r)" "m_addr (member_at node ms' r) = m_addr (?at r)"
      by (simp_all add: bump_def)
    then show ?thesis using Some rr(3) alg_eq wf' rbi.lookup_law [OF idx] node r
      by (auto simp: al_member_lookup_def Let_def member_at_def [symmetric] copy_addr4_def ipv4_set_ipv4)
  qed
qed

text \<open>
  C15: al_member_lookup of an existing group that is scheduled by weight. It answers 0 exactly
  when some member of the group is used and up, with id, port and address of such a member, and
  -1 otherwise; the groups stay well-formed either way.
\<close>

theorem member_lookup_picks:
  assumes wf: "group_wf st m L" and node: "m (al_make_key fid gid) = Some node" and alg: "g_schd st node \<noteq> AL_ALG_GEOIP"
  shows "\<exists>rc margs' st'. al_member_lookup fid gid margs st = Some (rc, margs', st') \<and> group_wf st' m L \<and>
    (cands (g_mem st) L node = [] \<longrightarrow> rc = -1 \<and> margs' = margs) \<and>
    (cands (g_mem st) L node \<noteq> [] \<longrightarrow> rc = 0 \<and> ma_schd margs' = g_schd st node \<and> (\<exists>r \<in> set (cands (g_mem st) L node).
       ma_mid margs' = m_mid (member_at node (g_mem st) r) \<and> ma_port margs' = m_port (member_at node (g_mem st) r) \<and>
       a_af (ma_addr margs') = a_af (m_addr (member_at node (g_mem st) r)) \<and>
       ipv4 (a_addr (ma_addr margs')) = ipv4 (a_addr (m_addr (member_at node (g_mem st) r))) \<and>
       (a_af (ma_addr margs') \<noteq> AF_INET \<longrightarrow> ma_addr margs' = m_addr (member_at node (g_mem st) r))))"
  by (rule member_lookup_step [OF assms])

lemma ran_delete:
  assumes "rb_index t m" "m k = Some node"
  shows "ran (m(k := None)) = ran m - {node}"
  using rbi.key_law [OF assms(1)] assms(2) by (intro ran_upd_None) auto

lemma group_delete_step:
  assumes wf: "group_wf st m L" and node: "m (al_make_key fid gid) = Some node"
  shows "\<exists>st'. al_group_delete fid gid st = Some (0, st') \<and> group_wf st' (m(al_make_key fid gid := None)) (L(node := [])) \<and>
    g_alloc st' = g_alloc st - {node} \<and> g_mem st' = (g_mem st)\<lparr>ms_alloc := ms_alloc (g_mem st) - set (L node)\<rparr> \<and>
    al_member_lookup fid gid margs st' = Some (-1, margs, st') \<and> al_group_delete fid gid st' = Some (-1, st')"
proof -
  let ?k = "al_make_key fid gid"
  have idx: "rb_index (g_tree st) m" and mem: "mem_wf (ran m) (g_mem st) L" and sch: "\<forall>a \<in> ran m. g_schd st a < 4"
    and al: "g_alloc st = ran m" using wf by (simp_all add: group_wf_def)
  have n: "node \<in> ran m" using node by (auto simp: ran_def)
  obtain t' where t': "al_rbtree_delete node (g_tree st) = Some t'" "rb_index t' (m(?k := None))" using rbi.delete_law [OF idx node] by blast
  let ?st = "st\<lparr>g_tree := t', g_mem := (g_mem st)\<lparr>ms_alloc := ms_alloc (g_mem st) - set (L node)\<rparr>, g_alloc := g_alloc st - {node}\<rparr>"
  have "al_group_delete fid gid st = Some (0, ?st)"
    using rbi.lookup_law [OF idx] node t'(1) chain_release [OF mem n] n al by (simp add: al_group_delete_def free_record_def)
  moreover have "group_wf ?st (m(?k := None)) (L(node := []))"
    unfolding group_wf_def ran_delete [OF idx node] using t'(2) released_wf [OF mem n] sch al by simp
  moreover have "al_member_lookup fid gid margs ?st = Some (-1, margs, ?st)" "al_group_delete fid gid ?st = Some (-1, ?st)"
    using rbi.lookup_law [OF t'(2)] by (simp_all add: al_member_lookup_def al_group_delete_def)
  ultimately show ?thesis by (intro exI [of _ ?st]) simp
qed

text \<open>
  C16: al_group_delete of an existing group succeeds and removes exactly that group. It frees the
  record of the group and every cluster chained to it, each once, and nothing else; what is
  allocated afterwards is what the remaining groups use, and their members are as they were.
  After that neither al_member_lookup nor al_group_delete finds the group.
\<close>

theorem group_delete_gone:
  assumes wf: "group_wf st m L" and node: "m (al_make_key fid gid) = Some node"
  shows "\<exists>st'. al_group_delete fid gid st = Some (0, st') \<and> group_wf st' (m(al_make_key fid gid := None)) (L(node := [])) \<and>
    g_alloc st' = g_alloc st - {node} \<and> g_mem st' = (g_mem st)\<lparr>ms_alloc := ms_alloc (g_mem st) - set (L node)\<rparr> \<and>
    al_member_lookup fid gid margs st' = Some (-1, margs, st') \<and> al_group_delete fid gid st' = Some (-1, st')"
  by (rule group_delete_step [OF assms])

section \<open>A small group table\<close>

text \<open>An empty table, and one with the group 1 of filter 1 at the record 0, whose members are those of \<open>two_members\<close>.\<close>

definition no_groups :: group_state where
  "no_groups = \<lparr>g_tree = \<lparr>rb_root = 9, rb_sentinel = 9, rb_key = (\<lambda>_. 0), rb_left = (\<lambda>_. None), rb_right = (\<lambda>_. None),
     rb_parent = (\<lambda>_. None), rb_red = (\<lambda>_. False)\<rparr>, g_mem = two_members 0 0, g_schd = (\<lambda>_. AL_ALG_RR), g_fid = (\<lambda>_. 0), g_gid = (\<lambda>_. 0), g_alloc = {}\<rparr>"

definition one_group :: group_state where
  "one_group = no_groups\<lparr>g_tree := \<lparr>rb_root = 0, rb_sentinel = 9, rb_key = (\<lambda>_. al_make_key 1 1), rb_left = (\<lambda>_. Some 9), rb_right = (\<lambda>_. Some 9),
     rb_parent = (\<lambda>_. None), rb_red = (\<lambda>_. False)\<rparr>, g_alloc := {0}\<rparr>"

lemma two_members_wf_sub: "mem_wf G (two_members a b) (\<lambda>_. [])"
proof -
  have "heap_is (live G (ms_lists (two_members a b))) (\<lambda>_. [])" by (simp add: heap_is_empty two_members_def fun_eq_iff)
  then show ?thesis using two_members_wf [of a b] by (simp add: mem_wf_def)
qed

lemma no_groups_wf: "group_wf no_groups Map.empty (\<lambda>_. [])"
proof -
  have "rb_index (g_tree no_groups) Map.empty"
    unfolding rb_index_def by (intro exI [of _ E]) (simp add: no_groups_def rb_tree_def tree_rep_def)
  then show ?thesis by (simp add: group_wf_def two_members_wf_sub) (simp add: no_groups_def two_members_wf_sub)
qed

lemma one_group_wf: "group_wf one_group [al_make_key 1 1 \<mapsto> 0] (\<lambda>_. [])"
proof -
  have "rb_index (g_tree one_group) [al_make_key 1 1 \<mapsto> 0]"
    unfolding rb_index_def by (intro exI [of _ "N False E 0 E"]) (simp add: one_group_def rb_tree_def tree_rep_def)
  then show ?thesis by (simp add: group_wf_def) (simp add: one_group_def no_groups_def two_members_wf_sub AL_ALG_RR_def)
qed

theorem group_insert_ready_witness:
  "\<exists>st' L'. al_group_insert (Some 5) (Some [(Some 7, al_member_conf.make 5 80 3 (al_addr_t.make 4 AF_INET 1))]) 1 2 AL_ALG_WEIGHT no_groups = Some (0, st') \<and>
    group_wf st' [al_make_key 1 2 \<mapsto> 5] L'"
proof -
  have "7 \<notin> ms_alloc (g_mem no_groups)" by (simp add: two_members_def no_groups_def)
  moreover have "c_cnt (ms_first (g_mem no_groups) 5) = 0" "rb_sentinel (g_tree no_groups) = 9" by (simp_all add: no_groups_def two_members_def)
  moreover have "AL_ALG_WEIGHT < 4" by (simp add: AL_ALG_WEIGHT_def)
  ultimately show ?thesis
    using group_insert_ready [OF no_groups_wf, where fid = 1 and gid = 2 and sched = AL_ALG_WEIGHT and node = 5
        and rows = "[(7, al_member_conf.make 5 80 3 (al_addr_t.make 4 AF_INET 1))]"] by auto
qed

theorem group_insert_crash_witness:
  "\<exists>st'. al_group_insert (Some 0) (Some []) 1 1 AL_ALG_RR no_groups = Some (0, st') \<and>
    al_member_lookup 1 1 (al_margs.make 0 (al_addr_t.make 4 AF_INET 1) 0 5 0 1 (replicate 16 0) 0 0) st' = None"
  by (rule group_insert_crash [OF no_groups_wf]) (simp_all add: no_groups_def two_members_def)

theorem member_lookup_picks_witness:
  "\<exists>rc margs' st'. al_member_lookup 1 1 (al_margs.make 0 (al_addr_t.make 4 AF_INET 1) 0 5 0 1 (replicate 16 0) 0 0) one_group = Some (rc, margs', st') \<and> rc = 0"
proof -
  have "cands (g_mem one_group) (\<lambda>_. []) 0 \<noteq> []"
    by (simp add: one_group_def no_groups_def cands_def slots_def clusters_def member_at_def cluster_def two_members_def no_member_def upt_rec can_pick_def)
  moreover have "g_schd one_group 0 \<noteq> AL_ALG_GEOIP" by (simp add: one_group_def no_groups_def AL_ALG_RR_def AL_ALG_GEOIP_def)
  ultimately show ?thesis
    using member_lookup_picks [OF one_group_wf, of 1 1 0 "al_margs.make 0 (al_addr_t.make 4 AF_INET 1) 0 5 0 1 (replicate 16 0) 0 0"] by auto
qed

text \<open>The group of \<open>one_group\<close> with the cluster 7 chained to its record.\<close>

definition chained_group :: group_state where
  "chained_group = one_group\<lparr>g_mem := (g_mem one_group)\<lparr>ms_lists := hlist_add_head 7 0 (ms_lists (g_mem one_group)), ms_alloc := {7}\<rparr>\<rparr>"

lemma chained_group_wf: "group_wf chained_group [al_make_key 1 1 \<mapsto> 0] ((\<lambda>_. [])(0 := [7]))"
proof -
  have g: "rb_index (g_tree one_group) [al_make_key 1 1 \<mapsto> 0]" "mem_wf {0} (g_mem one_group) (\<lambda>_. [])"
    using one_group_wf by (simp_all add: group_wf_def)
  have h: "heap_is (live {0} (ms_lists (g_mem one_group))) (\<lambda>_. [])" using g(2) by (simp add: mem_wf_def)
  have "heap_is (live {0} (hlist_add_head 7 0 (ms_lists (g_mem one_group)))) ((\<lambda>_. [])(0 := [7]))"
    using heap_is_add_head [OF h, of 7 0] by (simp add: live_add_head chain_fresh_def)
  moreover have "cluster_wf (ms_node (g_mem one_group) 7)"
    by (simp add: one_group_def no_groups_def two_members_def cluster_wf_def used_replicate)
  ultimately have "mem_wf {0} (g_mem chained_group) ((\<lambda>_. [])(0 := [7]))"
    using g(2) by (auto simp: mem_wf_def chained_group_def)
  then show ?thesis using g(1) one_group_wf by (simp add: group_wf_def) (simp add: chained_group_def)
qed

theorem group_delete_gone_witness:
  "\<exists>st'. al_group_delete 1 1 chained_group = Some (0, st') \<and> group_wf st' Map.empty (\<lambda>_. []) \<and> ms_alloc (g_mem chained_group) = {7} \<and>
    ms_alloc (g_mem st') = {} \<and> g_alloc st' = {} \<and> al_group_delete 1 1 st' = Some (-1, st')"
  using group_delete_gone [OF chained_group_wf, of 1 1 0 "al_margs.make 0 (al_addr_t.make 4 AF_INET 1) 0 5 0 1 (replicate 16 0) 0 0"]
  by (auto simp: fun_upd_idem chained_group_def one_group_def)

end
