(* ===== verification/Art_Node.thy ===== *)
theory Art_Node
  imports Aware_Prelude
begin

text \<open>
  The nodes of the adaptive radix tree (al_radix_tree.c) that holds the domain names. A pointer
  \<open>art_node*\<close> is a value of the datatype \<open>art\<close>: null, a tagged leaf, or a node of one of the four
  sizes with its arrays. Every node is referred to from one place, so writing through a pointer
  is replacing the value there; \<open>art_node**\<close> is the index of a slot of the children array. A read
  or copy outside an array is \<open>None\<close>. The allocator al_calloc is taken to deliver zeroed memory:
  the code uses what it returns without a test.
\<close>

section \<open>Arrays\<close>

definition nth_opt :: "'a list \<Rightarrow> nat \<Rightarrow> 'a option" where
  "nth_opt xs i = (if i < length xs then Some (xs ! i) else None)"

text \<open>memcpy and memmove: \<open>n\<close> elements of \<open>src\<close> from \<open>j\<close> on go to \<open>dst\<close> from \<open>i\<close> on.\<close>

definition memcpy :: "'a list \<Rightarrow> nat \<Rightarrow> 'a list \<Rightarrow> nat \<Rightarrow> nat \<Rightarrow> 'a list option" where
  "memcpy dst i src j n =
     (if i + n \<le> length dst \<and> j + n \<le> length src
      then Some (take i dst @ take n (drop j src) @ drop (i + n) dst) else None)"

fun find_idx :: "('a \<Rightarrow> bool) \<Rightarrow> 'a list \<Rightarrow> nat option" where
  "find_idx P [] = None"
| "find_idx P (x # xs) = (if P x then Some 0 else map_option Suc (find_idx P xs))"

section \<open>Nodes\<close>

type_synonym ptr = "addr option"

definition MAX_PREFIX_LEN :: nat where "MAX_PREFIX_LEN = 10"

record art_hdr =
  num_children :: u8
  partial_len :: u32
  partial :: "u8 list"

record art_leaf =
  l_value :: ptr
  l_key :: "u8 list"

datatype art = Null | Leaf art_leaf
  | Node4 art_hdr "u8 list" "art list"
  | Node16 art_hdr "u8 list" "art list"
  | Node48 art_hdr "u8 list" "art list"
  | Node256 art_hdr "art list"

datatype art_type = NODE4 | NODE16 | NODE48 | NODE256

definition zero_hdr :: art_hdr where
  "zero_hdr = \<lparr>num_children = 0, partial_len = 0, partial = replicate MAX_PREFIX_LEN 0\<rparr>"

fun alloc_node :: "art_type \<Rightarrow> art" where
  "alloc_node NODE4 = Node4 zero_hdr (replicate 4 0) (replicate 4 Null)"
| "alloc_node NODE16 = Node16 zero_hdr (replicate 16 0) (replicate 16 Null)"
| "alloc_node NODE48 = Node48 zero_hdr (replicate 256 0) (replicate 48 Null)"
| "alloc_node NODE256 = Node256 zero_hdr (replicate 256 Null)"

fun hdr :: "art \<Rightarrow> art_hdr" where
  "hdr (Node4 h ks cs) = h"
| "hdr (Node16 h ks cs) = h"
| "hdr (Node48 h ks cs) = h"
| "hdr (Node256 h cs) = h"
| "hdr Null = zero_hdr"
| "hdr (Leaf l) = zero_hdr"

fun set_hdr :: "art_hdr \<Rightarrow> art \<Rightarrow> art" where
  "set_hdr h (Node4 _ ks cs) = Node4 h ks cs"
| "set_hdr h (Node16 _ ks cs) = Node16 h ks cs"
| "set_hdr h (Node48 _ ks cs) = Node48 h ks cs"
| "set_hdr h (Node256 _ cs) = Node256 h cs"
| "set_hdr h Null = Null"
| "set_hdr h (Leaf l) = Leaf l"

fun children :: "art \<Rightarrow> art list" where
  "children (Node4 h ks cs) = cs"
| "children (Node16 h ks cs) = cs"
| "children (Node48 h ks cs) = cs"
| "children (Node256 h cs) = cs"
| "children Null = []"
| "children (Leaf l) = []"

text \<open>\<open>*child = x\<close> for the slot \<open>child\<close>.\<close>

fun set_child :: "art \<Rightarrow> nat \<Rightarrow> art \<Rightarrow> art" where
  "set_child (Node4 h ks cs) i x = Node4 h ks (cs[i := x])"
| "set_child (Node16 h ks cs) i x = Node16 h ks (cs[i := x])"
| "set_child (Node48 h ks cs) i x = Node48 h ks (cs[i := x])"
| "set_child (Node256 h cs) i x = Node256 h (cs[i := x])"
| "set_child Null i x = Null"
| "set_child (Leaf l) i x = Leaf l"

section \<open>Finding a child\<close>

text \<open>
  The sixteen keys of a NODE16 are compared at once: \<open>movemask\<close> is _mm_movemask_epi8 on the
  outcomes and \<open>ctz\<close> is __builtin_ctz, the number of the lowest bit set.
\<close>

definition movemask :: "bool list \<Rightarrow> u32" where
  "movemask bs = horner_sum of_bool 2 bs"

definition ctz :: "u32 \<Rightarrow> nat" where
  "ctz w = length (takeWhile (\<lambda>i. \<not> bit w i) [0..<32])"

definition node16_bitfield :: "(u8 \<Rightarrow> bool) \<Rightarrow> u8 list \<Rightarrow> u8 \<Rightarrow> u32" where
  "node16_bitfield P ks n = movemask (map P ks) AND (push_bit (unat n) 1 - 1)"

fun find_child :: "art \<Rightarrow> u8 \<Rightarrow> nat option" where
  "find_child (Node4 h ks cs) c = find_idx (\<lambda>k. k = c) (take (unat (num_children h)) ks)"
| "find_child (Node16 h ks cs) c =
     (let bitfield = node16_bitfield (\<lambda>k. k = c) ks (num_children h)
      in if bitfield \<noteq> 0 then Some (ctz bitfield) else None)"
| "find_child (Node48 h ks cs) c = (let i = ks ! unat c in if i \<noteq> 0 then Some (unat i - 1) else None)"
| "find_child (Node256 h cs) c = (if cs ! unat c \<noteq> Null then Some (unat c) else None)"
| "find_child Null c = None"
| "find_child (Leaf l) c = None"

section \<open>Adding a child\<close>

definition copy_header :: "art_hdr \<Rightarrow> art_hdr \<Rightarrow> art_hdr option" where
  "copy_header dest src =
     map_option (\<lambda>p. dest\<lparr>num_children := num_children src, partial_len := partial_len src, partial := p\<rparr>)
       (memcpy (partial dest) 0 (partial src) 0 (min MAX_PREFIX_LEN (unat (partial_len src))))"

fun add_child256 :: "art \<Rightarrow> u8 \<Rightarrow> art \<Rightarrow> art option" where
  "add_child256 (Node256 h cs) c child = Some (Node256 (h\<lparr>num_children := num_children h + 1\<rparr>) (cs[unat c := child]))"
| "add_child256 _ c child = None"

fun add_child48 :: "art \<Rightarrow> u8 \<Rightarrow> art \<Rightarrow> art option" where
  "add_child48 (Node48 h ks cs) c child =
     (if num_children h < 48
      then do {
        pos \<leftarrow> find_idx (\<lambda>x. x = Null) cs;
        Some (Node48 (h\<lparr>num_children := num_children h + 1\<rparr>) (ks[unat c := of_nat (pos + 1)]) (cs[pos := child]))
      }
      else do {
        let moved = map (\<lambda>i. if ks ! i \<noteq> 0 then cs ! (unat (ks ! i) - 1) else Null) [0..<256];
        h' \<leftarrow> copy_header zero_hdr h;
        add_child256 (Node256 h' moved) c child
      })"
| "add_child48 _ c child = None"

fun add_child16 :: "art \<Rightarrow> u8 \<Rightarrow> art \<Rightarrow> art option" where
  "add_child16 (Node16 h ks cs) c child =
     (let n = unat (num_children h) in
      if num_children h < 16
      then do {
        let bitfield = node16_bitfield (\<lambda>k. c <s k) ks (num_children h);
        let idx = (if bitfield \<noteq> 0 then ctz bitfield else n);
        ks \<leftarrow> memcpy ks (idx + 1) ks idx (n - idx);
        cs \<leftarrow> memcpy cs (idx + 1) cs idx (n - idx);
        Some (Node16 (h\<lparr>num_children := num_children h + 1\<rparr>) (ks[idx := c]) (cs[idx := child]))
      }
      else do {
        cs' \<leftarrow> memcpy (replicate 48 Null) 0 cs 0 n;
        let ks' = fold (\<lambda>i ks'. ks'[unat (ks ! i) := of_nat (i + 1)]) [0..<n] (replicate 256 0);
        h' \<leftarrow> copy_header zero_hdr h;
        add_child48 (Node48 h' ks' cs') c child
      })"
| "add_child16 _ c child = None"

fun add_child4 :: "art \<Rightarrow> u8 \<Rightarrow> art \<Rightarrow> art option" where
  "add_child4 (Node4 h ks cs) c child =
     (let n = unat (num_children h) in
      if num_children h < 4
      then do {
        let idx = (case find_idx (\<lambda>k. c < k) (take n ks) of Some i \<Rightarrow> i | None \<Rightarrow> n);
        ks \<leftarrow> memcpy ks (idx + 1) ks idx (n - idx);
        cs \<leftarrow> memcpy cs (idx + 1) cs idx (n - idx);
        Some (Node4 (h\<lparr>num_children := num_children h + 1\<rparr>) (ks[idx := c]) (cs[idx := child]))
      }
      else do {
        cs' \<leftarrow> memcpy (replicate 16 Null) 0 cs 0 n;
        ks' \<leftarrow> memcpy (replicate 16 0) 0 ks 0 n;
        h' \<leftarrow> copy_header zero_hdr h;
        add_child16 (Node16 h' ks' cs') c child
      })"
| "add_child4 _ c child = None"

fun add_child :: "art \<Rightarrow> u8 \<Rightarrow> art \<Rightarrow> art option" where
  "add_child (Node4 h ks cs) c child = add_child4 (Node4 h ks cs) c child"
| "add_child (Node16 h ks cs) c child = add_child16 (Node16 h ks cs) c child"
| "add_child (Node48 h ks cs) c child = add_child48 (Node48 h ks cs) c child"
| "add_child (Node256 h cs) c child = add_child256 (Node256 h cs) c child"
| "add_child Null c child = None"
| "add_child (Leaf l) c child = None"

section \<open>Removing a child\<close>

text \<open>The loops that repack the children of a shrinking node.\<close>

definition pack48 :: "art list \<Rightarrow> nat \<times> u8 list \<times> art list" where
  "pack48 cs = fold (\<lambda>i (pos, ks, ds). if cs ! i \<noteq> Null then (pos + 1, ks[i := of_nat (pos + 1)], ds[pos := cs ! i]) else (pos, ks, ds))
     [0..<256] (0, replicate 256 0, replicate 48 Null)"

definition pack16 :: "u8 list \<Rightarrow> art list \<Rightarrow> nat \<times> u8 list \<times> art list" where
  "pack16 ks cs = fold (\<lambda>i (child, ls, ds). if ks ! i \<noteq> 0 then (child + 1, ls[child := of_nat i], ds[child := cs ! (unat (ks ! i) - 1)]) else (child, ls, ds))
     [0..<256] (0, replicate 16 0, replicate 16 Null)"

fun remove_child256 :: "art \<Rightarrow> u8 \<Rightarrow> art option" where
  "remove_child256 (Node256 h cs) c =
     (let cs = cs[unat c := Null]; h = h\<lparr>num_children := num_children h - 1\<rparr> in
      if num_children h = 37
      then do {
        h' \<leftarrow> copy_header zero_hdr h;
        let (pos, ks, ds) = pack48 cs;
        Some (Node48 h' ks ds)
      }
      else Some (Node256 h cs))"
| "remove_child256 _ c = None"

fun remove_child48 :: "art \<Rightarrow> u8 \<Rightarrow> art option" where
  "remove_child48 (Node48 h ks cs) c =
     (let pos = ks ! unat c; ks = ks[unat c := 0]; cs = cs[unat pos - 1 := Null];
          h = h\<lparr>num_children := num_children h - 1\<rparr> in
      if num_children h = 12
      then do {
        h' \<leftarrow> copy_header zero_hdr h;
        let (child, ls, ds) = pack16 ks cs;
        Some (Node16 h' ls ds)
      }
      else Some (Node48 h ks cs))"
| "remove_child48 _ c = None"

fun remove_child16 :: "art \<Rightarrow> nat \<Rightarrow> art option" where
  "remove_child16 (Node16 h ks cs) pos =
     (let n = unat (num_children h) in
      do {
        ks \<leftarrow> memcpy ks pos ks (pos + 1) (n - 1 - pos);
        cs \<leftarrow> memcpy cs pos cs (pos + 1) (n - 1 - pos);
        let h = h\<lparr>num_children := num_children h - 1\<rparr>;
        if num_children h = 3
        then do {
          h' \<leftarrow> copy_header zero_hdr h;
          ks' \<leftarrow> memcpy (replicate 4 0) 0 ks 0 4;
          cs' \<leftarrow> memcpy (replicate 4 Null) 0 cs 0 4;
          Some (Node4 h' ks' cs')
        }
        else Some (Node16 h ks cs)
      })"
| "remove_child16 _ pos = None"

text \<open>The prefix of a NODE4 whose only child takes its place: its own, the key byte, the child's.\<close>

definition join_prefix :: "art_hdr \<Rightarrow> u8 \<Rightarrow> art_hdr \<Rightarrow> art_hdr option" where
  "join_prefix h k hc =
     do {
       let prefix = unat (partial_len h);
       let p = (if prefix < MAX_PREFIX_LEN then (partial h)[prefix := k] else partial h);
       let prefix = (if prefix < MAX_PREFIX_LEN then prefix + 1 else prefix);
       let sub_prefix = (if prefix < MAX_PREFIX_LEN then min (unat (partial_len hc)) (MAX_PREFIX_LEN - prefix) else 0);
       p \<leftarrow> (if prefix < MAX_PREFIX_LEN then memcpy p prefix (partial hc) 0 sub_prefix else Some p);
       pc \<leftarrow> memcpy (partial hc) 0 p 0 (min (prefix + sub_prefix) MAX_PREFIX_LEN);
       Some (hc\<lparr>partial := pc, partial_len := partial_len hc + (partial_len h + 1)\<rparr>)
     }"

fun remove_child4 :: "art \<Rightarrow> nat \<Rightarrow> art option" where
  "remove_child4 (Node4 h ks cs) pos =
     (let n = unat (num_children h) in
      do {
        ks \<leftarrow> memcpy ks pos ks (pos + 1) (n - 1 - pos);
        cs \<leftarrow> memcpy cs pos cs (pos + 1) (n - 1 - pos);
        let h = h\<lparr>num_children := num_children h - 1\<rparr>;
        if num_children h = 1
        then (case cs ! 0 of
                Null \<Rightarrow> None
              | Leaf l \<Rightarrow> Some (Leaf l)
              | child \<Rightarrow> map_option (\<lambda>hc. set_hdr hc child) (join_prefix h (ks ! 0) (hdr child)))
        else Some (Node4 h ks cs)
      })"
| "remove_child4 _ pos = None"

fun remove_child :: "art \<Rightarrow> u8 \<Rightarrow> nat \<Rightarrow> art option" where
  "remove_child (Node4 h ks cs) c l = remove_child4 (Node4 h ks cs) l"
| "remove_child (Node16 h ks cs) c l = remove_child16 (Node16 h ks cs) l"
| "remove_child (Node48 h ks cs) c l = remove_child48 (Node48 h ks cs) c"
| "remove_child (Node256 h cs) c l = remove_child256 (Node256 h cs) c"
| "remove_child Null c l = None"
| "remove_child (Leaf l') c l = None"

end
