(* ===== verification/Art_Kinds.thy ===== *)
theory Art_Kinds
  imports Art_Node
begin

text \<open>
  The four sizes of nodes of the adaptive radix tree are the same thing to the tree: a finite
  map from key bytes to children. \<open>node_shape\<close> is the well-formedness of a node, \<open>kid\<close> its map; the
  lemmas show for every size, and across growing and shrinking, that find_child reads the map,
  add_child and remove_child update it at one byte, and the prefix is kept. The locale
  \<open>child_store\<close> is the contract the tree relies on.
\<close>

section \<open>Facts on arrays\<close>

lemma find_idx_takeWhile: "find_idx P xs = (let i = length (takeWhile (\<lambda>x. \<not> P x) xs) in if i < length xs then Some i else None)"
  by (induction xs) (auto simp: Let_def)

lemma find_idx_Some: "find_idx P xs = Some i \<Longrightarrow> i < length xs \<and> P (xs ! i) \<and> (\<forall>j < i. \<not> P (xs ! j))"
  by (induction xs arbitrary: i) (auto simp: nth_Cons split: if_splits nat.splits)

lemma find_idx_None: "find_idx P xs = None \<longleftrightarrow> (\<forall>x \<in> set xs. \<not> P x)"
  by (induction xs) auto

lemma memcpy_shift_up:
  assumes "idx \<le> n" "n < length xs"
  shows "\<exists>ys. memcpy xs (idx + 1) xs idx (n - idx) = Some ys \<and> length ys = length xs \<and>
    take (Suc n) (ys[idx := x]) = take idx (take n xs) @ x # drop idx (take n xs)"
proof (intro exI conjI)
  let ?ys = "take (idx + 1) xs @ take (n - idx) (drop idx xs) @ drop (idx + 1 + (n - idx)) xs"
  show "memcpy xs (idx + 1) xs idx (n - idx) = Some ?ys" using assms by (simp add: memcpy_def)
  show "length ?ys = length xs" using assms by simp
  have "take (idx + 1) xs = take idx xs @ [xs ! idx]" using assms by (simp add: take_Suc_conv_app_nth)
  then have "?ys[idx := x] = take idx xs @ x # take (n - idx) (drop idx xs) @ drop (Suc n) xs"
    using assms by (simp add: list_update_append)
  moreover have "take (n - idx) (drop idx xs) = drop idx (take n xs)" by (simp add: drop_take)
  ultimately show "take (Suc n) (?ys[idx := x]) = take idx (take n xs) @ x # drop idx (take n xs)"
    using assms by (simp add: min_absorb1 Suc_diff_le)
qed

lemma memcpy_shift_down:
  assumes "pos < n" "n \<le> length xs"
  shows "\<exists>ys. memcpy xs pos xs (pos + 1) (n - 1 - pos) = Some ys \<and> length ys = length xs \<and>
    take (n - 1) ys = take pos (take n xs) @ drop (Suc pos) (take n xs)"
proof (intro exI conjI)
  let ?ys = "take pos xs @ take (n - 1 - pos) (drop (pos + 1) xs) @ drop (pos + (n - 1 - pos)) xs"
  show "memcpy xs pos xs (pos + 1) (n - 1 - pos) = Some ?ys" using assms by (simp add: memcpy_def)
  show "length ?ys = length xs" using assms by simp
  have "take (n - 1 - pos) (drop (pos + 1) xs) = drop (Suc pos) (take n xs)" using assms by (simp add: drop_take)
  then show "take (n - 1) ?ys = take pos (take n xs) @ drop (Suc pos) (take n xs)"
    using assms by (simp add: min_absorb1 min_absorb2)
qed

lemma memcpy_grow: "n \<le> length src \<Longrightarrow> n \<le> length dst \<Longrightarrow> memcpy dst 0 src 0 n = Some (take n src @ drop n dst)"
  by (simp add: memcpy_def)

lemma map_of_put: "map_of xs c = None \<Longrightarrow> map_of (xs @ (c, x) # ys) = (map_of (xs @ ys))(c \<mapsto> x)"
  by (auto simp: fun_eq_iff map_add_def split: option.splits)

lemma map_of_zip_insert:
  assumes "length ks = length cs" "c \<notin> set ks" "i \<le> length ks"
  shows "map_of (zip (take i ks @ c # drop i ks) (take i cs @ x # drop i cs)) = (map_of (zip ks cs))(c \<mapsto> x)"
proof -
  have z: "zip ks cs = zip (take i ks) (take i cs) @ zip (drop i ks) (drop i cs)"
    using assms by (metis append_take_drop_id length_take zip_append)
  have c: "c \<notin> set (take i ks)" using assms(2) by (meson in_set_takeD)
  then have "map_of (zip (take i ks) (take i cs)) c = None" using assms(1) by (simp only: map_of_zip_is_None length_take not_False_eq_True)
  from map_of_put [OF this, of x "zip (drop i ks) (drop i cs)"] show ?thesis using assms(1,3) unfolding z by simp
qed

lemma map_of_zip_split:
  assumes "length ks = length cs" "distinct ks" "i < length ks"
  shows "map_of (zip ks cs) = (map_of (zip (take i ks @ drop (Suc i) ks) (take i cs @ drop (Suc i) cs)))(ks ! i \<mapsto> cs ! i) \<and>
    map_of (zip (take i ks @ drop (Suc i) ks) (take i cs @ drop (Suc i) cs)) (ks ! i) = None"
proof -
  let ?ks = "take i ks @ drop (Suc i) ks" and ?cs = "take i cs @ drop (Suc i) cs"
  have k: "ks = take i ks @ ks ! i # drop (Suc i) ks" and c: "cs = take i cs @ cs ! i # drop (Suc i) cs"
    using assms by (simp_all add: id_take_nth_drop)
  have n: "ks ! i \<notin> set ?ks" using assms(2) k by (metis distinct_append distinct.simps(2) Un_iff disjoint_iff set_append list.set_intros(1))
  have "map_of (zip ks cs) = (map_of (zip ?ks ?cs))(ks ! i \<mapsto> cs ! i)"
    using map_of_zip_insert [of ?ks ?cs "ks ! i" i "cs ! i"] n k c assms by (simp add: min_absorb2)
  moreover have "map_of (zip ?ks ?cs) (ks ! i) = None" using n assms by (simp add: map_of_zip_is_None)
  ultimately show ?thesis by simp
qed

lemma map_of_zip_delete:
  assumes "length ks = length cs" "distinct ks" "i < length ks"
  shows "map_of (zip (take i ks @ drop (Suc i) ks) (take i cs @ drop (Suc i) cs)) = (map_of (zip ks cs))(ks ! i := None)"
  using map_of_zip_split [OF assms] by (simp add: fun_upd_idem)

lemma map_of_zip_update:
  assumes "length ks = length cs" "distinct ks" "i < length ks"
  shows "map_of (zip ks (cs[i := x])) = (map_of (zip ks cs))(ks ! i \<mapsto> x)"
  using map_of_zip_split [OF assms] map_of_zip_split [of ks "cs[i := x]" i] assms by simp

section \<open>The sixteen-way comparison\<close>

lemma bit_node16_bitfield:
  assumes "length ks = 16" "unat n \<le> 16"
  shows "bit (node16_bitfield P ks n) i \<longleftrightarrow> i < unat n \<and> P (ks ! i)"
proof -
  have "push_bit (unat n) 1 - 1 = (mask (unat n) :: u32)" by (simp add: mask_eq_exp_minus_1 push_bit_eq_mult)
  then show ?thesis using assms
    by (auto simp: node16_bitfield_def movemask_def bit_simps bit_horner_sum_bit_iff)
qed

lemma node16_find:
  assumes "length ks = 16" "unat n \<le> 16"
  shows "(if node16_bitfield P ks n \<noteq> 0 then Some (ctz (node16_bitfield P ks n)) else None) = find_idx P (take (unat n) ks)"
proof (cases "find_idx P (take (unat n) ks)")
  case None
  then have "\<not> bit (node16_bitfield P ks n) i" for i
    using bit_node16_bitfield [OF assms] assms nth_mem [of i "take (unat n) ks"] by (auto simp: find_idx_None)
  then have "node16_bitfield P ks n = 0" by (simp add: bit_eq_iff)
  then show ?thesis using None by simp
next
  case (Some i)
  then have i: "i < unat n" "P (ks ! i)" "\<forall>j < i. \<not> P (ks ! j)" using find_idx_Some [OF Some] assms by auto
  have b: "bit (node16_bitfield P ks n) j \<longleftrightarrow> j < unat n \<and> P (ks ! j)" for j by (rule bit_node16_bitfield [OF assms])
  have z: "node16_bitfield P ks n \<noteq> 0" using b [of i] i by auto
  have "[0..<32] = [0..<i] @ i # [Suc i..<32]" using i(1) assms(2) upt_add_eq_append [of 0 i "32 - i"] upt_conv_Cons [of i 32] by simp
  then have "takeWhile (\<lambda>i. \<not> bit (node16_bitfield P ks n) i) [0..<32] = [0..<i]"
    using b i by (simp add: takeWhile_tail)
  then show ?thesis using Some z by (simp add: ctz_def)
qed

section \<open>The children of a node\<close>

text \<open>
  \<open>node_shape\<close>: the arrays have their sizes, \<open>num_children\<close> counts the children (modulo 256 for a
  full NODE256), no live slot is null, and the key bytes are distinct. \<open>kid n\<close> gives the child
  for a key byte, \<open>kids n\<close> all of them in the order of the loops over the node.
\<close>

definition packed :: "nat \<Rightarrow> art_hdr \<Rightarrow> u8 list \<Rightarrow> art list \<Rightarrow> bool" where
  "packed cap h ks cs \<longleftrightarrow> length ks = cap \<and> length cs = cap \<and> unat (num_children h) \<le> cap \<and>
     distinct (take (unat (num_children h)) ks) \<and> Null \<notin> set (take (unat (num_children h)) cs)"

definition live48 :: "u8 list \<Rightarrow> nat set" where
  "live48 ks = {i. i < 256 \<and> ks ! i \<noteq> 0}"

definition live256 :: "art list \<Rightarrow> nat set" where
  "live256 cs = {i. i < 256 \<and> cs ! i \<noteq> Null}"

definition indexed :: "art_hdr \<Rightarrow> u8 list \<Rightarrow> art list \<Rightarrow> bool" where
  "indexed h ks cs \<longleftrightarrow> length ks = 256 \<and> length cs = 48 \<and> card (live48 ks) = unat (num_children h) \<and>
     bij_betw (\<lambda>i. unat (ks ! i) - 1) (live48 ks) {j. j < 48 \<and> cs ! j \<noteq> Null}"

fun node_shape :: "art \<Rightarrow> bool" where
  "node_shape (Node4 h ks cs) \<longleftrightarrow> length (partial h) = MAX_PREFIX_LEN \<and> packed 4 h ks cs"
| "node_shape (Node16 h ks cs) \<longleftrightarrow> length (partial h) = MAX_PREFIX_LEN \<and> packed 16 h ks cs"
| "node_shape (Node48 h ks cs) \<longleftrightarrow> length (partial h) = MAX_PREFIX_LEN \<and> indexed h ks cs"
| "node_shape (Node256 h cs) \<longleftrightarrow> length (partial h) = MAX_PREFIX_LEN \<and> length cs = 256 \<and> of_nat (card (live256 cs)) = num_children h"
| "node_shape Null \<longleftrightarrow> False"
| "node_shape (Leaf l) \<longleftrightarrow> False"

fun kid :: "art \<Rightarrow> u8 \<Rightarrow> art option" where
  "kid (Node4 h ks cs) c = map_of (zip (take (unat (num_children h)) ks) (take (unat (num_children h)) cs)) c"
| "kid (Node16 h ks cs) c = map_of (zip (take (unat (num_children h)) ks) (take (unat (num_children h)) cs)) c"
| "kid (Node48 h ks cs) c = (if ks ! unat c \<noteq> 0 then nth_opt cs (unat (ks ! unat c) - 1) else None)"
| "kid (Node256 h cs) c = Option.bind (nth_opt cs (unat c)) (\<lambda>x. if x = Null then None else Some x)"
| "kid Null c = None"
| "kid (Leaf l) c = None"

lemma packed_find:
  assumes "packed cap h ks cs"
  shows "find_idx (\<lambda>k. k = c) (take (unat (num_children h)) ks) = Some i \<Longrightarrow>
      i < unat (num_children h) \<and> i < length cs \<and> ks ! i = c \<and> map_of (zip (take (unat (num_children h)) ks) (take (unat (num_children h)) cs)) c = Some (cs ! i)"
    and "find_idx (\<lambda>k. k = c) (take (unat (num_children h)) ks) = None \<Longrightarrow>
      map_of (zip (take (unat (num_children h)) ks) (take (unat (num_children h)) cs)) c = None"
proof -
  let ?n = "unat (num_children h)"
  assume "find_idx (\<lambda>k. k = c) (take ?n ks) = Some i"
  from find_idx_Some [OF this] have i: "i < ?n" "i < length ks" "ks ! i = c" by auto
  have "map_of (zip (take ?n ks) (take ?n cs)) (take ?n ks ! i) = Some (take ?n cs ! i)"
    using assms i by (intro map_of_zip_nth) (simp_all add: packed_def)
  then show "i < ?n \<and> i < length cs \<and> ks ! i = c \<and> map_of (zip (take ?n ks) (take ?n cs)) c = Some (cs ! i)"
    using i assms by (simp add: packed_def)
next
  assume "find_idx (\<lambda>k. k = c) (take (unat (num_children h)) ks) = None"
  then show "map_of (zip (take (unat (num_children h)) ks) (take (unat (num_children h)) cs)) c = None"
    using assms by (auto simp: find_idx_None packed_def map_of_zip_is_None)
qed

lemma packed_set:
  assumes "packed cap h ks cs" "i < unat (num_children h)" "x \<noteq> Null"
  shows "packed cap h ks (cs[i := x]) \<and>
    map_of (zip (take (unat (num_children h)) ks) (take (unat (num_children h)) (cs[i := x]))) =
      (map_of (zip (take (unat (num_children h)) ks) (take (unat (num_children h)) cs)))(ks ! i \<mapsto> x)"
proof -
  let ?n = "unat (num_children h)"
  have p: "length (take ?n ks) = ?n" "length (take ?n cs) = ?n" "distinct (take ?n ks)" using assms by (simp_all add: packed_def)
  have "map_of (zip (take ?n ks) ((take ?n cs)[i := x])) = (map_of (zip (take ?n ks) (take ?n cs)))(take ?n ks ! i \<mapsto> x)"
    using p assms(2) by (intro map_of_zip_update) simp_all
  then show ?thesis using assms set_update_subset_insert [of "take ?n cs" i x] by (auto simp: packed_def take_update_swap)
qed

lemma packed_put:
  assumes p: "packed cap h ks cs" "unat (num_children h) < cap" "cap < 256"
    and i: "idx \<le> unat (num_children h)" and c: "c \<notin> set (take (unat (num_children h)) ks)" and x: "x \<noteq> Null"
  shows "\<exists>ks1 cs1. memcpy ks (idx + 1) ks idx (unat (num_children h) - idx) = Some ks1 \<and>
    memcpy cs (idx + 1) cs idx (unat (num_children h) - idx) = Some cs1 \<and>
    packed cap (h\<lparr>num_children := num_children h + 1\<rparr>) (ks1[idx := c]) (cs1[idx := x]) \<and>
    map_of (zip (take (unat (num_children h + 1)) (ks1[idx := c])) (take (unat (num_children h + 1)) (cs1[idx := x]))) =
      (map_of (zip (take (unat (num_children h)) ks) (take (unat (num_children h)) cs)))(c \<mapsto> x)"
proof -
  let ?n = "unat (num_children h)"
  let ?ks = "take ?n ks" and ?cs = "take ?n cs"
  have u: "unat (num_children h + 1) = Suc ?n" using p by (simp add: unat_plus1)
  have l: "?n < length ks" "?n < length cs" "length ?ks = length ?cs" "length ks = cap" "length cs = cap" "distinct ?ks" "Null \<notin> set ?cs"
    using p by (simp_all add: packed_def)
  obtain ks1 where k: "memcpy ks (idx + 1) ks idx (?n - idx) = Some ks1" "length ks1 = length ks"
    "take (Suc ?n) (ks1[idx := c]) = take idx ?ks @ c # drop idx ?ks" using memcpy_shift_up [OF i l(1), of c] by blast
  obtain cs1 where cs: "memcpy cs (idx + 1) cs idx (?n - idx) = Some cs1" "length cs1 = length cs"
    "take (Suc ?n) (cs1[idx := x]) = take idx ?cs @ x # drop idx ?cs" using memcpy_shift_up [OF i l(2), of x] by blast
  have s: "set (take idx xs @ y # drop idx xs) = insert y (set xs)" for y :: 'c and xs
    by (metis append_take_drop_id list.simps(15) set_append Un_insert_right)
  have d: "distinct (take idx ?ks @ c # drop idx ?ks)"
    using l(6) c by (metis append_take_drop_id distinct_append distinct.simps(2) disjoint_insert(2) in_set_dropD in_set_takeD list.simps(15))
  have "Null \<notin> set (take idx ?cs @ x # drop idx ?cs)" using l(7) x unfolding s by simp
  then have "packed cap (h\<lparr>num_children := num_children h + 1\<rparr>) (ks1[idx := c]) (cs1[idx := x])"
    using d k cs l p(2) by (simp add: packed_def u del: take_update_swap)
  moreover have "map_of (zip (take (unat (num_children h + 1)) (ks1[idx := c])) (take (unat (num_children h + 1)) (cs1[idx := x]))) = (map_of (zip ?ks ?cs))(c \<mapsto> x)"
    unfolding u k(3) cs(3) using l i c by (intro map_of_zip_insert) simp_all
  ultimately show ?thesis using k(1) cs(1) by blast
qed

lemma packed_cut:
  assumes p: "packed cap h ks cs" and i: "pos < unat (num_children h)"
  shows "\<exists>ks1 cs1. memcpy ks pos ks (pos + 1) (unat (num_children h) - 1 - pos) = Some ks1 \<and>
    memcpy cs pos cs (pos + 1) (unat (num_children h) - 1 - pos) = Some cs1 \<and>
    packed cap (h\<lparr>num_children := num_children h - 1\<rparr>) ks1 cs1 \<and>
    map_of (zip (take (unat (num_children h - 1)) ks1) (take (unat (num_children h - 1)) cs1)) =
      (map_of (zip (take (unat (num_children h)) ks) (take (unat (num_children h)) cs)))(ks ! pos := None)"
proof -
  let ?n = "unat (num_children h)"
  let ?ks = "take ?n ks" and ?cs = "take ?n cs"
  have u: "unat (num_children h - 1) = ?n - 1" using i by (simp add: unat_minus_one unat_gt_0 [symmetric])
  have l: "?n \<le> length ks" "?n \<le> length cs" "length ?ks = length ?cs" "length ks = cap" "length cs = cap" "distinct ?ks" "Null \<notin> set ?cs"
    using p by (simp_all add: packed_def)
  obtain ks1 where k: "memcpy ks pos ks (pos + 1) (?n - 1 - pos) = Some ks1" "length ks1 = length ks"
    "take (?n - 1) ks1 = take pos ?ks @ drop (Suc pos) ?ks" using memcpy_shift_down [OF i l(1)] by blast
  obtain cs1 where cs: "memcpy cs pos cs (pos + 1) (?n - 1 - pos) = Some cs1" "length cs1 = length cs"
    "take (?n - 1) cs1 = take pos ?cs @ drop (Suc pos) ?cs" using memcpy_shift_down [OF i l(2)] by blast
  have d: "distinct (take pos ?ks @ drop (Suc pos) ?ks)"
    using l(6) by (metis append_take_drop_id distinct_append distinct_take distinct_drop disjoint_iff in_set_dropD in_set_takeD set_take_disj_set_drop_if_distinct le_SucI order_refl)
  have "Null \<notin> set (take pos ?cs @ drop (Suc pos) ?cs)" using l(7) by (metis Un_iff in_set_dropD in_set_takeD set_append)
  then have "packed cap (h\<lparr>num_children := num_children h - 1\<rparr>) ks1 cs1"
    using d k cs l p by (simp add: packed_def u)
  moreover have "map_of (zip (take (unat (num_children h - 1)) ks1) (take (unat (num_children h - 1)) cs1)) = (map_of (zip ?ks ?cs))(?ks ! pos := None)"
    unfolding u k(3) cs(3) using l i by (intro map_of_zip_delete) simp_all
  ultimately show ?thesis using k(1) cs(1) i by (intro exI [of _ ks1] exI [of _ cs1]) simp
qed

text \<open>\<open>index_of K ys\<close>: the 256 byte array \<open>K\<close> of a NODE48 numbers the key bytes \<open>ys\<close> from one.\<close>

definition index_of :: "u8 list \<Rightarrow> nat list \<Rightarrow> bool" where
  "index_of K ys \<longleftrightarrow> length K = 256 \<and> (\<forall>j < length ys. K ! (ys ! j) = of_nat (j + 1)) \<and> (\<forall>i < 256. i \<notin> set ys \<longrightarrow> K ! i = 0)"

lemma unat_of_nat_u8 [simp]: "k < 256 \<Longrightarrow> unat (of_nat k :: u8) = k"
  by (simp add: unat_of_nat)

lemma of_nat_u8_nonzero: "j < 48 \<Longrightarrow> (of_nat (j + 1) :: u8) \<noteq> 0"
proof
  assume j: "j < 48" "(of_nat (j + 1) :: u8) = 0"
  have "unat (of_nat (j + 1) :: u8) = j + 1" by (rule unat_of_nat_u8) (use j in simp)
  then show False unfolding j(2) by simp
qed

lemma index_of_live:
  assumes "index_of K ys" "set ys \<subseteq> {..<256}" "length ys \<le> 48"
  shows "live48 K = set ys"
proof -
  have "K ! (ys ! j) \<noteq> 0" if "j < length ys" for j
    using assms that of_nat_u8_nonzero [of j] by (simp add: index_of_def)
  then have "K ! i \<noteq> 0" if "i \<in> set ys" for i using that by (metis in_set_conv_nth)
  then show ?thesis using assms by (auto simp: live48_def index_of_def)
qed

lemma index_of_slot:
  assumes "index_of K ys" "length ys \<le> 48" "j < length ys"
  shows "unat (K ! (ys ! j)) - 1 = j"
proof -
  have "K ! (ys ! j) = of_nat (j + 1)" using assms by (simp add: index_of_def)
  moreover have "unat (of_nat (j + 1) :: u8) = j + 1" by (rule unat_of_nat_u8) (use assms in simp)
  ultimately show ?thesis by simp
qed

lemma index_of_indexed:
  assumes k: "index_of K ys" "distinct ys" "set ys \<subseteq> {..<256}" "length ys \<le> 48"
    and d: "length ds = length ys" "Null \<notin> set ds" and h: "unat (num_children h) = length ys"
  shows "indexed h K (ds @ replicate (48 - length ys) Null) \<and>
    kid (Node48 h K (ds @ replicate (48 - length ys) Null)) c = map_of (zip ys ds) (unat c)"
proof -
  let ?cs = "ds @ replicate (48 - length ys) Null"
  have live: "live48 K = set ys" by (rule index_of_live [OF k(1,3,4)])
  have slot: "unat (K ! (ys ! j)) - 1 = j" if "j < length ys" for j by (rule index_of_slot [OF k(1,4) that])
  have S: "{j. j < 48 \<and> ?cs ! j \<noteq> Null} = {..<length ys}"
  proof (intro set_eqI iffI)
    fix j assume "j \<in> {j. j < 48 \<and> ?cs ! j \<noteq> Null}"
    then show "j \<in> {..<length ys}" using d k(4) by (cases "j < length ys") (auto simp: nth_append)
  next
    fix j assume j: "j \<in> {..<length ys}"
    then have "ds ! j \<in> set ds" using d by simp
    then have "ds ! j \<noteq> Null" using d(2) by metis
    then show "j \<in> {j. j < 48 \<and> ?cs ! j \<noteq> Null}" using j d k(4) by (simp add: nth_append)
  qed
  have "bij_betw (\<lambda>i. unat (K ! i) - 1) (set ys) {..<length ys}"
  proof (rule bij_betw_byWitness [where f' = "\<lambda>j. ys ! j"])
    show "\<forall>a \<in> set ys. ys ! (unat (K ! a) - 1) = a" using slot by (metis in_set_conv_nth)
    show "\<forall>a' \<in> {..<length ys}. unat (K ! (ys ! a')) - 1 = a'" using slot by simp
    show "(\<lambda>i. unat (K ! i) - 1) ` set ys \<subseteq> {..<length ys}" using slot by (auto simp: in_set_conv_nth)
    show "(!) ys ` {..<length ys} \<subseteq> set ys" by auto
  qed
  then have i: "indexed h K ?cs"
    unfolding indexed_def S live using k d h by (simp add: index_of_def distinct_card)
  have "kid (Node48 h K ?cs) c = map_of (zip ys ds) (unat c)"
  proof (cases "unat c \<in> set ys")
    case True
    then obtain j where j: "j < length ys" "ys ! j = unat c" by (auto simp: in_set_conv_nth)
    have "K ! unat c \<noteq> 0" using True live by (auto simp: live48_def)
    moreover have "map_of (zip ys ds) (ys ! j) = Some (ds ! j)" using j d k(2) by (intro map_of_zip_nth) simp_all
    moreover have "unat (K ! unat c) - 1 = j" using slot [OF j(1)] j(2) by simp
    ultimately show ?thesis using j d k(4) by (simp add: nth_opt_def nth_append)
  next
    case False
    then have "K ! unat c = 0" using k(1) unat_u8_less [of c] by (simp add: index_of_def)
    moreover have "map_of (zip ys ds) (unat c) = None" using False d(1) by (simp add: map_of_zip_is_None)
    ultimately show ?thesis by simp
  qed
  then show ?thesis using i by simp
qed

lemma index_of_snoc:
  assumes "index_of K ys" "m \<notin> set ys" "m < 256"
  shows "index_of (K[m := of_nat (length ys + 1)]) (ys @ [m])"
proof -
  have "(K[m := of_nat (length ys + 1)]) ! ((ys @ [m]) ! j) = of_nat (j + 1)" if "j < Suc (length ys)" for j
  proof (cases "j = length ys")
    case True
    then show ?thesis using assms by (simp add: index_of_def)
  next
    case False
    then have j: "j < length ys" using that by simp
    then have "ys ! j \<noteq> m" using assms(2) nth_mem by metis
    then show ?thesis using j assms(1) by (simp add: index_of_def nth_append)
  qed
  then show ?thesis using assms by (simp add: index_of_def)
qed

lemma index_loop:
  fixes ks :: "u8 list"
  assumes "distinct ks" "m \<le> length ks" "length ks \<le> 48"
  shows "index_of (fold (\<lambda>i ks'. ks'[unat (ks ! i) := of_nat (i + 1)]) [0..<m] (replicate 256 0)) (map unat (take m ks))"
  using assms(2)
proof (induction m)
  case 0
  then show ?case by (simp add: index_of_def)
next
  case (Suc m)
  have IH: "index_of (fold (\<lambda>i ks'. ks'[unat (ks ! i) := of_nat (i + 1)]) [0..<m] (replicate 256 0)) (map unat (take m ks))" using Suc by simp
  have t: "take (Suc m) ks = take m ks @ [ks ! m]" using Suc.prems by (simp add: take_Suc_conv_app_nth)
  have "ks ! m \<notin> set (take m ks)" using assms(1) t by (metis distinct_take distinct_append disjoint_insert(1) list.simps(15))
  then have "unat (ks ! m) \<notin> set (map unat (take m ks))" by (auto dest!: word_unat_eq_iff [THEN iffD2])
  from index_of_snoc [OF IH this unat_u8_less] show ?case using Suc.prems by (simp add: t)
qed

lemma pack_loop:
  fixes P :: "nat \<Rightarrow> bool"
  defines "ys m \<equiv> filter P [0..<m]"
  assumes "length (ys m) \<le> length ls" "length ls = length ds"
  shows "fold (\<lambda>i (p, ls, ds). if P i then (p + 1, ls[p := g i], ds[p := f i]) else (p, ls, ds)) [0..<m] (0, ls, ds) =
    (length (ys m), map g (ys m) @ drop (length (ys m)) ls, map f (ys m) @ drop (length (ys m)) ds)"
  using assms(2) unfolding ys_def
proof (induction m)
  case (Suc m)
  have up: "(xs @ drop (length xs) zs)[length xs := z] = (xs @ [z]) @ drop (Suc (length xs)) zs" if "length xs < length zs" for xs zs and z :: 'x
    using that by (simp add: list_update_append Cons_nth_drop_Suc [symmetric])
  show ?case
  proof (cases "P m")
    case True
    then have l: "length (filter P [0..<m]) < length ls" using Suc.prems by simp
    then show ?thesis using Suc.IH True assms(3) up [of "map g (filter P [0..<m])" ls "g m"] up [of "map f (filter P [0..<m])" ds "f m"] by simp
  qed (use Suc in simp)
qed simp

lemma index_pack_loop:
  fixes P :: "nat \<Rightarrow> bool"
  defines "ys m \<equiv> filter P [0..<m]"
  assumes "length (ys m) \<le> 48" "m \<le> 256"
  shows "\<exists>K. fold (\<lambda>i (p, ks, ds). if P i then (p + 1, ks[i := of_nat (p + 1)], ds[p := f i]) else (p, ks, ds)) [0..<m] (0, replicate 256 0, replicate 48 Null) =
    (length (ys m), K, map f (ys m) @ replicate (48 - length (ys m)) Null) \<and> index_of K (ys m)"
  using assms(2,3) unfolding ys_def
proof (induction m)
  case 0
  then show ?case by (simp add: index_of_def)
next
  case (Suc m)
  let ?ys = "filter P [0..<m]"
  obtain K where K: "fold (\<lambda>i (p, ks, ds). if P i then (p + 1, ks[i := of_nat (p + 1)], ds[p := f i]) else (p, ks, ds)) [0..<m] (0, replicate 256 0, replicate 48 Null) =
    (length ?ys, K, map f ?ys @ replicate (48 - length ?ys) Null)" "index_of K ?ys"
    using Suc by (auto split: if_splits)
  show ?case
  proof (cases "P m")
    case True
    then have l: "length ?ys < 48" using Suc.prems by simp
    have r: "replicate (48 - length ?ys) Null = Null # replicate (48 - Suc (length ?ys)) Null"
      using l by (metis Suc_diff_Suc replicate_Suc)
    have d: "(map f ?ys @ replicate (48 - length ?ys) Null)[length ?ys := f m] = map f (?ys @ [m]) @ replicate (48 - length (?ys @ [m])) Null"
      by (simp add: list_update_append r)
    have m: "m \<notin> set ?ys" by simp
    have "index_of (K[m := of_nat (length ?ys + 1)]) (?ys @ [m])"
      using index_of_snoc [OF K(2) m] Suc.prems(2) by simp
    then show ?thesis using K(1) True d by (intro exI [of _ "K[m := of_nat (length ?ys + 1)]"]) simp
  next
    case False
    then show ?thesis using K by simp
  qed
qed

definition same_prefix :: "art_hdr \<Rightarrow> art_hdr \<Rightarrow> bool" where
  "same_prefix h h' \<longleftrightarrow> partial_len h' = partial_len h \<and> length (partial h') = MAX_PREFIX_LEN \<and>
     take (unat (partial_len h)) (partial h') = take (unat (partial_len h)) (partial h)"

lemma same_prefix_refl [simp]: "same_prefix h h \<longleftrightarrow> length (partial h) = MAX_PREFIX_LEN"
  by (simp add: same_prefix_def)

lemma same_prefix_num [simp]: "same_prefix h (h'\<lparr>num_children := x\<rparr>) = same_prefix h h'" "same_prefix (h\<lparr>num_children := x\<rparr>) h' = same_prefix h h'"
  by (simp_all add: same_prefix_def)

lemma copy_header_ok:
  assumes "length (partial h) = MAX_PREFIX_LEN"
  shows "\<exists>h'. copy_header zero_hdr h = Some h' \<and> same_prefix h h' \<and> num_children h' = num_children h"
proof -
  let ?m = "min MAX_PREFIX_LEN (unat (partial_len h))"
  have "memcpy (partial zero_hdr) 0 (partial h) 0 ?m = Some (take ?m (partial h) @ drop ?m (replicate MAX_PREFIX_LEN 0))"
    using assms by (simp add: memcpy_def zero_hdr_def)
  then show ?thesis using assms by (auto simp: copy_header_def same_prefix_def min_def)
qed

fun least :: "art \<Rightarrow> nat" where
  "least (Node4 h ks cs) = 2"
| "least (Node16 h ks cs) = 4"
| "least (Node48 h ks cs) = 13"
| "least (Node256 h cs) = 38"
| "least Null = 0"
| "least (Leaf l) = 0"

section \<open>NODE256\<close>

lemma kid256: "length cs = 256 \<Longrightarrow> kid (Node256 h cs) c = (if cs ! unat c = Null then None else Some (cs ! unat c))"
  using unat_u8_less [of c] by (simp add: nth_opt_def)

lemma dom_kid256: "length cs = 256 \<Longrightarrow> card (dom (kid (Node256 h cs))) = card (live256 cs)"
proof -
  assume l: "length cs = 256"
  have "unat ` dom (kid (Node256 h cs)) = live256 cs"
  proof (intro set_eqI iffI)
    fix i assume "i \<in> live256 cs"
    then have "i < 256" "cs ! i \<noteq> Null" by (simp_all add: live256_def)
    then have "(of_nat i :: u8) \<in> dom (kid (Node256 h cs))" "i = unat (of_nat i :: u8)" using kid256 [OF l, of h "of_nat i"] by auto
    then show "i \<in> unat ` dom (kid (Node256 h cs))" by blast
  qed (auto simp: kid256 [OF l] live256_def unat_u8_less simp del: kid.simps split: if_splits)
  moreover have "inj_on unat (dom (kid (Node256 h cs)))" by (simp add: inj_on_def word_unat_eq_iff)
  ultimately show ?thesis by (metis card_image)
qed

lemma live256_set: "length cs = 256 \<Longrightarrow> x \<noteq> Null \<Longrightarrow> live256 (cs[unat (c :: u8) := x]) = insert (unat c) (live256 cs)"
  using unat_u8_less [of c] by (auto simp: live256_def nth_list_update)

lemma live256_del: "length cs = 256 \<Longrightarrow> live256 (cs[unat (c :: u8) := Null]) = live256 cs - {unat c}"
  using unat_u8_less [of c] by (auto simp: live256_def nth_list_update split: if_splits)

lemma finite_live [simp]: "finite (live256 cs)" "finite (live48 ks)"
  by (simp_all add: live256_def live48_def)

lemma live256_le: "card (live256 cs) \<le> 256"
  using card_mono [of "{..<256}" "live256 cs"] by (auto simp: live256_def)

lemma kid256_set:
  assumes "length cs = 256" "x \<noteq> Null"
  shows "kid (Node256 h' (cs[unat c := x])) = (kid (Node256 h cs))(c \<mapsto> x)"
  using assms unat_u8_less [of c] by (auto simp: fun_eq_iff kid256 nth_list_update word_unat_eq_iff simp del: kid.simps)

lemma kid256_del:
  assumes "length cs = 256"
  shows "kid (Node256 h' (cs[unat c := Null])) = (kid (Node256 h cs))(c := None)"
  using assms unat_u8_less [of c] by (auto simp: fun_eq_iff kid256 nth_list_update word_unat_eq_iff simp del: kid.simps)

lemma add256:
  assumes "node_shape (Node256 h cs)" "kid (Node256 h cs) c = None" "x \<noteq> Null"
  shows "\<exists>n'. add_child256 (Node256 h cs) c x = Some n' \<and> node_shape n' \<and> kid n' = (kid (Node256 h cs))(c \<mapsto> x) \<and> same_prefix h (hdr n') \<and> least n' = 38"
proof -
  have l: "length cs = 256" and n: "unat c \<notin> live256 cs" using assms by (simp_all add: kid256 live256_def del: kid.simps split: if_splits)
  have "card (live256 (cs[unat c := x])) = Suc (card (live256 cs))" using live256_set [OF l assms(3), of c] n by simp
  then have "node_shape (Node256 (h\<lparr>num_children := num_children h + 1\<rparr>) (cs[unat c := x]))" using assms(1) l by (simp add: algebra_simps)
  then show ?thesis using assms(1) kid256_set [OF l assms(3)] by (simp add: algebra_simps del: kid.simps)
qed

lemma remove256:
  assumes s: "node_shape (Node256 h cs)" and c: "kid (Node256 h cs) c \<noteq> None"
  shows "\<exists>n'. remove_child256 (Node256 h cs) c = Some n' \<and> node_shape n' \<and> kid n' = (kid (Node256 h cs))(c := None) \<and> same_prefix h (hdr n') \<and>
    (38 \<le> card (live256 cs) \<longrightarrow> least n' \<le> card (live256 cs) - 1)"
proof -
  let ?cs = "cs[unat c := Null]" and ?h = "h\<lparr>num_children := num_children h - 1\<rparr>"
  have l: "length cs = 256" and i: "unat c \<in> live256 cs" using s c unat_u8_less [of c] by (simp_all add: kid256 live256_def del: kid.simps split: if_splits)
  have card: "card (live256 ?cs) = card (live256 cs) - 1" using live256_del [OF l, of c] i by simp
  have pos: "0 < card (live256 cs)" using i by (metis card_gt_0_iff empty_iff finite_live(1))
  have num: "num_children ?h = of_nat (card (live256 cs) - 1)" using s pos by (simp add: of_nat_diff)
  show ?thesis
  proof (cases "num_children ?h = 37")
    case True
    have "card (live256 cs) - 1 < 256" using live256_le [of cs] pos by linarith
    then have "card (live256 cs) - 1 = unat (37 :: u8)" using num True unat_of_nat_u8 [of "card (live256 cs) - 1"] by simp
    then have "card (live256 cs) - 1 = 37" by simp
    then have len: "card (live256 ?cs) = 37" using card by simp
    let ?ys = "filter (\<lambda>i. ?cs ! i \<noteq> Null) [0..<256]"
    have sety: "set ?ys = live256 ?cs" by (auto simp: live256_def)
    have leny: "length ?ys = 37" using distinct_card [of ?ys] sety len by simp
    obtain h' where h': "copy_header zero_hdr ?h = Some h'" "same_prefix ?h h'" "num_children h' = num_children ?h"
      using copy_header_ok [of ?h] s by auto
    obtain K where K: "pack48 ?cs = (37, K, map ((!) ?cs) ?ys @ replicate (48 - 37) Null)" "index_of K ?ys"
      using index_pack_loop [of "\<lambda>i. ?cs ! i \<noteq> Null" 256 "(!) ?cs"] leny unfolding pack48_def by auto
    have ok: "indexed h' K (map ((!) ?cs) ?ys @ replicate (48 - length ?ys) Null) \<and>
      kid (Node48 h' K (map ((!) ?cs) ?ys @ replicate (48 - length ?ys) Null)) d = map_of (zip ?ys (map ((!) ?cs) ?ys)) (unat d)" for d
      by (rule index_of_indexed [OF K(2)]) (use leny h'(3) True in auto)
    have "map_of (zip ?ys (map ((!) ?cs) ?ys)) (unat d) = kid (Node256 h' ?cs) d" for d
      using l unat_u8_less [of d] by (simp add: map_of_zip_map kid256 del: kid.simps)
    then have "kid (Node48 h' K (map ((!) ?cs) ?ys @ replicate (48 - length ?ys) Null)) = (kid (Node256 h cs))(c := None)"
      using ok kid256_del [OF l, of h' c h] by (simp add: fun_eq_iff del: kid.simps)
    then show ?thesis using h' K True ok leny s by (simp add: same_prefix_def del: kid.simps) arith
  next
    case False
    then have "card (live256 cs) - 1 \<noteq> 37" using num by auto
    then have "38 \<le> card (live256 cs) \<longrightarrow> 38 \<le> card (live256 cs) - 1" by arith
    moreover have "node_shape (Node256 ?h ?cs)" using s num card l by simp
    ultimately show ?thesis using False s kid256_del [OF l, of ?h c h] by (simp del: kid.simps)
  qed
qed

section \<open>NODE48\<close>

lemma indexed_slot: "indexed h ks cs \<Longrightarrow> i \<in> live48 ks \<Longrightarrow> unat (ks ! i) - 1 < 48 \<and> cs ! (unat (ks ! i) - 1) \<noteq> Null"
  unfolding indexed_def using bij_betwE [of "\<lambda>i. unat (ks ! i) - 1"] by blast

lemma indexed_inj: "indexed h ks cs \<Longrightarrow> i \<in> live48 ks \<Longrightarrow> j \<in> live48 ks \<Longrightarrow> unat (ks ! i) - 1 = unat (ks ! j) - 1 \<Longrightarrow> i = j"
  unfolding indexed_def bij_betw_def by (elim conjE) (erule inj_onD)

lemma live48_iff: "unat (c :: u8) \<in> live48 ks \<longleftrightarrow> ks ! unat c \<noteq> 0"
  by (simp add: live48_def unat_u8_less)

lemma kid48: "indexed h ks cs \<Longrightarrow> kid (Node48 h' ks cs) c = (if unat c \<in> live48 ks then Some (cs ! (unat (ks ! unat c) - 1)) else None)"
  using indexed_slot [of h ks cs "unat c"] by (auto simp: live48_iff nth_opt_def indexed_def)

lemma dom_kid48: "indexed h ks cs \<Longrightarrow> card (dom (kid (Node48 h ks cs))) = unat (num_children h)"
proof -
  assume i: "indexed h ks cs"
  have "unat ` dom (kid (Node48 h ks cs)) = live48 ks"
  proof (intro set_eqI iffI)
    fix j assume j: "j \<in> live48 ks"
    then have e: "j = unat (of_nat j :: u8)" by (simp add: live48_def)
    then have "(of_nat j :: u8) \<in> dom (kid (Node48 h ks cs))" using kid48 [OF i, of h "of_nat j"] j by (simp add: dom_def del: kid.simps)
    then show "j \<in> unat ` dom (kid (Node48 h ks cs))" using e by blast
  qed (auto simp: kid48 [OF i] simp del: kid.simps split: if_splits)
  moreover have "inj_on unat (dom (kid (Node48 h ks cs)))" by (simp add: inj_on_def word_unat_eq_iff)
  ultimately show ?thesis using i by (metis card_image indexed_def)
qed

lemma indexed_set:
  assumes i: "indexed h ks cs" "unat c \<in> live48 ks" and x: "x \<noteq> Null"
  shows "indexed h ks (cs[unat (ks ! unat c) - 1 := x]) \<and> kid (Node48 h ks (cs[unat (ks ! unat c) - 1 := x])) = (kid (Node48 h ks cs))(c \<mapsto> x)"
proof -
  let ?s = "unat (ks ! unat c) - 1"
  have s: "?s < 48" "cs ! ?s \<noteq> Null" using indexed_slot [OF i] by simp_all
  have l: "length cs = 48" using i(1) by (simp add: indexed_def)
  have "{j. j < 48 \<and> cs[?s := x] ! j \<noteq> Null} = {j. j < 48 \<and> cs ! j \<noteq> Null}" using s l x by (auto simp: nth_list_update)
  then have 1: "indexed h ks (cs[?s := x])" using i(1) by (simp add: indexed_def)
  have "kid (Node48 h ks (cs[?s := x])) d = ((kid (Node48 h ks cs))(c \<mapsto> x)) d" for d
  proof (cases "d = c \<or> unat d \<notin> live48 ks")
    case True
    then show ?thesis using s l i unfolding kid48 [OF 1] kid48 [OF i(1)] fun_upd_apply by auto
  next
    case False
    then have "unat d \<noteq> unat c" by (simp add: word_unat_eq_iff)
    then have "unat (ks ! unat d) - 1 \<noteq> ?s" using indexed_inj [OF i(1), of "unat d" "unat c"] i(2) False by blast
    then show ?thesis using False unfolding kid48 [OF 1] kid48 [OF i(1)] fun_upd_apply by simp
  qed
  then show ?thesis using 1 by (simp add: fun_eq_iff del: kid.simps)
qed

lemma indexed_put:
  assumes i: "indexed h ks cs" and n: "num_children h < 48" and c: "unat c \<notin> live48 ks" and x: "x \<noteq> Null"
  shows "\<exists>pos. find_idx (\<lambda>y. y = Null) cs = Some pos \<and>
    indexed (h\<lparr>num_children := num_children h + 1\<rparr>) (ks[unat c := of_nat (pos + 1)]) (cs[pos := x]) \<and>
    kid (Node48 h' (ks[unat c := of_nat (pos + 1)]) (cs[pos := x])) = (kid (Node48 h ks cs))(c \<mapsto> x)"
proof -
  let ?S = "{j. j < 48 \<and> cs ! j \<noteq> Null}"
  have l: "length cs = 48" "length ks = 256" and card: "card (live48 ks) = unat (num_children h)"
    and bij: "bij_betw (\<lambda>i. unat (ks ! i) - 1) (live48 ks) ?S" using i by (simp_all add: indexed_def)
  have n48: "unat (num_children h) < 48" using n by (simp add: word_less_nat_alt)
  have "card ?S < 48" using bij_betw_same_card [OF bij] card n48 by simp
  then have "?S \<noteq> {..<48}" by (metis card_lessThan less_irrefl)
  then obtain j where "j < 48" "cs ! j = Null" by blast
  then have "find_idx (\<lambda>y. y = Null) cs \<noteq> None" using l nth_mem [of j cs] by (auto simp: find_idx_None)
  then obtain pos where pos: "find_idx (\<lambda>y. y = Null) cs = Some pos" by blast
  have p: "pos < 48" "cs ! pos = Null" using find_idx_Some [OF pos] l by simp_all
  let ?ks = "ks[unat c := of_nat (pos + 1)]" and ?cs = "cs[pos := x]"
  have u: "unat (of_nat (pos + 1) :: u8) = pos + 1" by (rule unat_of_nat_u8) (use p in simp)
  have live: "live48 ?ks = insert (unat c) (live48 ks)"
    using l of_nat_u8_nonzero [OF p(1)] unat_u8_less [of c] by (auto simp: live48_def nth_list_update)
  have S: "{j. j < 48 \<and> ?cs ! j \<noteq> Null} = insert pos ?S" using l p x by (auto simp: nth_list_update)
  have old: "?ks ! j = ks ! j" if "j \<in> live48 ks" for j using that c by (metis nth_list_update_neq)
  have "bij_betw (\<lambda>i. unat (?ks ! i) - 1) (live48 ks) ?S" using bij bij_betw_cong [of "live48 ks" "\<lambda>i. unat (?ks ! i) - 1" "\<lambda>i. unat (ks ! i) - 1"] old by simp
  moreover have fc: "unat (?ks ! unat c) - 1 = pos" using u l unat_u8_less [of c] by simp
  ultimately have "bij_betw (\<lambda>i. unat (?ks ! i) - 1) (insert (unat c) (live48 ks)) (insert pos ?S)"
    using notIn_Un_bij_betw [of "unat c" "live48 ks" "\<lambda>i. unat (?ks ! i) - 1" ?S] c p by simp
  then have 1: "indexed (h\<lparr>num_children := num_children h + 1\<rparr>) ?ks ?cs"
    using l c card n48 unfolding indexed_def live S by (simp add: unat_plus1)
  have "kid (Node48 h' ?ks ?cs) d = ((kid (Node48 h ks cs))(c \<mapsto> x)) d" for d
  proof (cases "d = c")
    case True
    then show ?thesis using fc p l unfolding kid48 [OF 1] live fun_upd_apply by simp
  next
    case False
    then have d: "unat d \<noteq> unat c" by (simp add: word_unat_eq_iff)
    show ?thesis
    proof (cases "unat d \<in> live48 ks")
      case True
      then have "unat (ks ! unat d) - 1 \<noteq> pos" using indexed_slot [OF i True] p by auto
      then show ?thesis using False d True old [OF True] unfolding kid48 [OF 1] kid48 [OF i] live fun_upd_apply by simp
    next
      case F: False
      then show ?thesis using False d unfolding kid48 [OF 1] kid48 [OF i] live fun_upd_apply by simp
    qed
  qed
  then show ?thesis using pos 1 by (intro exI [of _ pos]) (simp add: fun_eq_iff del: kid.simps)
qed

lemma indexed_del:
  assumes i: "indexed h ks cs" "unat c \<in> live48 ks"
  shows "indexed (h\<lparr>num_children := num_children h - 1\<rparr>) (ks[unat c := 0]) (cs[unat (ks ! unat c) - 1 := Null]) \<and>
    kid (Node48 h' (ks[unat c := 0]) (cs[unat (ks ! unat c) - 1 := Null])) = (kid (Node48 h ks cs))(c := None)"
proof -
  let ?S = "{j. j < 48 \<and> cs ! j \<noteq> Null}" and ?s = "unat (ks ! unat c) - 1"
  let ?ks = "ks[unat c := 0]" and ?cs = "cs[unat (ks ! unat c) - 1 := Null]"
  have l: "length cs = 48" "length ks = 256" and card: "card (live48 ks) = unat (num_children h)"
    and bij: "bij_betw (\<lambda>i. unat (ks ! i) - 1) (live48 ks) ?S" using i by (simp_all add: indexed_def)
  have s: "?s < 48" "cs ! ?s \<noteq> Null" using indexed_slot [OF i] by simp_all
  have live: "live48 ?ks = live48 ks - {unat c}" using l unat_u8_less [of c] by (auto simp: live48_def nth_list_update split: if_splits)
  have S: "{j. j < 48 \<and> ?cs ! j \<noteq> Null} = ?S - {?s}" using l s by (auto simp: nth_list_update split: if_splits)
  have "bij_betw (\<lambda>i. unat (ks ! i) - 1) (live48 ks - {unat c}) (?S - {?s})"
    using bij i(2) by (auto simp: bij_betw_def inj_on_def)
  moreover have old: "?ks ! j = ks ! j" if "j \<in> live48 ks - {unat c}" for j using that by auto
  ultimately have "bij_betw (\<lambda>i. unat (?ks ! i) - 1) (live48 ks - {unat c}) (?S - {?s})"
    using bij_betw_cong [of "live48 ks - {unat c}" "\<lambda>i. unat (?ks ! i) - 1" "\<lambda>i. unat (ks ! i) - 1"] by simp
  moreover have "0 < unat (num_children h)" using card i(2) by (metis card_gt_0_iff empty_iff finite_live(2))
  then have "unat (num_children h - 1) = unat (num_children h) - 1" by (simp add: unat_minus_one unat_gt_0)
  ultimately have 1: "indexed (h\<lparr>num_children := num_children h - 1\<rparr>) ?ks ?cs"
    using l card i(2) unfolding indexed_def live S by simp
  have "kid (Node48 h' ?ks ?cs) d = ((kid (Node48 h ks cs))(c := None)) d" for d
  proof (cases "unat d \<in> live48 ks - {unat c}")
    case True
    then have "unat (ks ! unat d) - 1 \<noteq> ?s" "d \<noteq> c" using indexed_inj [OF i(1), of "unat d" "unat c"] i(2) by auto
    then show ?thesis using True unfolding kid48 [OF 1] kid48 [OF i(1)] live fun_upd_apply by simp
  next
    case False
    then show ?thesis unfolding kid48 [OF 1] kid48 [OF i(1)] live fun_upd_apply by (auto simp: word_unat_eq_iff)
  qed
  then show ?thesis using 1 by (simp add: fun_eq_iff del: kid.simps)
qed

lemma live48_less: "j \<in> live48 ks \<Longrightarrow> j < 256"
  by (simp add: live48_def)

lemma add48:
  assumes s: "node_shape (Node48 h ks cs)" and c: "kid (Node48 h ks cs) c = None" and x: "x \<noteq> Null"
  shows "\<exists>n'. add_child48 (Node48 h ks cs) c x = Some n' \<and> node_shape n' \<and> kid n' = (kid (Node48 h ks cs))(c \<mapsto> x) \<and> same_prefix h (hdr n') \<and>
    (least n' = 13 \<or> least n' \<le> unat (num_children h))"
proof -
  have i: "indexed h ks cs" and p: "length (partial h) = MAX_PREFIX_LEN" using s by simp_all
  have nl: "unat c \<notin> live48 ks" using c unfolding kid48 [OF i] by (simp split: if_splits)
  show ?thesis
  proof (cases "num_children h < 48")
    case True
    from indexed_put [OF i True nl x, of "h\<lparr>num_children := num_children h + 1\<rparr>"] True p show ?thesis by (auto simp del: kid.simps)
  next
    case False
    define ds where "ds = map (\<lambda>i. if ks ! i \<noteq> 0 then cs ! (unat (ks ! i) - 1) else Null) [0..<256]"
    have len: "length ds = 256" by (simp add: ds_def)
    have nth: "ds ! j = (if j \<in> live48 ks then cs ! (unat (ks ! j) - 1) else Null)" if "j < 256" for j using that by (simp add: ds_def live48_def)
    obtain h' where h': "copy_header zero_hdr h = Some h'" "same_prefix h h'" "num_children h' = num_children h" using copy_header_ok [OF p] by blast
    have "ds ! j = Null \<longleftrightarrow> j \<notin> live48 ks" if "j < 256" for j using indexed_slot [OF i, of j] nth [OF that] by simp
    then have "(j < 256 \<and> ds ! j \<noteq> Null) = (j \<in> live48 ks)" for j using live48_less [of j ks] by (cases "j < 256") auto
    then have live: "live256 ds = live48 ks" unfolding live256_def by (simp only: Collect_mem_eq)
    have "kid (Node256 h' ds) d = kid (Node48 h ks cs) d" for d
      using indexed_slot [OF i, of "unat d"] unfolding kid48 [OF i] kid256 [OF len] nth [OF unat_u8_less] by simp
    then have k: "kid (Node256 h' ds) = kid (Node48 h ks cs)" by (rule ext)
    have "node_shape (Node256 h' ds)" unfolding node_shape.simps live using h' i len by (simp add: same_prefix_def indexed_def)
    from add256 [OF this _ x, of c] c k obtain n' where n': "add_child256 (Node256 h' ds) c x = Some n'" "node_shape n'"
      "kid n' = (kid (Node48 h ks cs))(c \<mapsto> x)" "same_prefix h' (hdr n')" "least n' = 38" by (auto simp del: kid.simps)
    have "same_prefix h (hdr n')" using n'(4) h'(2) by (simp add: same_prefix_def)
    moreover have "add_child48 (Node48 h ks cs) c x = Some n'"
      using False n'(1) h'(1) by (simp only: add_child48.simps Let_def if_False bind.bind_lunit ds_def)
    moreover have "least n' \<le> unat (num_children h)" using False n'(5) by (simp add: word_less_nat_alt)
    ultimately show ?thesis using n'(2,3) by blast
  qed
qed

lemma map_of_zip_unat: "map_of (zip (map unat ks) cs) (unat d) = map_of (zip ks cs) d" for d :: u8
proof (induction ks arbitrary: cs)
  case (Cons k ks)
  then show ?case by (cases cs) (auto simp: word_unat_eq_iff)
qed simp

lemma packed_hdr: "packed cap h ks cs \<Longrightarrow> num_children h' = num_children h \<Longrightarrow> packed cap h' ks cs"
  by (simp add: packed_def)

lemma packed_full: "packed cap h ks cs \<Longrightarrow> unat (num_children h) = cap \<Longrightarrow> distinct ks \<and> Null \<notin> set cs \<and> length ks = cap \<and> length cs = cap"
  by (auto simp: packed_def)

lemma packed_no_key: "packed cap h ks cs \<Longrightarrow> map_of (zip (take (unat (num_children h)) ks) (take (unat (num_children h)) cs)) c = None \<longleftrightarrow> c \<notin> set (take (unat (num_children h)) ks)"
  by (simp add: packed_def map_of_zip_is_None)

lemma packed_count: "packed cap h ks cs \<Longrightarrow> card (dom (map_of (zip (take (unat (num_children h)) ks) (take (unat (num_children h)) cs)))) = unat (num_children h)"
  by (simp add: packed_def dom_map_of_zip distinct_card)

lemma add16:
  assumes s: "node_shape (Node16 h ks cs)" and c: "kid (Node16 h ks cs) c = None" and x: "x \<noteq> Null"
  shows "\<exists>n'. add_child16 (Node16 h ks cs) c x = Some n' \<and> node_shape n' \<and> kid n' = (kid (Node16 h ks cs))(c \<mapsto> x) \<and> same_prefix h (hdr n') \<and>
    (least n' = 4 \<or> least n' \<le> unat (num_children h))"
proof -
  let ?n = "unat (num_children h)"
  have pk: "packed 16 h ks cs" and p: "length (partial h) = MAX_PREFIX_LEN" using s by simp_all
  have len: "length ks = 16" "length cs = 16" "?n \<le> 16" using pk by (simp_all add: packed_def)
  have cn: "c \<notin> set (take ?n ks)" using c packed_no_key [OF pk] by simp
  show ?thesis
  proof (cases "num_children h < 16")
    case True
    then have lt: "?n < 16" by (simp add: word_less_nat_alt)
    let ?b = "node16_bitfield (\<lambda>k. c <s k) ks (num_children h)"
    let ?idx = "if ?b \<noteq> 0 then ctz ?b else ?n"
    have f: "(if ?b \<noteq> 0 then Some (ctz ?b) else None) = find_idx (\<lambda>k. c <s k) (take ?n ks)" by (rule node16_find [OF len(1,3)])
    have idx: "?idx \<le> ?n" using find_idx_Some [of "\<lambda>k. c <s k" "take ?n ks" "ctz ?b"] f len by (auto split: if_splits)
    from packed_put [OF pk lt _ idx cn x] obtain ks1 cs1 where 1: "memcpy ks (?idx + 1) ks ?idx (?n - ?idx) = Some ks1" "memcpy cs (?idx + 1) cs ?idx (?n - ?idx) = Some cs1"
      "packed 16 (h\<lparr>num_children := num_children h + 1\<rparr>) (ks1[?idx := c]) (cs1[?idx := x])"
      "map_of (zip (take (unat (num_children h + 1)) (ks1[?idx := c])) (take (unat (num_children h + 1)) (cs1[?idx := x]))) =
        (map_of (zip (take ?n ks) (take ?n cs)))(c \<mapsto> x)" by auto
    have "add_child16 (Node16 h ks cs) c x = Some (Node16 (h\<lparr>num_children := num_children h + 1\<rparr>) (ks1[?idx := c]) (cs1[?idx := x]))"
      using True 1(1,2) by (simp only: add_child16.simps Let_def if_True bind.bind_lunit)
    then show ?thesis using 1(3,4) p by (simp add: fun_eq_iff del: add_child16.simps)
  next
    case False
    then have n: "?n = 16" using len(3) by (simp add: word_less_nat_alt)
    have full: "distinct ks" "Null \<notin> set cs" using packed_full [OF pk n] by simp_all
    obtain h' where h': "copy_header zero_hdr h = Some h'" "same_prefix h h'" "num_children h' = num_children h" using copy_header_ok [OF p] by blast
    let ?K = "fold (\<lambda>i ks'. ks'[unat (ks ! i) := of_nat (i + 1)]) [0..<?n] (replicate 256 0)"
    have K: "index_of ?K (map unat ks)" using index_loop [of ks 16] full(1) len n by simp
    have cs': "memcpy (replicate 48 Null) 0 cs 0 ?n = Some (cs @ replicate (48 - length (map unat ks)) Null)"
      using len n by (simp add: memcpy_def)
    have dk: "distinct (map unat ks)" using full(1) by (simp add: distinct_map inj_on_def word_unat_eq_iff)
    have ok: "indexed h' ?K (cs @ replicate (48 - length (map unat ks)) Null) \<and>
        kid (Node48 h' ?K (cs @ replicate (48 - length (map unat ks)) Null)) d = map_of (zip (map unat ks) cs) (unat d)" for d
      by (rule index_of_indexed [OF K dk]) (use len full h'(3) n unat_u8_less in auto)
    have "map_of (zip (map unat ks) cs) (unat d) = map_of (zip ks cs) d" for d
      by (simp add: map_of_zip_unat)
    then have k: "kid (Node48 h' ?K (cs @ replicate (48 - length (map unat ks)) Null)) = kid (Node16 h ks cs)"
      using ok len n by (simp add: fun_eq_iff del: kid.simps(3))
    have "node_shape (Node48 h' ?K (cs @ replicate (48 - length (map unat ks)) Null))" using ok h'(2) by (simp add: same_prefix_def)
    from add48 [OF this _ x, of c] c k h'(3) obtain n' where n': "add_child48 (Node48 h' ?K (cs @ replicate (48 - length (map unat ks)) Null)) c x = Some n'" "node_shape n'"
      "kid n' = (kid (Node16 h ks cs))(c \<mapsto> x)" "same_prefix h' (hdr n')" "least n' = 13 \<or> least n' \<le> ?n" by (metis (no_types, lifting))
    have "same_prefix h (hdr n')" using n'(4) h'(2) by (simp add: same_prefix_def)
    moreover have "add_child16 (Node16 h ks cs) c x = Some n'"
      using False n'(1) h'(1) cs' by (simp only: add_child16.simps Let_def if_False bind.bind_lunit)
    moreover have "least n' \<le> ?n" using n'(5) n by auto
    ultimately show ?thesis using n'(2,3) by blast
  qed
qed

lemma add4:
  assumes s: "node_shape (Node4 h ks cs)" and c: "kid (Node4 h ks cs) c = None" and x: "x \<noteq> Null"
  shows "\<exists>n'. add_child4 (Node4 h ks cs) c x = Some n' \<and> node_shape n' \<and> kid n' = (kid (Node4 h ks cs))(c \<mapsto> x) \<and> same_prefix h (hdr n') \<and>
    (least n' = 2 \<or> least n' \<le> unat (num_children h)) \<and> (num_children h < 4 \<longrightarrow> (\<exists>ks' cs'. n' = Node4 (h\<lparr>num_children := num_children h + 1\<rparr>) ks' cs'))"
proof -
  let ?n = "unat (num_children h)"
  have pk: "packed 4 h ks cs" and p: "length (partial h) = MAX_PREFIX_LEN" using s by simp_all
  have len: "length ks = 4" "length cs = 4" "?n \<le> 4" using pk by (simp_all add: packed_def)
  have cn: "c \<notin> set (take ?n ks)" using c packed_no_key [OF pk] by simp
  show ?thesis
  proof (cases "num_children h < 4")
    case True
    then have lt: "?n < 4" by (simp add: word_less_nat_alt)
    let ?idx = "case find_idx (\<lambda>k. c < k) (take ?n ks) of Some i \<Rightarrow> i | None \<Rightarrow> ?n"
    have idx: "?idx \<le> ?n" using find_idx_Some [of "\<lambda>k. c < k" "take ?n ks"] len by (auto split: option.splits)
    from packed_put [OF pk lt _ idx cn x] obtain ks1 cs1 where 1: "memcpy ks (?idx + 1) ks ?idx (?n - ?idx) = Some ks1" "memcpy cs (?idx + 1) cs ?idx (?n - ?idx) = Some cs1"
      "packed 4 (h\<lparr>num_children := num_children h + 1\<rparr>) (ks1[?idx := c]) (cs1[?idx := x])"
      "map_of (zip (take (unat (num_children h + 1)) (ks1[?idx := c])) (take (unat (num_children h + 1)) (cs1[?idx := x]))) =
        (map_of (zip (take ?n ks) (take ?n cs)))(c \<mapsto> x)" by auto
    have "add_child4 (Node4 h ks cs) c x = Some (Node4 (h\<lparr>num_children := num_children h + 1\<rparr>) (ks1[?idx := c]) (cs1[?idx := x]))"
      using True 1(1,2) by (simp only: add_child4.simps Let_def if_True bind.bind_lunit)
    then show ?thesis using 1(3,4) p by (simp add: fun_eq_iff del: add_child4.simps)
  next
    case False
    then have n: "?n = 4" using len(3) by (simp add: word_less_nat_alt)
    have full: "distinct ks" "Null \<notin> set cs" using packed_full [OF pk n] by simp_all
    obtain h' where h': "copy_header zero_hdr h = Some h'" "same_prefix h h'" "num_children h' = num_children h" using copy_header_ok [OF p] by blast
    have m: "memcpy (replicate 16 Null) 0 cs 0 ?n = Some (cs @ replicate 12 Null)" "memcpy (replicate 16 0) 0 ks 0 ?n = Some (ks @ replicate 12 0)"
      using len n by (simp_all add: memcpy_def)
    have "node_shape (Node16 h' (ks @ replicate 12 0) (cs @ replicate 12 Null))" using pk h' n len full by (simp add: same_prefix_def packed_def)
    moreover have k: "kid (Node16 h' (ks @ replicate 12 0) (cs @ replicate 12 Null)) = kid (Node4 h ks cs)" using h'(3) n len by (simp add: fun_eq_iff)
    ultimately obtain n' where n': "add_child16 (Node16 h' (ks @ replicate 12 0) (cs @ replicate 12 Null)) c x = Some n'" "node_shape n'"
      "kid n' = (kid (Node4 h ks cs))(c \<mapsto> x)" "same_prefix h' (hdr n')" "least n' = 4 \<or> least n' \<le> ?n"
      using add16 [OF _ _ x, of h' "ks @ replicate 12 0" "cs @ replicate 12 Null" c] c h'(3) by (metis (no_types, lifting))
    have "same_prefix h (hdr n')" using n'(4) h'(2) by (simp add: same_prefix_def)
    moreover have "add_child4 (Node4 h ks cs) c x = Some n'"
      using False n'(1) h'(1) m by (simp only: add_child4.simps Let_def if_False bind.bind_lunit)
    moreover have "least n' \<le> ?n" using n'(5) n by auto
    ultimately show ?thesis using n'(2,3) False by blast
  qed
qed

lemma pack16_eq:
  assumes "length (filter (\<lambda>i. ks ! i \<noteq> 0) [0..<256]) \<le> 16"
  shows "pack16 ks cs = (length (filter (\<lambda>i. ks ! i \<noteq> 0) [0..<256]),
    map of_nat (filter (\<lambda>i. ks ! i \<noteq> 0) [0..<256]) @ replicate (16 - length (filter (\<lambda>i. ks ! i \<noteq> 0) [0..<256])) 0,
    map (\<lambda>i. cs ! (unat (ks ! i) - 1)) (filter (\<lambda>i. ks ! i \<noteq> 0) [0..<256]) @ replicate (16 - length (filter (\<lambda>i. ks ! i \<noteq> 0) [0..<256])) Null)"
  unfolding pack16_def using pack_loop [of "\<lambda>i. ks ! i \<noteq> 0" 256 "replicate 16 0" "replicate 16 Null" "of_nat :: nat \<Rightarrow> u8" "\<lambda>i. cs ! (unat (ks ! i) - 1)"] assms
  by (simp only: length_replicate drop_replicate simp_thms)

lemma remove48:
  assumes s: "node_shape (Node48 h ks cs)" and c: "kid (Node48 h ks cs) c \<noteq> None" and m: "13 \<le> unat (num_children h)"
  shows "\<exists>n'. remove_child48 (Node48 h ks cs) c = Some n' \<and> node_shape n' \<and> kid n' = (kid (Node48 h ks cs))(c := None) \<and> same_prefix h (hdr n') \<and>
    least n' \<le> unat (num_children h) - 1"
proof -
  let ?ks = "ks[unat c := 0]" and ?cs = "cs[unat (ks ! unat c) - 1 := Null]" and ?h = "h\<lparr>num_children := num_children h - 1\<rparr>"
  have i: "indexed h ks cs" and p: "length (partial h) = MAX_PREFIX_LEN" using s by simp_all
  have lv: "unat c \<in> live48 ks" using c unfolding kid48 [OF i] by (simp split: if_splits)
  have 1: "indexed ?h ?ks ?cs" "kid (Node48 h' ?ks ?cs) = (kid (Node48 h ks cs))(c := None)" for h' using indexed_del [OF i lv] by simp_all
  have u: "unat (num_children h - 1) = unat (num_children h) - 1" using m by (simp add: unat_minus_one unat_gt_0 [symmetric])
  show ?thesis
  proof (cases "num_children ?h = 12")
    case True
    obtain h' where h': "copy_header zero_hdr ?h = Some h'" "same_prefix ?h h'" "num_children h' = num_children ?h" using copy_header_ok [of ?h] p by auto
    define ys where "ys = filter (\<lambda>i. ?ks ! i \<noteq> 0) [0..<256]"
    define f where "f = (\<lambda>i. ?cs ! (unat (?ks ! i) - 1))"
    have sety: "set ys = live48 ?ks" by (auto simp: ys_def live48_def)
    have dy: "distinct ys" by (simp add: ys_def)
    have leny: "length ys = 12" using distinct_card [OF dy] sety 1(1) True by (simp add: indexed_def)
    have pack: "pack16 ?ks ?cs = (12, map of_nat ys @ replicate 4 0, map f ys @ replicate 4 Null)"
      using pack16_eq [of ?ks ?cs] leny unfolding ys_def [symmetric] f_def [symmetric] by simp
    have "y < 256" if "y \<in> set ys" for y using that unfolding sety by (rule live48_less)
    then have un: "map unat (map of_nat ys :: u8 list) = ys" unfolding map_map by (intro map_idI) simp
    have "distinct (map of_nat ys :: u8 list)" using un dy by (metis distinct_map)
    moreover have "f y \<noteq> Null" if "y \<in> set ys" for y using that unfolding sety f_def by (rule conjunct2 [OF indexed_slot [OF 1(1)]])
    then have "Null \<notin> set (map f ys)" by (simp add: image_iff) metis
    ultimately have pk: "packed 16 h' (map of_nat ys @ replicate 4 0) (map f ys @ replicate 4 Null)" using leny h'(3) True by (simp add: packed_def)
    have "kid (Node16 h' (map of_nat ys @ replicate 4 0) (map f ys @ replicate 4 Null)) d = kid (Node48 ?h ?ks ?cs) d" for d
    proof -
      have "kid (Node16 h' (map of_nat ys @ replicate 4 0) (map f ys @ replicate 4 Null)) d = map_of (zip (map of_nat ys) (map f ys)) d"
        using leny h'(3) True by simp
      also have "\<dots> = map_of (zip ys (map f ys)) (unat d)" using map_of_zip_unat [of "map of_nat ys" "map f ys" d] unfolding un by simp
      also have "\<dots> = (if unat d \<in> set ys then Some (f (unat d)) else None)" by (simp only: map_of_zip_map)
      finally show ?thesis unfolding kid48 [OF 1(1)] sety f_def by simp
    qed
    then have "kid (Node16 h' (map of_nat ys @ replicate 4 0) (map f ys @ replicate 4 Null)) = (kid (Node48 h ks cs))(c := None)" using 1(2) by (simp add: fun_eq_iff)
    moreover have "remove_child48 (Node48 h ks cs) c = Some (Node16 h' (map of_nat ys @ replicate 4 0) (map f ys @ replicate 4 Null))"
      using True h'(1) pack by (simp only: remove_child48.simps Let_def if_True bind.bind_lunit prod.case simp_thms)
    moreover have "node_shape (Node16 h' (map of_nat ys @ replicate 4 0) (map f ys @ replicate 4 Null))" using pk h'(2) by (simp add: same_prefix_def)
    moreover have "same_prefix h h'" using h'(2) by simp
    moreover have "4 \<le> unat (num_children h) - 1" using m by simp
    ultimately show ?thesis by (intro exI conjI) (assumption | simp only: hdr.simps least.simps)+
  next
    case False
    then have "unat (num_children h) - 1 \<noteq> 12" using u word_unat_eq_iff [of "num_children h - 1" 12] by simp
    then have "13 \<le> unat (num_children h) - 1" using m by simp
    moreover have "remove_child48 (Node48 h ks cs) c = Some (Node48 ?h ?ks ?cs)" using False by (simp only: remove_child48.simps Let_def if_False)
    moreover have "node_shape (Node48 ?h ?ks ?cs)" "same_prefix h ?h" using 1(1) p by simp_all
    ultimately show ?thesis using 1(2) [of ?h] by (intro exI conjI) (assumption | simp only: hdr.simps least.simps)+
  qed
qed

section \<open>Small nodes\<close>

lemma remove16:
  assumes s: "node_shape (Node16 h ks cs)" and f: "pos < unat (num_children h)" "ks ! pos = c" and m: "4 \<le> unat (num_children h)"
  shows "\<exists>n'. remove_child16 (Node16 h ks cs) pos = Some n' \<and> node_shape n' \<and> kid n' = (kid (Node16 h ks cs))(c := None) \<and> same_prefix h (hdr n') \<and>
    least n' \<le> unat (num_children h) - 1"
proof -
  let ?h = "h\<lparr>num_children := num_children h - 1\<rparr>"
  have pk: "packed 16 h ks cs" and p: "length (partial h) = MAX_PREFIX_LEN" using s by simp_all
  have u: "unat (num_children h - 1) = unat (num_children h) - 1" using m by (simp add: unat_minus_one unat_gt_0 [symmetric])
  obtain ks1 cs1 where 1: "memcpy ks pos ks (pos + 1) (unat (num_children h) - 1 - pos) = Some ks1"
    "memcpy cs pos cs (pos + 1) (unat (num_children h) - 1 - pos) = Some cs1" "packed 16 ?h ks1 cs1"
    "map_of (zip (take (unat (num_children h - 1)) ks1) (take (unat (num_children h - 1)) cs1)) =
      (map_of (zip (take (unat (num_children h)) ks) (take (unat (num_children h)) cs)))(c := None)"
    using packed_cut [OF pk f(1)] f(2) by blast
  have k: "kid (Node16 ?h ks1 cs1) = (kid (Node16 h ks cs))(c := None)" using 1(4) by (simp add: fun_eq_iff)
  show ?thesis
  proof (cases "num_children ?h = 3")
    case True
    obtain h' where h': "copy_header zero_hdr ?h = Some h'" "same_prefix ?h h'" "num_children h' = num_children ?h" using copy_header_ok [of ?h] p by auto
    have l: "length ks1 = 16" "length cs1 = 16" using 1(3) by (simp_all add: packed_def)
    have mc: "memcpy (replicate 4 0) 0 ks1 0 4 = Some (take 4 ks1)" "memcpy (replicate 4 Null) 0 cs1 0 4 = Some (take 4 cs1)"
      using l by (simp_all add: memcpy_def)
    have n3: "unat (num_children h') = 3" using h'(3) True by simp
    have "packed 4 h' (take 4 ks1) (take 4 cs1)" using 1(3) n3 l h'(3) True by (simp add: packed_def min_def)
    then have "node_shape (Node4 h' (take 4 ks1) (take 4 cs1))" using h'(2) by (simp add: same_prefix_def)
    moreover have "kid (Node4 h' (take 4 ks1) (take 4 cs1)) = kid (Node16 ?h ks1 cs1)" using n3 h'(3) True by (simp add: fun_eq_iff min_def)
    moreover have "remove_child16 (Node16 h ks cs) pos = Some (Node4 h' (take 4 ks1) (take 4 cs1))"
      using True h'(1) mc 1(1,2) by (simp only: remove_child16.simps Let_def if_True bind.bind_lunit simp_thms)
    moreover have "same_prefix h h'" using h'(2) by simp
    moreover have "2 \<le> unat (num_children h) - 1" using m by simp
    ultimately show ?thesis unfolding k by (intro exI conjI) (assumption | simp only: hdr.simps least.simps)+
  next
    case False
    then have "unat (num_children h) - 1 \<noteq> 3" using u word_unat_eq_iff [of "num_children h - 1" 3] by simp
    then have "4 \<le> unat (num_children h) - 1" using m by simp
    moreover have "remove_child16 (Node16 h ks cs) pos = Some (Node16 ?h ks1 cs1)"
      using False 1(1,2) by (simp only: remove_child16.simps Let_def if_False bind.bind_lunit)
    moreover have "node_shape (Node16 ?h ks1 cs1)" "same_prefix h ?h" using 1(3) p by simp_all
    ultimately show ?thesis using k by (intro exI conjI) (assumption | simp only: hdr.simps least.simps)+
  qed
qed

lemma cut4:
  assumes s: "node_shape (Node4 h ks cs)" and f: "pos < unat (num_children h)" "ks ! pos = c"
  shows "\<exists>ks1 cs1. memcpy ks pos ks (pos + 1) (unat (num_children h) - 1 - pos) = Some ks1 \<and>
    memcpy cs pos cs (pos + 1) (unat (num_children h) - 1 - pos) = Some cs1 \<and> packed 4 (h\<lparr>num_children := num_children h - 1\<rparr>) ks1 cs1 \<and>
    kid (Node4 (h\<lparr>num_children := num_children h - 1\<rparr>) ks1 cs1) = (kid (Node4 h ks cs))(c := None)"
proof -
  have pk: "packed 4 h ks cs" using s by simp
  show ?thesis using packed_cut [OF pk f(1)] f(2) by (auto simp: fun_eq_iff)
qed

lemma remove4:
  assumes s: "node_shape (Node4 h ks cs)" and f: "pos < unat (num_children h)" "ks ! pos = c" and m: "3 \<le> unat (num_children h)"
  shows "\<exists>n'. remove_child4 (Node4 h ks cs) pos = Some n' \<and> node_shape n' \<and> kid n' = (kid (Node4 h ks cs))(c := None) \<and> same_prefix h (hdr n') \<and>
    least n' \<le> unat (num_children h) - 1"
proof -
  let ?h = "h\<lparr>num_children := num_children h - 1\<rparr>"
  obtain ks1 cs1 where 1: "memcpy ks pos ks (pos + 1) (unat (num_children h) - 1 - pos) = Some ks1"
    "memcpy cs pos cs (pos + 1) (unat (num_children h) - 1 - pos) = Some cs1" "packed 4 ?h ks1 cs1"
    "kid (Node4 ?h ks1 cs1) = (kid (Node4 h ks cs))(c := None)" using cut4 [OF s f] by blast
  have "unat (num_children h - 1) = unat (num_children h) - 1" using m by (simp add: unat_minus_one unat_gt_0 [symmetric])
  then have "num_children ?h \<noteq> 1" using m by auto
  then have "remove_child4 (Node4 h ks cs) pos = Some (Node4 ?h ks1 cs1)"
    using 1(1,2) by (simp only: remove_child4.simps Let_def if_False bind.bind_lunit)
  moreover have "node_shape (Node4 ?h ks1 cs1)" "same_prefix h ?h" using 1(3) s by simp_all
  moreover have "2 \<le> unat (num_children h) - 1" using m by simp
  ultimately show ?thesis using 1(4) by (intro exI conjI) (assumption | simp only: hdr.simps least.simps)+
qed

lemma join_prefix_num [simp]: "join_prefix (h\<lparr>num_children := x\<rparr>) = join_prefix h"
  by (simp add: join_prefix_def fun_eq_iff Let_def)

lemma remove4_last:
  assumes s: "node_shape (Node4 h ks cs)" and f: "pos < unat (num_children h)" "ks ! pos = c" and m: "num_children h = 2"
  shows "\<exists>d y. y \<noteq> Null \<and> (kid (Node4 h ks cs))(c := None) = [d \<mapsto> y] \<and>
    remove_child4 (Node4 h ks cs) pos = (case y of Null \<Rightarrow> None | Leaf l \<Rightarrow> Some (Leaf l) | child \<Rightarrow> map_option (\<lambda>hc. set_hdr hc child) (join_prefix h d (hdr child)))"
proof -
  let ?h = "h\<lparr>num_children := num_children h - 1\<rparr>"
  obtain ks1 cs1 where 1: "memcpy ks pos ks (pos + 1) (unat (num_children h) - 1 - pos) = Some ks1"
    "memcpy cs pos cs (pos + 1) (unat (num_children h) - 1 - pos) = Some cs1" "packed 4 ?h ks1 cs1"
    "kid (Node4 ?h ks1 cs1) = (kid (Node4 h ks cs))(c := None)" using cut4 [OF s f] by blast
  obtain d ks2 y cs2 where e: "ks1 = d # ks2" "cs1 = y # cs2" using 1(3) by (cases ks1; cases cs1) (auto simp: packed_def)
  have "y \<noteq> Null" using 1(3) m e by (auto simp: packed_def)
  moreover have "kid (Node4 ?h ks1 cs1) = [d \<mapsto> y]" using m e by (simp add: fun_eq_iff)
  moreover have n1: "num_children ?h = 1" using m by simp
  then have "remove_child4 (Node4 h ks cs) pos = (case y of Null \<Rightarrow> None | Leaf l \<Rightarrow> Some (Leaf l) | child \<Rightarrow> map_option (\<lambda>hc. set_hdr hc child) (join_prefix h d (hdr child)))"
    using 1(1,2) by (simp only: remove_child4.simps Let_def if_True bind.bind_lunit e nth_Cons_0 join_prefix_num simp_thms)
  ultimately show ?thesis using 1(4) by auto
qed

section \<open>The contract of a node\<close>

text \<open>
  What the tree operations rely on: a node is a finite map from key bytes to children, which
  find_child reads, a write through the found slot updates, and add_child extends.
\<close>

locale child_store =
  fixes ok :: "'n \<Rightarrow> bool" and child_map :: "'n \<Rightarrow> 'k \<Rightarrow> 'n option" and find :: "'n \<Rightarrow> 'k \<Rightarrow> nat option"
    and slots :: "'n \<Rightarrow> 'n list" and put :: "'n \<Rightarrow> nat \<Rightarrow> 'n \<Rightarrow> 'n" and add :: "'n \<Rightarrow> 'k \<Rightarrow> 'n \<Rightarrow> 'n option" and null :: 'n
  assumes find_none: "ok n \<Longrightarrow> find n c = None \<Longrightarrow> child_map n c = None"
    and find_some: "ok n \<Longrightarrow> find n c = Some i \<Longrightarrow> i < length (slots n) \<and> child_map n c = Some (slots n ! i)"
    and put_law: "ok n \<Longrightarrow> find n c = Some i \<Longrightarrow> x \<noteq> null \<Longrightarrow> ok (put n i x) \<and> child_map (put n i x) = (child_map n)(c \<mapsto> x)"
    and add_law: "ok n \<Longrightarrow> find n c = None \<Longrightarrow> x \<noteq> null \<Longrightarrow> \<exists>n'. add n c x = Some n' \<and> ok n' \<and> child_map n' = (child_map n)(c \<mapsto> x)"
begin

lemma find_iff: "ok n \<Longrightarrow> find n c = None \<longleftrightarrow> child_map n c = None"
  using find_none find_some by (cases "find n c") auto

lemma found: "ok n \<Longrightarrow> child_map n c = Some x \<Longrightarrow> \<exists>i. find n c = Some i \<and> i < length (slots n) \<and> slots n ! i = x"
  using find_none [of n c] find_some [of n c] by (cases "find n c") auto

lemma add_then_find:
  assumes "ok n" "find n c = None" "x \<noteq> null"
  shows "\<exists>n' i. add n c x = Some n' \<and> find n' c = Some i \<and> slots n' ! i = x \<and>
    (\<forall>d. d \<noteq> c \<longrightarrow> map_option ((!) (slots n')) (find n' d) = map_option ((!) (slots n)) (find n d))"
proof -
  obtain n' where n': "add n c x = Some n'" "ok n'" "child_map n' = (child_map n)(c \<mapsto> x)" using add_law [OF assms] by blast
  have same: "map_option ((!) (slots m)) (find m d) = child_map m d" if "ok m" for m d
    using find_none [OF that, of d] find_some [OF that, of d] by (cases "find m d") auto
  obtain i where "find n' c = Some i" "slots n' ! i = x" using found [OF n'(2), of c x] n'(3) by auto
  then show ?thesis using n' same [OF n'(2)] same [OF assms(1)] by (intro exI [of _ n'] exI [of _ i]) simp
qed

end

lemma find_child_none: "node_shape n \<Longrightarrow> find_child n c = None \<Longrightarrow> kid n c = None"
proof (cases n)
  case (Node16 h ks cs)
  assume "node_shape n" "find_child n c = None"
  then show ?thesis using packed_find(2) [of 16 h ks cs c] node16_find [of ks "num_children h" "\<lambda>k. k = c"] Node16
    by (auto simp: Let_def packed_def split: if_splits)
next
  case (Node48 h ks cs)
  assume "node_shape n" "find_child n c = None"
  then show ?thesis using Node48 by (simp add: Let_def split: if_splits)
next
  case (Node256 h cs)
  assume "node_shape n" "find_child n c = None"
  then show ?thesis using Node256 by (simp add: kid256 del: kid.simps split: if_splits)
qed (auto intro: packed_find(2))

lemma find_child_some:
  assumes "node_shape n" "find_child n c = Some i"
  shows "i < length (children n) \<and> kid n c = Some (children n ! i)"
proof (cases n)
  case (Node4 h ks cs)
  then show ?thesis using packed_find(1) [of 4 h ks cs c i] assms by simp
next
  case (Node16 h ks cs)
  then show ?thesis using packed_find(1) [of 16 h ks cs c i] node16_find [of ks "num_children h" "\<lambda>k. k = c"] assms
    by (auto simp: Let_def packed_def)
next
  case (Node48 h ks cs)
  then have i: "indexed h ks cs" using assms by simp
  have c: "unat c \<in> live48 ks" "i = unat (ks ! unat c) - 1" using assms(2) Node48 by (auto simp: live48_iff Let_def split: if_splits)
  have l: "length cs = 48" using i by (simp add: indexed_def)
  show ?thesis using indexed_slot [OF i c(1)] c l unfolding Node48 kid48 [OF i] by simp
next
  case (Node256 h cs)
  then show ?thesis using assms unat_u8_less [of c] by (simp add: kid256 del: kid.simps split: if_splits)
qed (use assms in auto)

lemma find_slot16:
  assumes "node_shape (Node16 h ks cs)" "find_child (Node16 h ks cs) c = Some i"
  shows "i < unat (num_children h) \<and> ks ! i = c"
  using packed_find(1) [of 16 h ks cs c i] node16_find [of ks "num_children h" "\<lambda>k. k = c"] assms by (auto simp: Let_def packed_def)

lemma find_slot4:
  assumes "node_shape (Node4 h ks cs)" "find_child (Node4 h ks cs) c = Some i"
  shows "i < unat (num_children h) \<and> ks ! i = c"
  using packed_find(1) [of 4 h ks cs c i] assms by auto

lemma hdr_set_child [simp]: "hdr (set_child n i x) = hdr n"
  by (cases n) simp_all

lemma least_set_child [simp]: "least (set_child n i x) = least n"
  by (cases n) simp_all

lemma set_child_law:
  assumes s: "node_shape n" and f: "find_child n c = Some i" and x: "x \<noteq> Null"
  shows "node_shape (set_child n i x) \<and> kid (set_child n i x) = (kid n)(c \<mapsto> x)"
proof (cases n)
  case (Node4 h ks cs)
  then show ?thesis using packed_set [of 4 h ks cs i x] find_slot4 [of h ks cs c i] s f x by (auto simp: fun_eq_iff)
next
  case (Node16 h ks cs)
  then show ?thesis using packed_set [of 16 h ks cs i x] find_slot16 [of h ks cs c i] s f x by (auto simp: fun_eq_iff simp del: find_child.simps)
next
  case (Node48 h ks cs)
  then have i: "indexed h ks cs" using s by simp
  have c: "unat c \<in> live48 ks" "i = unat (ks ! unat c) - 1" using f Node48 by (auto simp: live48_iff Let_def split: if_splits)
  show ?thesis using indexed_set [OF i c(1) x] s unfolding Node48 c(2) by (simp del: kid.simps)
next
  case (Node256 h cs)
  then have c: "i = unat c" "cs ! unat c \<noteq> Null" "length cs = 256" using s f by (auto split: if_splits)
  have "unat c \<in> live256 cs" using c unat_u8_less [of c] by (simp add: live256_def)
  then have "live256 (cs[unat c := x]) = live256 cs" using live256_set [OF c(3) x, of c] by auto
  then show ?thesis using s c kid256_set [OF c(3) x, of h c h] unfolding Node256 by (simp del: kid.simps)
qed (use s in auto)

lemma kid_count: "node_shape n \<Longrightarrow> card (dom (kid n)) = (case n of Node256 h cs \<Rightarrow> card (live256 cs) | _ \<Rightarrow> unat (num_children (hdr n)))"
proof (cases n)
  case (Node4 h ks cs)
  assume "node_shape n"
  then have "packed 4 h ks cs" using Node4 by simp
  moreover have "kid n = map_of (zip (take (unat (num_children h)) ks) (take (unat (num_children h)) cs))" using Node4 by (simp add: fun_eq_iff)
  ultimately show ?thesis using packed_count Node4 by simp
next
  case (Node16 h ks cs)
  assume "node_shape n"
  then have "packed 16 h ks cs" using Node16 by simp
  moreover have "kid n = map_of (zip (take (unat (num_children h)) ks) (take (unat (num_children h)) cs))" using Node16 by (simp add: fun_eq_iff)
  ultimately show ?thesis using packed_count Node16 by simp
next
  case (Node48 h ks cs)
  assume "node_shape n"
  then show ?thesis using dom_kid48 [of h ks cs] Node48 by (simp del: kid.simps)
next
  case (Node256 h cs)
  assume "node_shape n"
  then show ?thesis using dom_kid256 [of cs h] Node256 by (simp del: kid.simps)
qed simp_all

definition node_ok :: "art \<Rightarrow> bool" where
  "node_ok n \<longleftrightarrow> node_shape n \<and> least n \<le> card (dom (kid n))"

lemma finite_dom_u8 [simp]: "finite (dom (f :: u8 \<Rightarrow> 'a option))"
  by (rule finite_subset [OF subset_UNIV]) simp

lemma add_child_law:
  assumes s: "node_shape n" and f: "find_child n c = None" and x: "x \<noteq> Null"
  shows "\<exists>n'. add_child n c x = Some n' \<and> node_shape n' \<and> kid n' = (kid n)(c \<mapsto> x) \<and> same_prefix (hdr n) (hdr n') \<and> (least n' = least n \<or> least n' \<le> card (dom (kid n)))"
proof -
  have k: "kid n c = None" by (rule find_child_none [OF s f])
  show ?thesis
  proof (cases n)
    case (Node4 h ks cs)
    then show ?thesis using add4 [of h ks cs c x] s k x kid_count [OF s] by (auto simp del: kid.simps add_child4.simps)
  next
    case (Node16 h ks cs)
    then show ?thesis using add16 [of h ks cs c x] s k x kid_count [OF s] by (auto simp del: kid.simps add_child16.simps)
  next
    case (Node48 h ks cs)
    then show ?thesis using add48 [of h ks cs c x] s k x kid_count [OF s] by (auto simp del: kid.simps add_child48.simps)
  next
    case (Node256 h cs)
    then show ?thesis using add256 [of h cs c x] s k x by (auto simp del: kid.simps add_child256.simps)
  qed (use s in simp_all)
qed

interpretation nd: child_store node_shape kid find_child children set_child add_child Null
  by unfold_locales (auto dest: find_child_none find_child_some set_child_law add_child_law)

lemma add_kid:
  assumes n: "node_ok n" and f: "find_child n c = None" and x: "x \<noteq> Null"
  shows "\<exists>n'. add_child n c x = Some n' \<and> node_ok n' \<and> kid n' = (kid n)(c \<mapsto> x) \<and> same_prefix (hdr n) (hdr n')"
proof -
  have s: "node_shape n" "least n \<le> card (dom (kid n))" using n by (simp_all add: node_ok_def)
  obtain n' where n': "add_child n c x = Some n'" "node_shape n'" "kid n' = (kid n)(c \<mapsto> x)" "same_prefix (hdr n) (hdr n')"
    "least n' = least n \<or> least n' \<le> card (dom (kid n))" using add_child_law [OF s(1) f x] by blast
  have "card (dom (kid n)) \<le> card (dom (kid n'))" unfolding n'(3) by (rule card_mono) auto
  then have "node_ok n'" using n'(2,5) s(2) by (auto simp: node_ok_def)
  then show ?thesis using n' by blast
qed

lemma put_kid:
  assumes n: "node_ok n" and f: "find_child n c = Some i" and x: "x \<noteq> Null"
  shows "node_ok (set_child n i x) \<and> kid (set_child n i x) = (kid n)(c \<mapsto> x)"
proof -
  have s: "node_shape n" "least n \<le> card (dom (kid n))" using n by (simp_all add: node_ok_def)
  have k: "node_shape (set_child n i x)" "kid (set_child n i x) = (kid n)(c \<mapsto> x)" using set_child_law [OF s(1) f x] by simp_all
  have "card (dom (kid n)) \<le> card (dom (kid (set_child n i x)))" unfolding k(2) by (rule card_mono) auto
  then show ?thesis using k s(2) by (simp add: node_ok_def)
qed

lemma remove_kid:
  assumes n: "node_ok n" and f: "find_child n c = Some i" and m: "3 \<le> card (dom (kid n))"
  shows "\<exists>n'. remove_child n c i = Some n' \<and> node_ok n' \<and> kid n' = (kid n)(c := None) \<and> same_prefix (hdr n) (hdr n')"
proof -
  have s: "node_shape n" and l: "least n \<le> card (dom (kid n))" using n by (simp_all add: node_ok_def)
  have k: "kid n c \<noteq> None" using find_child_some [OF s f] by simp
  have "card (dom ((kid n)(c := None))) = card (dom (kid n)) - 1" using k by (simp add: domIff)
  moreover have "\<exists>n'. remove_child n c i = Some n' \<and> node_shape n' \<and> kid n' = (kid n)(c := None) \<and> same_prefix (hdr n) (hdr n') \<and> least n' \<le> card (dom (kid n)) - 1"
  proof (cases n)
    case (Node4 h ks cs)
    then show ?thesis using remove4 [of h ks cs i c] find_slot4 [of h ks cs c i] s f m kid_count [OF s] by (simp del: kid.simps remove_child4.simps find_child.simps)
  next
    case (Node16 h ks cs)
    then show ?thesis using remove16 [of h ks cs i c] find_slot16 [of h ks cs c i] s f l kid_count [OF s] by (simp del: kid.simps remove_child16.simps find_child.simps)
  next
    case (Node48 h ks cs)
    then show ?thesis using remove48 [of h ks cs c] s k l kid_count [OF s] by (simp del: kid.simps remove_child48.simps)
  next
    case (Node256 h cs)
    then show ?thesis using remove256 [of h cs c] s k l kid_count [OF s] by (simp del: kid.simps remove_child256.simps)
  qed (use s in simp_all)
  ultimately show ?thesis by (auto simp: node_ok_def)
qed

lemma remove_last:
  assumes n: "node_ok n" and f: "find_child n c = Some i" and m: "card (dom (kid n)) < 3"
  shows "\<exists>d y. y \<noteq> Null \<and> (kid n)(c := None) = [d \<mapsto> y] \<and>
    remove_child n c i = (case y of Null \<Rightarrow> None | Leaf l \<Rightarrow> Some (Leaf l) | child \<Rightarrow> map_option (\<lambda>hc. set_hdr hc child) (join_prefix (hdr n) d (hdr child)))"
proof -
  have s: "node_shape n" and l: "least n \<le> card (dom (kid n))" using n by (simp_all add: node_ok_def)
  obtain h ks cs where e: "n = Node4 h ks cs" using s l m by (cases n) auto
  have "unat (num_children h) = 2" using kid_count [OF s] l m e by simp
  then have "num_children h = 2" by (simp add: word_unat_eq_iff)
  then show ?thesis using remove4_last [of h ks cs i c] find_slot4 [of h ks cs c i] s f unfolding e remove_child.simps(1) hdr.simps(1) by blast
qed

end
