(* ===== verification/Art.thy ===== *)
theory Art
  imports Art_Kinds "HOL-Library.Sublist"
begin

text \<open>
  The operations of the adaptive radix tree (al_radix_tree.c) over the nodes of \<open>Art_Node\<close>: search,
  insertion, deletion, iteration and destruction. A key is the list of its bytes, so a read of
  \<open>key[i]\<close> with \<open>i \<ge> key_len\<close> is \<open>None\<close>. A recursive function that gets \<open>art_node**\<close> returns the new
  value of what it refers to. The callback of an iteration is a function on the caller's data.
\<close>

section \<open>Comparing keys\<close>

fun leaf_of :: "art \<Rightarrow> art_leaf option" where
  "leaf_of (Leaf l) = Some l"
| "leaf_of _ = None"

text \<open>The loop \<open>for (idx = a; idx < m; idx++) if (P idx) return idx; return idx\<close>.\<close>

definition first_from :: "nat \<Rightarrow> nat \<Rightarrow> (nat \<Rightarrow> bool) \<Rightarrow> nat" where
  "first_from a m P = (case List.find P [a..<m] of Some i \<Rightarrow> i | None \<Rightarrow> max a m)"

definition check_prefix :: "art_hdr \<Rightarrow> u8 list \<Rightarrow> nat \<Rightarrow> nat" where
  "check_prefix n key depth =
     (let max_cmp = min (min (unat (partial_len n)) MAX_PREFIX_LEN) (length key - depth)
      in first_from 0 max_cmp (\<lambda>idx. partial n ! idx \<noteq> key ! (depth + idx)))"

definition leaf_matches :: "art_leaf \<Rightarrow> u8 list \<Rightarrow> int" where
  "leaf_matches n key = (if length (l_key n) \<noteq> length key then 1 else if l_key n = key then 0 else 1)"

definition leaf_prefix_matches :: "art_leaf \<Rightarrow> u8 list \<Rightarrow> int" where
  "leaf_prefix_matches n pre = (if length (l_key n) < length pre then 1 else if take (length pre) (l_key n) = pre then 0 else 1)"

definition longest_common_prefix :: "art_leaf \<Rightarrow> art_leaf \<Rightarrow> nat \<Rightarrow> nat" where
  "longest_common_prefix l1 l2 depth =
     (let max_cmp = min (length (l_key l1)) (length (l_key l2)) - depth
      in first_from 0 max_cmp (\<lambda>idx. l_key l1 ! (depth + idx) \<noteq> l_key l2 ! (depth + idx)))"

definition make_leaf :: "u8 list \<Rightarrow> ptr \<Rightarrow> art_leaf" where
  "make_leaf key value = \<lparr>l_value = value, l_key = key\<rparr>"

section \<open>Search\<close>

definition child_at :: "art \<Rightarrow> nat \<Rightarrow> art option" where
  "child_at n i = nth_opt (children n) i"

lemma nth_size: "i < length cs \<Longrightarrow> size (cs ! i) < Suc (size_list size cs)"
  by (metis less_Suc_eq_le nth_mem size_list_estimation' le_refl)

lemma child_at_size [termination_simp]: "child_at n i = Some x \<Longrightarrow> size x < size n"
  using nth_size by (cases n) (auto simp: child_at_def nth_opt_def less_Suc_eq_le split: if_splits intro: size_list_estimation')

function search_from :: "art \<Rightarrow> u8 list \<Rightarrow> nat \<Rightarrow> ptr option" where
  "search_from n key depth =
     (if n = Null then Some None
      else case leaf_of n of
        Some l \<Rightarrow> Some (if leaf_matches l key = 0 then l_value l else None)
      | None \<Rightarrow>
          let plen = unat (partial_len (hdr n)) in
          if plen \<noteq> 0 \<and> check_prefix (hdr n) key depth \<noteq> min MAX_PREFIX_LEN plen then Some None
          else do {
            c \<leftarrow> nth_opt key (depth + plen);
            case find_child n c of
              None \<Rightarrow> Some None
            | Some i \<Rightarrow> do { x \<leftarrow> child_at n i; search_from x key (depth + plen + 1) }
          })"
  by pat_completeness auto
termination
  by (relation "measure (\<lambda>(n, key, depth). size n)") (auto dest: child_at_size)

declare search_from.simps [simp del]

section \<open>Smallest and largest leaf\<close>

fun first_slot :: "art \<Rightarrow> nat option" where
  "first_slot (Node4 h ks cs) = Some 0"
| "first_slot (Node16 h ks cs) = Some 0"
| "first_slot (Node48 h ks cs) = map_option (\<lambda>idx. unat (ks ! idx) - 1) (find_idx (\<lambda>k. k \<noteq> 0) ks)"
| "first_slot (Node256 h cs) = find_idx (\<lambda>x. x \<noteq> Null) cs"
| "first_slot Null = None"
| "first_slot (Leaf l) = None"

definition find_last :: "('a \<Rightarrow> bool) \<Rightarrow> 'a list \<Rightarrow> nat option" where
  "find_last P xs = map_option (\<lambda>i. length xs - 1 - i) (find_idx P (rev xs))"

fun last_slot :: "art \<Rightarrow> nat option" where
  "last_slot (Node4 h ks cs) = (if num_children h = 0 then None else Some (unat (num_children h) - 1))"
| "last_slot (Node16 h ks cs) = (if num_children h = 0 then None else Some (unat (num_children h) - 1))"
| "last_slot (Node48 h ks cs) = map_option (\<lambda>idx. unat (ks ! idx) - 1) (find_last (\<lambda>k. k \<noteq> 0) ks)"
| "last_slot (Node256 h cs) = find_last (\<lambda>x. x \<noteq> Null) cs"
| "last_slot Null = None"
| "last_slot (Leaf l) = None"

text \<open>The outer option is the outcome, the inner one the pointer that is returned.\<close>

function minimum :: "art \<Rightarrow> art_leaf option option" where
  "minimum n =
     (if n = Null then Some None
      else case leaf_of n of
        Some l \<Rightarrow> Some (Some l)
      | None \<Rightarrow> do { i \<leftarrow> first_slot n; x \<leftarrow> child_at n i; minimum x })"
  by pat_completeness auto
termination
  by (relation "measure size") (auto dest: child_at_size)

function maximum :: "art \<Rightarrow> art_leaf option option" where
  "maximum n =
     (if n = Null then Some None
      else case leaf_of n of
        Some l \<Rightarrow> Some (Some l)
      | None \<Rightarrow> do { i \<leftarrow> last_slot n; x \<leftarrow> child_at n i; maximum x })"
  by pat_completeness auto
termination
  by (relation "measure size") (auto dest: child_at_size)

declare minimum.simps [simp del] maximum.simps [simp del]

section \<open>Insertion\<close>

text \<open>The null pointer that minimum may return would be dereferenced: \<open>None\<close>.\<close>

definition prefix_mismatch :: "art \<Rightarrow> u8 list \<Rightarrow> nat \<Rightarrow> nat option" where
  "prefix_mismatch n key depth =
     (let plen = unat (partial_len (hdr n));
          max_cmp = min (min MAX_PREFIX_LEN plen) (length key - depth);
          idx = first_from 0 max_cmp (\<lambda>idx. partial (hdr n) ! idx \<noteq> key ! (depth + idx))
      in if idx < max_cmp then Some idx
         else if plen > MAX_PREFIX_LEN
         then do {
           p \<leftarrow> minimum n;
           l \<leftarrow> p;
           let max_cmp = min (length (l_key l)) (length key) - depth;
           Some (first_from idx max_cmp (\<lambda>idx. l_key l ! (idx + depth) \<noteq> key ! (depth + idx)))
         }
         else Some idx)"

text \<open>A leaf that does not match becomes a NODE4 with the old and the new leaf.\<close>

definition split_leaf :: "art_leaf \<Rightarrow> u8 list \<Rightarrow> ptr \<Rightarrow> nat \<Rightarrow> art option" where
  "split_leaf l key value depth =
     do {
       let l2 = make_leaf key value;
       let longest_prefix = longest_common_prefix l l2 depth;
       p \<leftarrow> memcpy (partial zero_hdr) 0 key depth (min MAX_PREFIX_LEN longest_prefix);
       let new_node = set_hdr (zero_hdr\<lparr>partial_len := of_nat longest_prefix, partial := p\<rparr>) (alloc_node NODE4);
       c1 \<leftarrow> nth_opt (l_key l) (depth + longest_prefix);
       new_node \<leftarrow> add_child4 new_node c1 (Leaf l);
       c2 \<leftarrow> nth_opt (l_key l2) (depth + longest_prefix);
       add_child4 new_node c2 (Leaf l2)
     }"

text \<open>The old node with the prefix left to it below a mismatch, and the key byte there.\<close>

definition cut_prefix :: "art \<Rightarrow> nat \<Rightarrow> nat \<Rightarrow> (u8 \<times> art) option" where
  "cut_prefix n prefix_diff depth =
     (let h = hdr n; plen' = partial_len h - of_nat (prefix_diff + 1) in
      if unat (partial_len h) \<le> MAX_PREFIX_LEN
      then do {
        c \<leftarrow> nth_opt (partial h) prefix_diff;
        p \<leftarrow> memcpy (partial h) 0 (partial h) (prefix_diff + 1) (min MAX_PREFIX_LEN (unat plen'));
        Some (c, set_hdr (h\<lparr>partial_len := plen', partial := p\<rparr>) n)
      }
      else do {
        q \<leftarrow> minimum n;
        l \<leftarrow> q;
        c \<leftarrow> nth_opt (l_key l) (depth + prefix_diff);
        p \<leftarrow> memcpy (partial h) 0 (l_key l) (depth + prefix_diff + 1) (min MAX_PREFIX_LEN (unat plen'));
        Some (c, set_hdr (h\<lparr>partial_len := plen', partial := p\<rparr>) n)
      })"

definition split_node :: "art \<Rightarrow> u8 list \<Rightarrow> ptr \<Rightarrow> nat \<Rightarrow> nat \<Rightarrow> art option" where
  "split_node n key value depth prefix_diff =
     do {
       p \<leftarrow> memcpy (partial zero_hdr) 0 (partial (hdr n)) 0 (min MAX_PREFIX_LEN prefix_diff);
       let new_node = set_hdr (zero_hdr\<lparr>partial_len := of_nat prefix_diff, partial := p\<rparr>) (alloc_node NODE4);
       (c1, n) \<leftarrow> cut_prefix n prefix_diff depth;
       new_node \<leftarrow> add_child4 new_node c1 n;
       c2 \<leftarrow> nth_opt key (depth + prefix_diff);
       add_child4 new_node c2 (Leaf (make_leaf key value))
     }"

text \<open>The result: the new subtree, the old value, and the flag \<open>old\<close>.\<close>

function recursive_insert :: "art \<Rightarrow> u8 list \<Rightarrow> ptr \<Rightarrow> nat \<Rightarrow> (art \<times> ptr \<times> bool) option" where
  "recursive_insert n key value depth =
     (if n = Null then Some (Leaf (make_leaf key value), None, False)
      else case leaf_of n of
        Some l \<Rightarrow>
          if leaf_matches l key = 0 then Some (Leaf (l\<lparr>l_value := value\<rparr>), l_value l, True)
          else map_option (\<lambda>t. (t, None, False)) (split_leaf l key value depth)
      | None \<Rightarrow> do {
          let plen = unat (partial_len (hdr n));
          prefix_diff \<leftarrow> (if plen \<noteq> 0 then prefix_mismatch n key depth else Some 0);
          if prefix_diff < plen then map_option (\<lambda>t. (t, None, False)) (split_node n key value depth prefix_diff)
          else do {
            c \<leftarrow> nth_opt key (depth + plen);
            case find_child n c of
              Some i \<Rightarrow> do {
                x \<leftarrow> child_at n i;
                (x, old_val, old) \<leftarrow> recursive_insert x key value (depth + plen + 1);
                Some (set_child n i x, old_val, old)
              }
            | None \<Rightarrow> map_option (\<lambda>t. (t, None, False)) (add_child n c (Leaf (make_leaf key value)))
          }
        })"
  by pat_completeness auto
termination
  by (relation "measure (\<lambda>(n, key, value, depth). size n)") (auto dest: child_at_size)

declare recursive_insert.simps [simp del]

section \<open>Deletion\<close>

function recursive_delete :: "art \<Rightarrow> u8 list \<Rightarrow> nat \<Rightarrow> (art \<times> art_leaf option) option" where
  "recursive_delete n key depth =
     (if n = Null then Some (n, None)
      else case leaf_of n of
        Some l \<Rightarrow> Some (if leaf_matches l key = 0 then (Null, Some l) else (n, None))
      | None \<Rightarrow>
          let plen = unat (partial_len (hdr n)) in
          if plen \<noteq> 0 \<and> check_prefix (hdr n) key depth \<noteq> min MAX_PREFIX_LEN plen then Some (n, None)
          else do {
            c \<leftarrow> nth_opt key (depth + plen);
            case find_child n c of
              None \<Rightarrow> Some (n, None)
            | Some i \<Rightarrow> do {
                x \<leftarrow> child_at n i;
                case leaf_of x of
                  Some l \<Rightarrow>
                    if leaf_matches l key = 0 then map_option (\<lambda>t. (t, Some l)) (remove_child n c i)
                    else Some (n, None)
                | None \<Rightarrow> do {
                    (x, l) \<leftarrow> recursive_delete x key (depth + plen + 1);
                    Some (set_child n i x, l)
                  }
              }
          })"
  by pat_completeness auto
termination
  by (relation "measure (\<lambda>(n, key, depth). size n)") (auto dest: child_at_size)

declare recursive_delete.simps [simp del]

section \<open>The tree\<close>

record art_tree =
  t_root :: art
  t_size :: u64

definition art_tree_init :: "art_tree \<Rightarrow> int \<times> art_tree" where
  "art_tree_init t = (0, t\<lparr>t_root := Null, t_size := 0\<rparr>)"

definition art_size :: "art_tree \<Rightarrow> u64" where
  "art_size t = t_size t"

definition art_search :: "art_tree \<Rightarrow> u8 list \<Rightarrow> ptr option" where
  "art_search t key = search_from (t_root t) key 0"

definition art_minimum :: "art_tree \<Rightarrow> art_leaf option option" where
  "art_minimum t = minimum (t_root t)"

definition art_maximum :: "art_tree \<Rightarrow> art_leaf option option" where
  "art_maximum t = maximum (t_root t)"

definition art_insert :: "art_tree \<Rightarrow> u8 list \<Rightarrow> ptr \<Rightarrow> (ptr \<times> art_tree) option" where
  "art_insert t key value =
     do {
       (root, old, old_val) \<leftarrow> recursive_insert (t_root t) key value 0;
       Some (old, t\<lparr>t_root := root, t_size := (if \<not> old_val then t_size t + 1 else t_size t)\<rparr>)
     }"

definition art_delete :: "art_tree \<Rightarrow> u8 list \<Rightarrow> (ptr \<times> art_tree) option" where
  "art_delete t key =
     do {
       (root, l) \<leftarrow> recursive_delete (t_root t) key 0;
       Some (case l of
         Some l \<Rightarrow> (l_value l, t\<lparr>t_root := root, t_size := t_size t - 1\<rparr>)
       | None \<Rightarrow> (None, t\<lparr>t_root := root\<rparr>))
     }"

section \<open>Iteration\<close>

type_synonym 'd art_callback = "'d \<Rightarrow> u8 list \<Rightarrow> ptr \<Rightarrow> int \<times> 'd"

text \<open>A loop over children that stops at the first result other than zero.\<close>

fun each :: "('a \<Rightarrow> 'd \<Rightarrow> int \<times> 'd) \<Rightarrow> 'a list \<Rightarrow> 'd \<Rightarrow> int \<times> 'd" where
  "each f [] d = (0, d)"
| "each f (x # xs) d = (let (res, d) = f x d in if res \<noteq> 0 then (res, d) else each f xs d)"

lemma each_cong [fundef_cong]: "xs = ys \<Longrightarrow> d = e \<Longrightarrow> (\<And>x d. x \<in> set ys \<Longrightarrow> f x d = g x d) \<Longrightarrow> each f xs d = each g ys e"
  by (induction xs arbitrary: ys d e) (auto split: prod.splits)

text \<open>The children in the order of the loop over a node of each type.\<close>

fun visited :: "art \<Rightarrow> art list" where
  "visited (Node4 h ks cs) = take (unat (num_children h)) cs"
| "visited (Node16 h ks cs) = take (unat (num_children h)) cs"
| "visited (Node48 h ks cs) = List.map_filter (\<lambda>idx. if idx = 0 then None else nth_opt cs (unat idx - 1)) ks"
| "visited (Node256 h cs) = filter (\<lambda>x. x \<noteq> Null) cs"
| "visited Null = []"
| "visited (Leaf l) = []"

lemma visited_children: "x \<in> set (visited n) \<Longrightarrow> x \<in> set (children n)"
  by (cases n) (auto simp: map_filter_def nth_opt_def split: if_splits dest: in_set_takeD)

lemma visited_size [termination_simp]: "x \<in> set (visited n) \<Longrightarrow> size x < size n"
  using visited_children [of x n] by (cases n) (auto simp: less_Suc_eq_le intro: size_list_estimation')

function recursive_iter :: "'d art_callback \<Rightarrow> art \<Rightarrow> 'd \<Rightarrow> int \<times> 'd" where
  "recursive_iter cb n d =
     (if n = Null then (0, d)
      else case leaf_of n of
        Some l \<Rightarrow> cb d (l_key l) (l_value l)
      | None \<Rightarrow> each (recursive_iter cb) (visited n) d)"
  by pat_completeness auto
termination
  by (relation "measure (\<lambda>(cb, n, d). size n)") (auto dest: visited_size)

declare recursive_iter.simps [simp del]

definition art_iter :: "art_tree \<Rightarrow> 'd art_callback \<Rightarrow> 'd \<Rightarrow> int \<times> 'd" where
  "art_iter t cb d = recursive_iter cb (t_root t) d"

function iter_prefix_from :: "'d art_callback \<Rightarrow> art \<Rightarrow> u8 list \<Rightarrow> nat \<Rightarrow> 'd \<Rightarrow> (int \<times> 'd) option" where
  "iter_prefix_from cb n key depth d =
     (if n = Null then Some (0, d)
      else case leaf_of n of
        Some l \<Rightarrow> Some (if leaf_prefix_matches l key = 0 then cb d (l_key l) (l_value l) else (0, d))
      | None \<Rightarrow>
          if depth = length key
          then do {
            p \<leftarrow> minimum n;
            l \<leftarrow> p;
            Some (if leaf_prefix_matches l key = 0 then recursive_iter cb n d else (0, d))
          }
          else do {
            let plen = unat (partial_len (hdr n));
            prefix_len \<leftarrow> (if plen \<noteq> 0 then map_option (\<lambda>m. min m plen) (prefix_mismatch n key depth) else Some 0);
            if plen \<noteq> 0 \<and> prefix_len = 0 then Some (0, d)
            else if plen \<noteq> 0 \<and> depth + prefix_len = length key then Some (recursive_iter cb n d)
            else do {
              c \<leftarrow> nth_opt key (depth + plen);
              case find_child n c of
                None \<Rightarrow> Some (0, d)
              | Some i \<Rightarrow> do { x \<leftarrow> child_at n i; iter_prefix_from cb x key (depth + plen + 1) d }
            }
          })"
  by pat_completeness auto
termination
  by (relation "measure (\<lambda>(cb, n, key, depth, d). size n)") (auto dest: child_at_size)

declare iter_prefix_from.simps [simp del]

definition art_iter_prefix :: "art_tree \<Rightarrow> u8 list \<Rightarrow> 'd art_callback \<Rightarrow> 'd \<Rightarrow> (int \<times> 'd) option" where
  "art_iter_prefix t key cb d = iter_prefix_from cb (t_root t) key 0 d"

section \<open>Destruction\<close>

text \<open>The children that destroy_node visits; the result of \<open>destroy_node\<close> is the blocks it frees.\<close>

fun destroyed :: "art \<Rightarrow> art list" where
  "destroyed (Node4 h ks cs) = take (unat (num_children h)) cs"
| "destroyed (Node16 h ks cs) = take (unat (num_children h)) cs"
| "destroyed (Node48 h ks cs) = take (unat (num_children h)) cs"
| "destroyed (Node256 h cs) = filter (\<lambda>x. x \<noteq> Null) cs"
| "destroyed Null = []"
| "destroyed (Leaf l) = []"

lemma destroyed_size [termination_simp]: "x \<in> set (destroyed n) \<Longrightarrow> size x < size n"
  by (cases n) (auto simp: less_Suc_eq_le intro: size_list_estimation' dest!: in_set_takeD)

function destroy_node :: "art \<Rightarrow> art list" where
  "destroy_node n =
     (if n = Null then []
      else case leaf_of n of
        Some l \<Rightarrow> [Leaf l]
      | None \<Rightarrow> concat (map destroy_node (destroyed n)) @ [n])"
  by pat_completeness auto
termination
  by (relation "measure size") (auto dest: destroyed_size)

declare destroy_node.simps [simp del]

definition art_tree_destroy :: "art_tree \<Rightarrow> int \<times> art list" where
  "art_tree_destroy t = (0, destroy_node (t_root t))"

end
