(* ===== verification/Art_Search.thy ===== *)
theory Art_Search
  imports Art
begin

text \<open>
  The adaptive radix tree seen from its leaves: which leaves lie under a node, when a subtree is
  well-formed (\<open>art_ok\<close>), and that the search finds exactly the leaf with the key, reading inside
  the key when it is in the tree or no shorter than the keys of the tree.
\<close>

section \<open>The leaves under a node\<close>

function leaves :: "art \<Rightarrow> art_leaf list" where
  "leaves n = (if n = Null then [] else case leaf_of n of Some l \<Rightarrow> [l] | None \<Rightarrow> concat (map leaves (visited n)))"
  by pat_completeness auto
termination
  by (relation "measure size") (auto dest: visited_size)

declare leaves.simps [simp del]

lemma leaf_of_Some: "leaf_of n = Some l \<longleftrightarrow> n = Leaf l"
  by (cases n) auto

lemma leaf_of_shape: "node_shape n \<Longrightarrow> leaf_of n = None \<and> n \<noteq> Null"
  by (cases n) auto

lemma leaves_Leaf [simp]: "leaves (Leaf l) = [l]"
  by (simp add: leaves.simps)

lemma leaves_Null [simp]: "leaves Null = []"
  by (simp add: leaves.simps)

lemma visited_packed:
  assumes "packed cap h ks cs"
  shows "let k = map_of (zip (take (unat (num_children h)) ks) (take (unat (num_children h)) cs)) in
    distinct (take (unat (num_children h)) ks) \<and> set (take (unat (num_children h)) ks) = dom k \<and>
    take (unat (num_children h)) cs = map (\<lambda>c. the (k c)) (take (unat (num_children h)) ks)"
proof -
  let ?n = "unat (num_children h)"
  let ?k = "map_of (zip (take ?n ks) (take ?n cs))"
  have l: "length (take ?n ks) = length (take ?n cs)" "distinct (take ?n ks)" "length ks = length cs" using assms by (simp_all add: packed_def)
  have "take ?n cs ! i = the (?k (take ?n ks ! i))" if "i < length (take ?n ks)" for i
    using map_of_zip_nth [of "take ?n ks" "take ?n cs" i] l that by simp
  then have "take ?n cs = map (\<lambda>c. the (?k c)) (take ?n ks)" using l(1,3) by (intro nth_equalityI) simp_all
  then show ?thesis using l by (simp add: Let_def dom_map_of_zip)
qed

lemma map_filter_nth: "List.map_filter f ks = map (\<lambda>i. the (f (ks ! i))) (filter (\<lambda>i. f (ks ! i) \<noteq> None) [0..<length ks])"
proof (induction ks rule: rev_induct)
  case (snoc k ks)
  have "List.map_filter f (ks @ [k]) = List.map_filter f ks @ List.map_filter f [k]" by (simp add: map_filter_def)
  moreover have "filter (\<lambda>i. f ((ks @ [k]) ! i) \<noteq> None) [0..<length ks] = filter (\<lambda>i. f (ks ! i) \<noteq> None) [0..<length ks]"
    by (rule filter_cong) (auto simp: nth_append)
  moreover have "map (\<lambda>i. the (f ((ks @ [k]) ! i))) (filter (\<lambda>i. f (ks ! i) \<noteq> None) [0..<length ks]) =
      map (\<lambda>i. the (f (ks ! i))) (filter (\<lambda>i. f (ks ! i) \<noteq> None) [0..<length ks])"
    by (rule map_cong) (auto simp: nth_append)
  ultimately show ?case using snoc by (simp add: map_filter_def)
qed (simp add: map_filter_def)

lemma visited_bytes:
  assumes "visited n = map (\<lambda>i. the (kid n (of_nat i))) (filter (\<lambda>i. kid n (of_nat i) \<noteq> None) [0..<256])"
  shows "\<exists>cs. distinct cs \<and> set cs = dom (kid n) \<and> visited n = map (\<lambda>c. the (kid n c)) cs"
proof -
  let ?is = "filter (\<lambda>i. kid n (of_nat i) \<noteq> None) [0..<256]"
  have un: "map unat (map of_nat ?is :: u8 list) = ?is" unfolding map_map by (rule map_idI) simp
  have "distinct (map of_nat ?is :: u8 list)" using un by (metis distinct_filter distinct_map distinct_upt)
  moreover have "set (map of_nat ?is) = dom (kid n)"
  proof (intro set_eqI iffI)
    fix c assume "c \<in> dom (kid n)"
    then have "unat c \<in> set ?is" using unat_u8_less [of c] by auto
    then have "of_nat (unat c) \<in> set (map of_nat ?is :: u8 list)" unfolding set_map by (rule imageI)
    then show "c \<in> set (map of_nat ?is)" by simp
  qed auto
  ultimately show ?thesis using assms by (intro exI [of _ "map of_nat ?is"]) simp
qed

lemma visited_kids:
  assumes "node_shape n"
  shows "\<exists>cs. distinct cs \<and> set cs = dom (kid n) \<and> visited n = map (\<lambda>c. the (kid n c)) cs"
proof (cases n)
  case (Node4 h ks cs)
  have k: "kid n = map_of (zip (take (unat (num_children h)) ks) (take (unat (num_children h)) cs))" using Node4 by (simp add: fun_eq_iff)
  have "packed 4 h ks cs" using Node4 assms by simp
  from visited_packed [OF this] show ?thesis using Node4 unfolding k Let_def by (intro exI [of _ "take (unat (num_children h)) ks"]) simp
next
  case (Node16 h ks cs)
  have k: "kid n = map_of (zip (take (unat (num_children h)) ks) (take (unat (num_children h)) cs))" using Node16 by (simp add: fun_eq_iff)
  have "packed 16 h ks cs" using Node16 assms by simp
  from visited_packed [OF this] show ?thesis using Node16 unfolding k Let_def by (intro exI [of _ "take (unat (num_children h)) ks"]) simp
next
  case (Node48 h ks cs)
  have l: "length ks = 256" using assms Node48 by (simp add: indexed_def)
  have k: "(if ks ! i = 0 then None else nth_opt cs (unat (ks ! i) - 1)) = kid n (of_nat i)" if "i < 256" for i using that Node48 by simp
  have "visited n = map (\<lambda>i. the (if ks ! i = 0 then None else nth_opt cs (unat (ks ! i) - 1))) (filter (\<lambda>i. (if ks ! i = 0 then None else nth_opt cs (unat (ks ! i) - 1)) \<noteq> None) [0..<256])"
    unfolding Node48 visited.simps map_filter_nth l ..
  also have "\<dots> = map (\<lambda>i. the (kid n (of_nat i))) (filter (\<lambda>i. kid n (of_nat i) \<noteq> None) [0..<256])"
    by (intro map_cong filter_cong refl) (simp_all only: k set_filter mem_Collect_eq set_upt atLeastLessThan_iff)
  finally show ?thesis by (rule visited_bytes)
next
  case (Node256 h cs)
  have l: "length cs = 256" using assms Node256 by simp
  have k: "kid n (of_nat i) = (if cs ! i = Null then None else Some (cs ! i))" if "i < 256" for i using that kid256 [OF l, of h "of_nat i"] Node256 by simp
  have "visited n = map ((!) cs) (filter (\<lambda>i. cs ! i \<noteq> Null) [0..<256])"
    unfolding Node256 visited.simps using filter_map [of "\<lambda>x. x \<noteq> Null" "(!) cs" "[0..<256]"] map_nth [of cs] l by (simp add: comp_def)
  also have "\<dots> = map (\<lambda>i. the (kid n (of_nat i))) (filter (\<lambda>i. kid n (of_nat i) \<noteq> None) [0..<256])"
    by (intro map_cong filter_cong refl) (auto simp: k)
  finally show ?thesis by (rule visited_bytes)
qed (use assms in simp_all)

lemma leaves_node:
  assumes "node_shape n"
  shows "set (leaves n) = (\<Union>x \<in> ran (kid n). set (leaves x))"
proof -
  obtain cs where cs: "set cs = dom (kid n)" "visited n = map (\<lambda>c. the (kid n c)) cs" using visited_kids [OF assms] by blast
  have "set (visited n) = ran (kid n)" unfolding cs(2) using cs(1) by (force simp: ran_def dom_def image_iff)
  then show ?thesis using leaf_of_shape [OF assms] by (subst leaves.simps) simp
qed

lemma kid_not_null: "node_shape n \<Longrightarrow> kid n c = Some x \<Longrightarrow> x \<noteq> Null"
proof (cases n)
  case (Node4 h ks cs)
  assume "node_shape n" "kid n c = Some x"
  then show ?thesis using Node4 by (auto simp: packed_def dest!: map_of_SomeD set_zip_rightD)
next
  case (Node16 h ks cs)
  assume "node_shape n" "kid n c = Some x"
  then show ?thesis using Node16 by (auto simp: packed_def dest!: map_of_SomeD set_zip_rightD)
next
  case (Node48 h ks cs)
  assume a: "node_shape n" "kid n c = Some x"
  then have i: "indexed h ks cs" using Node48 by simp
  show ?thesis using a(2) indexed_slot [OF i, of "unat c"] unfolding Node48 kid48 [OF i] by (auto split: if_splits)
next
  case (Node256 h cs)
  assume "node_shape n" "kid n c = Some x"
  then show ?thesis using Node256 by (simp add: kid256 del: kid.simps split: if_splits)
qed simp_all

section \<open>Well-formed subtrees\<close>

text \<open>
  \<open>art_ok p n\<close>: the subtree \<open>n\<close> below the bytes \<open>p\<close>. An inner node skips the bytes \<open>q\<close>, of which it
  stores the first ten, and its children are below \<open>p\<close>, \<open>q\<close> and their key byte. Keys are shorter
  than 2^31, as their length is an int.
\<close>

definition key_ok :: "u8 list \<Rightarrow> bool" where
  "key_ok k \<longleftrightarrow> length k < 2 ^ 31"

definition skips :: "art \<Rightarrow> u8 list \<Rightarrow> bool" where
  "skips n q \<longleftrightarrow> unat (partial_len (hdr n)) = length q \<and> take (length q) (partial (hdr n)) = take MAX_PREFIX_LEN q"

inductive art_ok :: "u8 list \<Rightarrow> art \<Rightarrow> bool" where
  ok_leaf: "key_ok (l_key l) \<Longrightarrow> prefix p (l_key l) \<Longrightarrow> art_ok p (Leaf l)"
| ok_node: "node_ok n \<Longrightarrow> skips n q \<Longrightarrow> (\<And>c x. kid n c = Some x \<Longrightarrow> art_ok (p @ q @ [c]) x) \<Longrightarrow> art_ok p n"

inductive_cases ok_leafE: "art_ok p (Leaf l)"

lemma node_okD: "node_ok n \<Longrightarrow> node_shape n \<and> leaf_of n = None \<and> n \<noteq> Null \<and> length (partial (hdr n)) = MAX_PREFIX_LEN"
  using leaf_of_shape [of n] by (cases n) (auto simp: node_ok_def)

lemma art_ok_not_null [simp]: "\<not> art_ok p Null"
  by (auto elim: art_ok.cases dest: node_okD)

lemma ok_nodeE:
  assumes "art_ok p n" "leaf_of n = None"
  obtains q where "node_ok n" "skips n q" "\<And>c x. kid n c = Some x \<Longrightarrow> art_ok (p @ q @ [c]) x"
  using assms(1) by (cases rule: art_ok.cases) (use assms(2) in auto)

lemma node_kids:
  assumes "node_ok n"
  shows "\<exists>c x. kid n c = Some x"
proof -
  have "node_shape n" "2 \<le> card (dom (kid n))" using assms by (cases n; simp add: node_ok_def)+
  then have "dom (kid n) \<noteq> {}" by (metis card.empty not_numeral_le_zero)
  then show ?thesis by blast
qed

lemma leaf_below: "art_ok p n \<Longrightarrow> l \<in> set (leaves n) \<Longrightarrow> prefix p (l_key l) \<and> key_ok (l_key l)"
proof (induction rule: art_ok.induct)
  case (ok_node n q p)
  have s: "node_shape n" using node_okD [OF ok_node.hyps(1)] by simp
  obtain c x where "kid n c = Some x" "l \<in> set (leaves x)" using ok_node.prems leaves_node [OF s] by (auto simp: ran_def)
  then show ?case using ok_node.IH by (meson append_prefixD)
qed simp

lemma leaf_in_kid:
  assumes "node_ok n" "l \<in> set (leaves n)" "\<And>c x. kid n c = Some x \<Longrightarrow> art_ok (p @ q @ [c]) x"
  shows "\<exists>c x. kid n c = Some x \<and> l \<in> set (leaves x) \<and> prefix (p @ q @ [c]) (l_key l)"
proof -
  have s: "node_shape n" using node_okD [OF assms(1)] by simp
  obtain c x where x: "kid n c = Some x" "l \<in> set (leaves x)" using assms(2) leaves_node [OF s] by (auto simp: ran_def)
  then show ?thesis using leaf_below [OF assms(3) [OF x(1)] x(2)] by blast
qed

lemma kid_leaves: "node_ok n \<Longrightarrow> kid n c = Some x \<Longrightarrow> set (leaves x) \<subseteq> set (leaves n)"
  using leaves_node [of n] node_okD [of n] by (auto simp: ran_def)

lemma leaves_nonempty: "art_ok p n \<Longrightarrow> set (leaves n) \<noteq> {}"
proof (induction rule: art_ok.induct)
  case (ok_node n q p)
  obtain c x where x: "kid n c = Some x" using node_kids [OF ok_node.hyps(1)] by blast
  then show ?case using ok_node.IH [OF x] kid_leaves [OF ok_node.hyps(1) x] by auto
qed simp

lemma first_slot_kid:
  assumes "node_ok n"
  shows "\<exists>i x c. first_slot n = Some i \<and> child_at n i = Some x \<and> kid n c = Some x"
proof -
  have s: "node_shape n" using node_okD [OF assms] by simp
  obtain c x where k: "kid n c = Some x" using node_kids [OF assms] by blast
  have pk: "\<exists>x c. nth_opt cs 0 = Some x \<and> map_of (zip (take (unat (num_children h)) ks) (take (unat (num_children h)) cs)) c = Some x"
    if "packed cap h ks cs" "map_of (zip (take (unat (num_children h)) ks) (take (unat (num_children h)) cs)) c = Some y" for cap h ks cs y
  proof -
    have n: "0 < unat (num_children h)" using that(2) by (cases "num_children h = 0") (auto simp: unat_gt_0)
    have l: "0 < length (take (unat (num_children h)) cs)" "length (take (unat (num_children h)) ks) = length (take (unat (num_children h)) cs)" "distinct (take (unat (num_children h)) ks)"
      using that set_zip_rightD [OF map_of_SomeD [OF that(2)]] n by (auto simp: packed_def)
    from map_of_zip_nth [OF l(2,3) l(1)] show ?thesis using l n by (auto simp: nth_opt_def)
  qed
  show ?thesis
  proof (cases n)
    case (Node4 h ks cs)
    then show ?thesis using pk [of 4 h ks cs] s k by (simp add: child_at_def)
  next
    case (Node16 h ks cs)
    then show ?thesis using pk [of 16 h ks cs] s k by (simp add: child_at_def)
  next
    case (Node48 h ks cs)
    then have i: "indexed h ks cs" using s by simp
    have l: "length ks = 256" "length cs = 48" using i by (simp_all add: indexed_def)
    have "unat c \<in> live48 ks" using k unfolding Node48 kid48 [OF i] by (simp split: if_splits)
    then have "find_idx (\<lambda>k. k \<noteq> 0) ks \<noteq> None" using l nth_mem [of "unat c" ks] by (auto simp: find_idx_None live48_def)
    then obtain j where j: "find_idx (\<lambda>k. k \<noteq> 0) ks = Some j" by blast
    have lj: "j \<in> live48 ks" using find_idx_Some [OF j] l by (simp add: live48_def)
    then have e: "unat (of_nat j :: u8) = j" by (simp add: live48_def)
    have "kid n (of_nat j) = Some (cs ! (unat (ks ! j) - 1))" using lj unfolding Node48 kid48 [OF i] e by simp
    then show ?thesis using j indexed_slot [OF i lj] l unfolding Node48 by (auto simp: child_at_def nth_opt_def simp del: kid.simps)
  next
    case (Node256 h cs)
    have l: "length cs = 256" using s Node256 by simp
    have "cs ! unat c \<noteq> Null" using k Node256 kid256 [OF l, of h c] by (auto simp del: kid.simps split: if_splits)
    then have "find_idx (\<lambda>x. x \<noteq> Null) cs \<noteq> None" using l unat_u8_less [of c] nth_mem [of "unat c" cs] by (auto simp: find_idx_None)
    then obtain j where j: "find_idx (\<lambda>x. x \<noteq> Null) cs = Some j" by blast
    then have "kid n (of_nat j) = Some (cs ! j)" using find_idx_Some [OF j] l Node256 kid256 [OF l, of h "of_nat j"] by simp
    then show ?thesis using j find_idx_Some [OF j] unfolding Node256 by (auto simp: child_at_def nth_opt_def simp del: kid.simps)
  qed (use s in simp_all)
qed

lemma minimum_leaf: "art_ok p n \<Longrightarrow> \<exists>l \<in> set (leaves n). minimum n = Some (Some l)"
proof (induction rule: art_ok.induct)
  case (ok_leaf l p)
  then show ?case by (simp add: minimum.simps)
next
  case (ok_node n q p)
  obtain i x c where x: "first_slot n = Some i" "child_at n i = Some x" "kid n c = Some x" using first_slot_kid [OF ok_node.hyps(1)] by blast
  obtain l where l: "l \<in> set (leaves x)" "minimum x = Some (Some l)" using ok_node.IH [OF x(3)] by blast
  have "minimum n = Some (Some l)" using x l node_okD [OF ok_node.hyps(1)] by (subst minimum.simps) simp
  then show ?case using l kid_leaves [OF ok_node.hyps(1) x(3)] by auto
qed

section \<open>Search\<close>

lemma first_from_le: "first_from 0 m P \<le> m"
  by (auto simp: first_from_def find_Some_iff split: option.splits)

lemma first_from_hit:
  assumes "a \<le> i" "i < m" "P i" "\<And>j. a \<le> j \<Longrightarrow> j < i \<Longrightarrow> \<not> P j"
  shows "first_from a m P = i"
proof -
  have "List.find P [a..<m] = Some i"
    unfolding find_Some_iff using assms by (intro exI [of _ "i - a"]) simp
  then show ?thesis by (simp add: first_from_def)
qed

lemma first_from_all: "(\<And>j. a \<le> j \<Longrightarrow> j < m \<Longrightarrow> \<not> P j) \<Longrightarrow> first_from a m P = max a m"
  by (auto simp: first_from_def find_None_iff split: option.splits dest: find_Some_in_set)

lemma first_from_ge: "k \<le> max a m \<Longrightarrow> (\<And>j. a \<le> j \<Longrightarrow> j < k \<Longrightarrow> \<not> P j) \<Longrightarrow> k \<le> first_from a m P"
  by (auto simp: first_from_def split: option.splits dest!: find_Some_in_set) (meson not_le)

lemma skips_nth: "skips n q \<Longrightarrow> i < length q \<Longrightarrow> i < MAX_PREFIX_LEN \<Longrightarrow> partial (hdr n) ! i = q ! i"
  unfolding skips_def by (metis nth_take)

lemma check_prefix_hit:
  assumes "skips n q" "prefix (p @ q) key"
  shows "check_prefix (hdr n) key (length p) = min MAX_PREFIX_LEN (length q)"
proof -
  obtain r where r: "key = p @ q @ r" using assms(2) by (auto simp: prefix_def)
  have m: "min (min (unat (partial_len (hdr n))) MAX_PREFIX_LEN) (length key - length p) = min MAX_PREFIX_LEN (length q)"
    using assms(1) r by (simp add: skips_def)
  have "first_from 0 (min MAX_PREFIX_LEN (length q)) (\<lambda>idx. partial (hdr n) ! idx \<noteq> key ! (length p + idx)) = max 0 (min MAX_PREFIX_LEN (length q))"
    by (rule first_from_all) (use skips_nth [OF assms(1)] r in \<open>simp add: nth_append\<close>)
  then show ?thesis by (simp add: check_prefix_def Let_def m)
qed

lemma leaf_matches_iff: "leaf_matches l key = 0 \<longleftrightarrow> l_key l = key"
  by (auto simp: leaf_matches_def)

lemma nth_opt_prefix: "prefix (xs @ [c]) key \<Longrightarrow> nth_opt key (length xs) = Some c"
  by (auto simp: prefix_def nth_opt_def)

lemma find_child_kid:
  assumes "node_ok n"
  shows "(find_child n c = None \<longleftrightarrow> kid n c = None) \<and> (\<forall>i. find_child n c = Some i \<longrightarrow> child_at n i = kid n c \<and> kid n c \<noteq> None)"
  using nd.find_iff [of n c] nd.find_some [of n c] node_okD [OF assms] by (auto simp: child_at_def nth_opt_def)

text \<open>One step of the search at an inner node.\<close>

lemma search_node:
  assumes "node_ok n" "skips n q"
  shows "search_from n key (length p) =
    (if length q \<noteq> 0 \<and> check_prefix (hdr n) key (length p) \<noteq> min MAX_PREFIX_LEN (length q) then Some None
     else do { c \<leftarrow> nth_opt key (length (p @ q)); case kid n c of None \<Rightarrow> Some None | Some x \<Rightarrow> search_from x key (length (p @ q @ [c])) })"
proof -
  have "(case find_child n c of None \<Rightarrow> Some None | Some i \<Rightarrow> do { x \<leftarrow> child_at n i; search_from x key (length p + length q + 1) }) =
      (case kid n c of None \<Rightarrow> Some None | Some x \<Rightarrow> search_from x key (length (p @ q @ [c])))" for c
    using find_child_kid [OF assms(1), of c] by (cases "find_child n c") auto
  then show ?thesis using node_okD [OF assms(1)] assms(2) by (subst search_from.simps) (simp add: Let_def skips_def cong: if_cong)
qed

lemma search_from_sound:
  "art_ok p n \<Longrightarrow> search_from n key (length p) = Some r \<Longrightarrow>
    (\<forall>l \<in> set (leaves n). l_key l = key \<longrightarrow> r = l_value l) \<and> (key \<notin> l_key ` set (leaves n) \<longrightarrow> r = None)"
proof (induction arbitrary: r rule: art_ok.induct)
  case (ok_leaf l p)
  then show ?case by (auto simp: search_from.simps leaf_matches_iff split: if_splits)
next
  case (ok_node n q p)
  have below: "\<exists>c x. kid n c = Some x \<and> l \<in> set (leaves x) \<and> prefix (p @ q @ [c]) key" if "l \<in> set (leaves n)" "l_key l = key" for l
    using leaf_in_kid [OF ok_node.hyps(1) that(1) ok_node.hyps(3)] that(2) by blast
  show ?case
  proof (cases "length q \<noteq> 0 \<and> check_prefix (hdr n) key (length p) \<noteq> min MAX_PREFIX_LEN (length q)")
    case True
    have "l_key l \<noteq> key" if l: "l \<in> set (leaves n)" for l
    proof
      assume "l_key l = key"
      from below [OF l this] obtain c where "prefix (p @ q @ [c]) key" by blast
      then have "prefix (p @ q) key" by (metis append.assoc append_prefixD)
      then show False using check_prefix_hit [OF ok_node.hyps(2)] True by blast
    qed
    then show ?thesis using ok_node.prems True search_node [OF ok_node.hyps(1,2)] by auto
  next
    case False
    then obtain c where c: "nth_opt key (length (p @ q)) = Some c"
      and s: "(case kid n c of None \<Rightarrow> Some None | Some x \<Rightarrow> search_from x key (length (p @ q @ [c]))) = Some r"
      using ok_node.prems unfolding search_node [OF ok_node.hyps(1,2)] by (cases "nth_opt key (length (p @ q))") auto
    have at_c: "\<exists>x. kid n c = Some x \<and> l \<in> set (leaves x)" if l: "l \<in> set (leaves n)" "l_key l = key" for l
    proof -
      obtain c' x where x: "kid n c' = Some x" "l \<in> set (leaves x)" "prefix ((p @ q) @ [c']) key" using below [OF l] by auto
      then show ?thesis using nth_opt_prefix [OF x(3)] c by auto
    qed
    show ?thesis
    proof (cases "kid n c")
      case None
      then show ?thesis using s at_c by force
    next
      case (Some x)
      have "(\<forall>l \<in> set (leaves x). l_key l = key \<longrightarrow> r = l_value l) \<and> (key \<notin> l_key ` set (leaves x) \<longrightarrow> r = None)"
        using ok_node.IH [OF Some] s Some by simp
      then show ?thesis using at_c kid_leaves [OF ok_node.hyps(1) Some] Some by auto
    qed
  qed
qed

lemma search_from_total:
  "art_ok p n \<Longrightarrow> (\<forall>l \<in> set (leaves n). length (l_key l) \<le> length key) \<or> key \<in> l_key ` set (leaves n) \<Longrightarrow>
    \<exists>r. search_from n key (length p) = Some r"
proof (induction rule: art_ok.induct)
  case (ok_leaf l p)
  then show ?case by (simp add: search_from.simps)
next
  case (ok_node n q p)
  obtain l where l: "l \<in> set (leaves n)" "length (l_key l) \<le> length key"
    using ok_node.prems leaves_nonempty [OF art_ok.ok_node [OF ok_node.hyps]] by (metis (no_types, lifting) all_not_in_conv imageE le_refl)
  obtain d where d: "prefix (p @ q @ [d]) (l_key l)" using leaf_in_kid [OF ok_node.hyps(1) l(1) ok_node.hyps(3)] by blast
  have len: "length (p @ q) < length key" using prefix_length_le [OF d] l(2) by simp
  have "\<exists>r. search_from x key (length (p @ q @ [c])) = Some r" if c: "c = key ! length (p @ q)" and x: "kid n c = Some x" for c x
  proof (rule ok_node.IH [OF x])
    show "(\<forall>l \<in> set (leaves x). length (l_key l) \<le> length key) \<or> key \<in> l_key ` set (leaves x)"
    proof (cases "key \<in> l_key ` set (leaves n)")
      case True
      then obtain l' where l': "l' \<in> set (leaves n)" "l_key l' = key" by blast
      obtain c' x' where x': "kid n c' = Some x'" "l' \<in> set (leaves x')" "prefix ((p @ q) @ [c']) key"
        using leaf_in_kid [OF ok_node.hyps(1) l'(1) ok_node.hyps(3)] l'(2) by auto
      then have "c' = c" using nth_opt_prefix [OF x'(3)] c len by (simp add: nth_opt_def)
      then show ?thesis using x x' l' by auto
    next
      case False
      then show ?thesis using ok_node.prems kid_leaves [OF ok_node.hyps(1) x] by auto
    qed
  qed
  then show ?case unfolding search_node [OF ok_node.hyps(1,2)] using len by (auto simp: nth_opt_def split: option.splits)
qed

end
