(* ===== verification/Art_Update.thy ===== *)
theory Art_Update
  imports Art_Search
begin

text \<open>
  Insertion and deletion in the adaptive radix tree: a well-formed subtree stays well-formed and
  its set of leaves changes at exactly the given key; and iteration goes over the leaves.
\<close>

section \<open>Changing one child\<close>

definition rest :: "art \<Rightarrow> u8 \<Rightarrow> art_leaf set" where
  "rest n c = {l. \<exists>d x. d \<noteq> c \<and> kid n d = Some x \<and> l \<in> set (leaves x)}"

lemma leaves_rest: "node_ok n \<Longrightarrow> set (leaves n) = rest n c \<union> (case kid n c of Some x \<Rightarrow> set (leaves x) | None \<Rightarrow> {})"
proof -
  assume n: "node_ok n"
  have m: "l \<in> set (leaves n) \<longleftrightarrow> (\<exists>d x. kid n d = Some x \<and> l \<in> set (leaves x))" for l
    using leaves_node [of n] node_okD [OF n] by (auto simp: ran_def)
  show ?thesis unfolding set_eq_iff Un_iff m rest_def mem_Collect_eq
    by (cases "kid n c"; simp; metis option.inject option.distinct(1))
qed

lemma rest_upd: "kid n' = (kid n)(c := y) \<Longrightarrow> rest n' c = rest n c"
  by (auto simp: rest_def)

lemma rest_other_key:
  assumes "\<And>d x. kid n d = Some x \<Longrightarrow> art_ok (p @ q @ [d]) x" "prefix (p @ q @ [c]) key"
  shows "key \<notin> l_key ` rest n c"
proof
  assume "key \<in> l_key ` rest n c"
  then obtain l d x where l: "d \<noteq> c" "kid n d = Some x" "l \<in> set (leaves x)" "l_key l = key" by (auto simp: rest_def)
  have "prefix ((p @ q) @ [d]) key" using leaf_below [OF assms(1) [OF l(2)] l(3)] l(4) by simp
  moreover have "prefix ((p @ q) @ [c]) key" using assms(2) by simp
  ultimately show False using nth_opt_prefix [of "p @ q" d key] nth_opt_prefix [of "p @ q" c key] l(1) by simp
qed

lemma skips_same:
  assumes "same_prefix (hdr n) (hdr n')" "skips n q"
  shows "skips n' q"
  using assms by (auto simp: same_prefix_def skips_def)

section \<open>New nodes with two children\<close>

lemma u32_length: "k < 2 ^ 31 \<Longrightarrow> unat (of_nat k :: u32) = k"
  by (simp add: unat_of_nat)

lemma take_min_length: "take (min k (length q)) q = take k q"
  by (simp add: min_def)

lemma copy_prefix:
  assumes "length dst = MAX_PREFIX_LEN" "j + min MAX_PREFIX_LEN (length q) \<le> length src" "take (min MAX_PREFIX_LEN (length q)) (drop j src) = take MAX_PREFIX_LEN q"
  shows "\<exists>r. memcpy dst 0 src j (min MAX_PREFIX_LEN (length q)) = Some r \<and> length r = MAX_PREFIX_LEN \<and> take (length q) r = take MAX_PREFIX_LEN q"
proof -
  let ?m = "min MAX_PREFIX_LEN (length q)"
  have "memcpy dst 0 src j ?m = Some (take MAX_PREFIX_LEN q @ drop ?m dst)" using assms by (simp add: memcpy_def)
  moreover have "take (length q) (take MAX_PREFIX_LEN q @ drop ?m dst) = take MAX_PREFIX_LEN q" using assms(1) by (auto simp: min_def)
  ultimately show ?thesis using assms(1) by (intro exI [of _ "take MAX_PREFIX_LEN q @ drop ?m dst"]) (auto simp: min_def)
qed

lemma two_node:
  assumes h: "num_children h = 0" "length (partial h) = MAX_PREFIX_LEN" "unat (partial_len h) = length q" "take (length q) (partial h) = take MAX_PREFIX_LEN q"
    and bc: "b \<noteq> c" and x: "art_ok (p @ q @ [b]) x" and y: "art_ok (p @ q @ [c]) y"
  shows "\<exists>n1 n2. add_child4 (set_hdr h (alloc_node NODE4)) b x = Some n1 \<and> add_child4 n1 c y = Some n2 \<and> art_ok p n2 \<and>
    set (leaves n2) = set (leaves x) \<union> set (leaves y)"
proof -
  let ?n0 = "Node4 h (replicate 4 0) (replicate 4 Null)"
  have s0: "node_shape ?n0" using h by (simp add: packed_def)
  have k0: "kid ?n0 = Map.empty" using h(1) by (simp add: fun_eq_iff)
  have xy: "x \<noteq> Null" "y \<noteq> Null" using x y by auto
  obtain n1 where n1: "add_child4 ?n0 b x = Some n1" "node_shape n1" "kid n1 = [b \<mapsto> x]" "same_prefix h (hdr n1)"
    "\<exists>ks' cs'. n1 = Node4 (h\<lparr>num_children := 1\<rparr>) ks' cs'"
    using add4 [OF s0 _ xy(1), of b] h(1) k0 by (auto simp del: kid.simps add_child4.simps)
  obtain ks1 cs1 where e1: "n1 = Node4 (h\<lparr>num_children := 1\<rparr>) ks1 cs1" using n1(5) by blast
  have "kid n1 c = None" using n1(3) bc by simp
  then obtain n2 where n2: "add_child4 n1 c y = Some n2" "node_shape n2" "kid n2 = [b \<mapsto> x, c \<mapsto> y]" "same_prefix h (hdr n2)"
    "\<exists>ks' cs'. n2 = Node4 (h\<lparr>num_children := 2\<rparr>) ks' cs'"
    using add4 [of "h\<lparr>num_children := 1\<rparr>" ks1 cs1 c y] n1(2,3) xy(2) unfolding e1 by (auto simp del: kid.simps add_child4.simps)
  have d: "dom (kid n2) = {b, c}" using n2(3) by auto
  have ok: "node_ok n2" using n2(2,5) bc unfolding node_ok_def d by auto
  have sk: "skips n2 q" using n2(4) h by (simp add: skips_def same_prefix_def)
  have art: "art_ok p n2"
  proof (rule ok_node [OF ok sk])
    fix e z assume "kid n2 e = Some z"
    then show "art_ok (p @ q @ [e]) z" using n2(3) x y by (auto split: if_splits)
  qed
  have "ran (kid n2) = {x, y}" using bc unfolding n2(3) by (auto simp: ran_def split: if_splits)
  then have "set (leaves n2) = set (leaves x) \<union> set (leaves y)" using leaves_node [OF n2(2)] by auto
  then show ?thesis using n1(1) n2(1) art by simp
qed

lemma par_split:
  assumes "prefix p k1" "prefix p k2" "k1 \<parallel> k2"
  shows "\<exists>q b c r1 r2. b \<noteq> c \<and> k1 = p @ q @ b # r1 \<and> k2 = p @ q @ c # r2"
proof -
  obtain s1 s2 where s: "k1 = p @ s1" "k2 = p @ s2" using assms by (auto simp: prefix_def)
  then have "s1 \<parallel> s2" using assms(3) by (auto simp: parallel_def)
  from parallel_decomp [OF this] show ?thesis using s by auto
qed

lemma split_leaf_ok:
  assumes p: "prefix p (l_key l)" "prefix p key" and par: "l_key l \<parallel> key" and k: "key_ok key" "key_ok (l_key l)"
  shows "\<exists>t. split_leaf l key v (length p) = Some t \<and> art_ok p t \<and> set (leaves t) = {l, make_leaf key v}"
proof -
  obtain q b c r1 r2 where d: "b \<noteq> c" "l_key l = p @ q @ b # r1" "key = p @ q @ c # r2" using par_split [OF p par] by blast
  have "first_from 0 (min (length (l_key l)) (length key) - length p) (\<lambda>idx. l_key l ! (length p + idx) \<noteq> key ! (length p + idx)) = length q"
    by (rule first_from_hit) (use d in \<open>auto simp: nth_append\<close>)
  then have lp: "longest_common_prefix l (make_leaf key v) (length p) = length q" by (simp add: longest_common_prefix_def make_leaf_def)
  obtain r where r: "memcpy (partial zero_hdr) 0 key (length p) (min MAX_PREFIX_LEN (length q)) = Some r" "length r = MAX_PREFIX_LEN" "take (length q) r = take MAX_PREFIX_LEN q"
    using copy_prefix [of "partial zero_hdr" "length p" q key] d(3) take_min_length [of MAX_PREFIX_LEN q] by (auto simp: zero_hdr_def min_le_iff_disj)
  let ?h = "zero_hdr\<lparr>partial_len := of_nat (length q), partial := r\<rparr>"
  have "length q < 2 ^ 31" using k(1) d(3) by (simp add: key_ok_def)
  then have u: "unat (of_nat (length q) :: u32) = length q" by (rule u32_length)
  have lf: "art_ok (p @ q @ [b]) (Leaf l)" "art_ok (p @ q @ [c]) (Leaf (make_leaf key v))"
    using d k by (auto intro!: ok_leaf simp: make_leaf_def)
  obtain n1 n2 where n: "add_child4 (set_hdr ?h (alloc_node NODE4)) b (Leaf l) = Some n1" "add_child4 n1 c (Leaf (make_leaf key v)) = Some n2" "art_ok p n2"
    "set (leaves n2) = {l, make_leaf key v}"
    using two_node [of ?h q b c p "Leaf l" "Leaf (make_leaf key v)"] r u d(1) lf by (auto simp: zero_hdr_def)
  have "nth_opt (l_key l) (length p + length q) = Some b" "nth_opt (l_key (make_leaf key v)) (length p + length q) = Some c"
    using d by (simp_all add: nth_opt_def nth_append make_leaf_def)
  then have "split_leaf l key v (length p) = Some n2" using r(1) n(1,2) by (simp add: split_leaf_def lp Let_def del: add_child4.simps set_hdr.simps)
  then show ?thesis using n(3,4) by blast
qed

section \<open>Prefixes of inner nodes\<close>

lemma minimum_below:
  assumes "art_ok p n" "leaf_of n = None" "skips n q" "\<And>c x. kid n c = Some x \<Longrightarrow> art_ok (p @ q @ [c]) x"
  shows "\<exists>l c r. minimum n = Some (Some l) \<and> l \<in> set (leaves n) \<and> l_key l = p @ q @ c # r"
proof -
  obtain l where l: "l \<in> set (leaves n)" "minimum n = Some (Some l)" using minimum_leaf [OF assms(1)] by blast
  have "node_ok n" using assms(1,2) by (rule ok_nodeE)
  from leaf_in_kid [OF this l(1) assms(4)] obtain c where "prefix (p @ q @ [c]) (l_key l)" by blast
  then show ?thesis using l by (auto simp: prefix_def)
qed

lemma prefix_mismatch_hit:
  assumes n: "art_ok p n" "leaf_of n = None" "skips n q" "\<And>c x. kid n c = Some x \<Longrightarrow> art_ok (p @ q @ [c]) x"
    and k: "prefix (p @ q) key"
  shows "\<exists>d. prefix_mismatch n key (length p) = Some d \<and> length q \<le> d"
proof -
  obtain r where r: "key = p @ q @ r" using k by (auto simp: prefix_def)
  have plen: "unat (partial_len (hdr n)) = length q" using n(3) by (simp add: skips_def)
  let ?m = "min MAX_PREFIX_LEN (length q)"
  have m: "min (min MAX_PREFIX_LEN (length q)) (length key - length p) = ?m" using r by simp
  have f: "first_from 0 ?m (\<lambda>idx. partial (hdr n) ! idx \<noteq> key ! (length p + idx)) = ?m"
    using first_from_all [of 0 ?m "\<lambda>idx. partial (hdr n) ! idx \<noteq> key ! (length p + idx)"] skips_nth [OF n(3)] r by (simp add: nth_append)
  show ?thesis
  proof (cases "length q > MAX_PREFIX_LEN")
    case True
    obtain l c s where l: "minimum n = Some (Some l)" "l_key l = p @ q @ c # s" using minimum_below [OF n] by blast
    have "length q \<le> first_from ?m (min (length (l_key l)) (length key) - length p) (\<lambda>idx. l_key l ! (idx + length p) \<noteq> key ! (length p + idx))"
      by (rule first_from_ge) (use l(2) r in \<open>auto simp: nth_append add.commute\<close>)
    then show ?thesis using True l(1) unfolding prefix_mismatch_def Let_def m f plen by simp
  next
    case False
    then show ?thesis unfolding prefix_mismatch_def Let_def m f plen by simp
  qed
qed

lemma prefix_mismatch_miss:
  assumes n: "art_ok p n" "leaf_of n = None" "skips n q" "\<And>c x. kid n c = Some x \<Longrightarrow> art_ok (p @ q @ [c]) x"
    and q: "q = qs @ b # bs" and k: "key = p @ qs @ c # cs" and bc: "b \<noteq> c"
  shows "prefix_mismatch n key (length p) = Some (length qs)"
proof -
  have plen: "unat (partial_len (hdr n)) = length q" using n(3) by (simp add: skips_def)
  let ?P = "\<lambda>idx. partial (hdr n) ! idx \<noteq> key ! (length p + idx)"
  let ?m = "min (min MAX_PREFIX_LEN (length q)) (length key - length p)"
  have P: "?P i = (q ! i \<noteq> key ! (length p + i))" if "i < MAX_PREFIX_LEN" "i < length q" for i using skips_nth [OF n(3)] that by simp
  have eq: "q ! i = key ! (length p + i)" if "i < length qs" for i using that q k by (simp add: nth_append)
  have ne: "q ! length qs \<noteq> key ! (length p + length qs)" using q k bc by (simp add: nth_append)
  show ?thesis
  proof (cases "length qs < MAX_PREFIX_LEN")
    case True
    have "first_from 0 ?m ?P = length qs"
    proof (rule first_from_hit)
      show "length qs < ?m" using True q k by simp
      show "?P (length qs)" using P [OF True] ne q by simp
      show "\<not> ?P j" if "j < length qs" for j using P [of j] eq [OF that] that True q by simp
    qed simp
    then show ?thesis using True q k unfolding prefix_mismatch_def Let_def plen by simp
  next
    case False
    have m: "?m = MAX_PREFIX_LEN" using False q k by simp
    have f: "first_from 0 MAX_PREFIX_LEN ?P = MAX_PREFIX_LEN"
      using first_from_all [of 0 MAX_PREFIX_LEN ?P] P eq False q by simp
    obtain l e s where l: "minimum n = Some (Some l)" "l_key l = p @ q @ e # s" using minimum_below [OF n] by blast
    have "first_from MAX_PREFIX_LEN (min (length (l_key l)) (length key) - length p) (\<lambda>idx. l_key l ! (idx + length p) \<noteq> key ! (length p + idx)) = length qs"
      by (rule first_from_hit) (use False l(2) q k bc in \<open>auto simp: nth_append add.commute\<close>)
    then show ?thesis using False l(1) q unfolding prefix_mismatch_def Let_def plen m f by simp
  qed
qed

lemma kid_set_hdr: "num_children h = num_children (hdr n) \<Longrightarrow> kid (set_hdr h n) = kid n"
  by (cases n) (auto simp: fun_eq_iff)

lemma node_ok_set_hdr:
  assumes "node_ok n" "num_children h = num_children (hdr n)" "length (partial h) = MAX_PREFIX_LEN"
  shows "node_ok (set_hdr h n) \<and> hdr (set_hdr h n) = h \<and> leaf_of (set_hdr h n) = None"
  using assms kid_set_hdr [OF assms(2)] by (cases n) (auto simp: node_ok_def packed_def indexed_def simp del: kid.simps)

text \<open>Giving a node another prefix: the leaves stay, and the node is well-formed below other bytes.\<close>

lemma new_prefix:
  assumes n: "node_ok n" "\<And>c x. kid n c = Some x \<Longrightarrow> art_ok (u @ [c]) x"
    and h: "num_children h = num_children (hdr n)" "length (partial h) = MAX_PREFIX_LEN" "unat (partial_len h) = length q" "take (length q) (partial h) = take MAX_PREFIX_LEN q"
    and u: "u = p @ q"
  shows "art_ok p (set_hdr h n) \<and> set (leaves (set_hdr h n)) = set (leaves n)"
proof -
  have ok: "node_ok (set_hdr h n)" "hdr (set_hdr h n) = h" using node_ok_set_hdr [OF n(1) h(1,2)] by simp_all
  have sk: "skips (set_hdr h n) q" using h ok(2) by (simp add: skips_def)
  have "art_ok p (set_hdr h n)" by (rule ok_node [OF ok(1) sk]) (use n(2) u kid_set_hdr [OF h(1)] in simp)
  moreover have "set (leaves (set_hdr h n)) = set (leaves n)"
    using leaves_node [of "set_hdr h n"] leaves_node [of n] node_okD [OF ok(1)] node_okD [OF n(1)] kid_set_hdr [OF h(1)] by simp
  ultimately show ?thesis by simp
qed

lemma unat_u32_less: "unat x < 2 ^ 32" for x :: u32
  using unsigned_less [of x] by simp

lemma u32_unat: "k < 2 ^ 32 \<Longrightarrow> unat (of_nat k :: u32) = k"
  by (simp add: unat_of_nat)

lemma cut_prefix_ok:
  assumes n: "art_ok p n" "leaf_of n = None" "skips n q" "\<And>c x. kid n c = Some x \<Longrightarrow> art_ok (p @ q @ [c]) x" and q: "q = qs @ b # bs"
  shows "\<exists>n'. cut_prefix n (length qs) (length p) = Some (b, n') \<and> art_ok (p @ qs @ [b]) n' \<and> set (leaves n') = set (leaves n)"
proof -
  have ok: "node_ok n" using n(1,2) by (rule ok_nodeE)
  have lp: "length (partial (hdr n)) = MAX_PREFIX_LEN" using node_okD [OF ok] by simp
  have plen: "unat (partial_len (hdr n)) = length q" using n(3) by (simp add: skips_def)
  let ?plen' = "partial_len (hdr n) - of_nat (length qs + 1)"
  have lt: "length qs + 1 < 2 ^ 32" using plen q unat_u32_less [of "partial_len (hdr n)"] by simp
  have "unat (of_nat (length qs + 1) :: u32) = length qs + 1" using lt by (rule u32_unat)
  then have plen': "unat ?plen' = length bs" using plen q by (simp add: unat_sub word_le_nat_alt)
  have fin: "art_ok (p @ qs @ [b]) (set_hdr ((hdr n)\<lparr>partial_len := ?plen', partial := r\<rparr>) n) \<and>
      set (leaves (set_hdr ((hdr n)\<lparr>partial_len := ?plen', partial := r\<rparr>) n)) = set (leaves n)"
    if "length r = MAX_PREFIX_LEN" "take (length bs) r = take MAX_PREFIX_LEN bs" for r
    by (rule new_prefix [OF ok, where u = "p @ q" and q = bs]) (use n(4) that plen' q in auto)
  show ?thesis
  proof (cases "length q \<le> MAX_PREFIX_LEN")
    case True
    have t: "take (length q) (partial (hdr n)) = q" using n(3) True by (simp add: skips_def)
    have "partial (hdr n) ! length qs = take (length q) (partial (hdr n)) ! length qs" using q by simp
    then have c: "nth_opt (partial (hdr n)) (length qs) = Some b" unfolding t using True q lp by (simp add: nth_opt_def)
    have dr: "take (min MAX_PREFIX_LEN (length bs)) (drop (length qs + 1) (partial (hdr n))) = take MAX_PREFIX_LEN bs"
    proof -
      have "drop (length qs + 1) (take (length q) (partial (hdr n))) = bs" unfolding t using q by simp
      then show ?thesis using True q by (simp add: drop_take)
    qed
    obtain r where r: "memcpy (partial (hdr n)) 0 (partial (hdr n)) (length qs + 1) (min MAX_PREFIX_LEN (length bs)) = Some r" "length r = MAX_PREFIX_LEN" "take (length bs) r = take MAX_PREFIX_LEN bs"
      using copy_prefix [OF lp, of "length qs + 1" bs "partial (hdr n)"] lp dr True q by (auto simp: min_le_iff_disj)
    then show ?thesis using fin [OF r(2,3)] c True plen' by (simp add: cut_prefix_def Let_def plen)
  next
    case False
    obtain l e s where l: "minimum n = Some (Some l)" "l_key l = p @ q @ e # s" using minimum_below [OF n] by blast
    have c: "nth_opt (l_key l) (length p + length qs) = Some b" using l(2) q by (simp add: nth_opt_def nth_append)
    have dr: "take (min MAX_PREFIX_LEN (length bs)) (drop (length p + length qs + 1) (l_key l)) = take MAX_PREFIX_LEN bs"
      using l(2) q take_min_length [of MAX_PREFIX_LEN bs] by simp
    obtain r where r: "memcpy (partial (hdr n)) 0 (l_key l) (length p + length qs + 1) (min MAX_PREFIX_LEN (length bs)) = Some r" "length r = MAX_PREFIX_LEN" "take (length bs) r = take MAX_PREFIX_LEN bs"
      using copy_prefix [OF lp, of "length p + length qs + 1" bs "l_key l"] dr l(2) q by (auto simp: min_le_iff_disj)
    then show ?thesis using fin [OF r(2,3)] c False l(1) plen' by (simp add: cut_prefix_def Let_def plen)
  qed
qed

section \<open>Insertion\<close>

lemma split_node_ok:
  assumes n: "art_ok p n" "leaf_of n = None" "skips n q" "\<And>c x. kid n c = Some x \<Longrightarrow> art_ok (p @ q @ [c]) x"
    and q: "q = qs @ b # bs" and k: "key = p @ qs @ c # cs" "key_ok key" and bc: "b \<noteq> c"
  shows "\<exists>t. split_node n key v (length p) (length qs) = Some t \<and> art_ok p t \<and> set (leaves t) = insert (make_leaf key v) (set (leaves n))"
proof -
  have ok: "node_ok n" using n(1,2) by (rule ok_nodeE)
  have lp: "length (partial (hdr n)) = MAX_PREFIX_LEN" using node_okD [OF ok] by simp
  obtain n' where n': "cut_prefix n (length qs) (length p) = Some (b, n')" "art_ok (p @ qs @ [b]) n'" "set (leaves n') = set (leaves n)"
    using cut_prefix_ok [OF n q] by blast
  have "take (min MAX_PREFIX_LEN (length qs)) (partial (hdr n)) = take (min MAX_PREFIX_LEN (length qs)) (take (length q) (partial (hdr n)))" using q by simp
  also have "\<dots> = take MAX_PREFIX_LEN qs" using n(3) q by (simp add: skips_def min_def)
  finally obtain r where r: "memcpy (partial zero_hdr) 0 (partial (hdr n)) 0 (min MAX_PREFIX_LEN (length qs)) = Some r" "length r = MAX_PREFIX_LEN" "take (length qs) r = take MAX_PREFIX_LEN qs"
    using copy_prefix [of "partial zero_hdr" 0 qs "partial (hdr n)"] lp by (auto simp: zero_hdr_def)
  let ?h = "zero_hdr\<lparr>partial_len := of_nat (length qs), partial := r\<rparr>"
  have u: "unat (of_nat (length qs) :: u32) = length qs" by (rule u32_length) (use k in \<open>simp add: key_ok_def\<close>)
  have lf: "art_ok (p @ qs @ [c]) (Leaf (make_leaf key v))" using k by (auto intro!: ok_leaf simp: make_leaf_def)
  obtain n1 n2 where n12: "add_child4 (set_hdr ?h (alloc_node NODE4)) b n' = Some n1" "add_child4 n1 c (Leaf (make_leaf key v)) = Some n2" "art_ok p n2"
    "set (leaves n2) = insert (make_leaf key v) (set (leaves n'))"
    using two_node [of ?h qs b c p n' "Leaf (make_leaf key v)"] r u bc n'(2) lf by (auto simp: zero_hdr_def)
  have "nth_opt key (length p + length qs) = Some c" using k(1) by (simp add: nth_opt_def nth_append)
  then have "split_node n key v (length p) (length qs) = Some n2"
    using r(1) n'(1) n12(1,2) by (simp add: split_node_def Let_def del: add_child4.simps set_hdr.simps)
  then show ?thesis using n12(3,4) n'(3) by blast
qed

text \<open>What insertion of \<open>key\<close> below \<open>p\<close> does to a subtree.\<close>

definition inserted_at :: "u8 list \<Rightarrow> u8 list \<Rightarrow> ptr \<Rightarrow> art_leaf set \<Rightarrow> (art \<times> ptr \<times> bool) option \<Rightarrow> bool" where
  "inserted_at p key v S res \<longleftrightarrow> (\<exists>t old flag. res = Some (t, old, flag) \<and> art_ok p t \<and>
     set (leaves t) = insert (make_leaf key v) {l \<in> S. l_key l \<noteq> key} \<and> (flag \<longleftrightarrow> key \<in> l_key ` S) \<and>
     (\<forall>l \<in> S. l_key l = key \<longrightarrow> old = l_value l) \<and> (\<not> flag \<longrightarrow> old = None))"

lemma inserted_new:
  assumes "r = Some t" "art_ok p t" "set (leaves t) = insert (make_leaf key v) S" "key \<notin> l_key ` S"
  shows "inserted_at p key v S (map_option (\<lambda>t. (t, None, False)) r)"
proof -
  have "{l \<in> S. l_key l \<noteq> key} = S" using assms(4) by auto
  then show ?thesis using assms unfolding inserted_at_def by auto
qed

lemma parallel_key: "(\<forall>l \<in> S. l_key l = key \<or> l_key l \<parallel> key) \<Longrightarrow> l \<in> S \<Longrightarrow> prefix (l_key l) key \<or> prefix key (l_key l) \<Longrightarrow> l_key l = key"
  by (auto simp: parallel_def)

lemma insert_miss:
  assumes n: "art_ok p n" "leaf_of n = None" "skips n q" "\<And>c x. kid n c = Some x \<Longrightarrow> art_ok (p @ q @ [c]) x"
    and k: "prefix p key" "key_ok key" "\<forall>l \<in> set (leaves n). l_key l = key \<or> l_key l \<parallel> key" and miss: "\<not> prefix (p @ q) key"
  shows "inserted_at p key v (set (leaves n)) (recursive_insert n key v (length p))"
proof -
  obtain l where l: "l \<in> set (leaves n)" using leaves_nonempty [OF n(1)] by (metis ex_in_conv)
  have ok: "node_ok n" using n(1,2) by (rule ok_nodeE)
  have below: "prefix (p @ q) (l_key l)" if "l \<in> set (leaves n)" for l
    using leaf_in_kid [OF ok that n(4)] by (metis append.assoc append_prefixD)
  have no: "key \<notin> l_key ` set (leaves n)" using below miss by auto
  have "\<not> prefix key (p @ q)"
  proof
    assume "prefix key (p @ q)"
    then have "prefix key (l_key l)" using below [OF l] by (rule prefix_order.trans)
    then show False using parallel_key [OF k(3) l] no l by auto
  qed
  then have "p @ q \<parallel> key" using miss by (auto simp: parallel_def)
  then obtain qs b c r1 r2 where d: "b \<noteq> c" "p @ q = p @ qs @ b # r1" "key = p @ qs @ c # r2" using par_split [of p "p @ q" key] k(1) by auto
  have q: "q = qs @ b # r1" using d(2) by simp
  obtain t where t: "split_node n key v (length p) (length qs) = Some t" "art_ok p t" "set (leaves t) = insert (make_leaf key v) (set (leaves n))"
    using split_node_ok [OF n q d(3) k(2) d(1)] by blast
  have pl: "unat (partial_len (hdr n)) = length q" using n(3) by (simp add: skips_def)
  have "recursive_insert n key v (length p) = map_option (\<lambda>t. (t, None, False)) (split_node n key v (length p) (length qs))"
    using node_okD [OF ok] prefix_mismatch_miss [OF n q d(3,1)] q by (subst recursive_insert.simps) (simp add: Let_def pl)
  then show ?thesis using inserted_new [OF t no] by simp
qed

lemma insert_down:
  assumes n: "art_ok p n" "leaf_of n = None" "skips n q" "\<And>c x. kid n c = Some x \<Longrightarrow> art_ok (p @ q @ [c]) x" and k: "prefix (p @ q @ [c]) key"
  shows "recursive_insert n key v (length p) =
    (case find_child n c of
       Some i \<Rightarrow> do { x \<leftarrow> child_at n i; (x, old_val, old) \<leftarrow> recursive_insert x key v (length (p @ q @ [c])); Some (set_child n i x, old_val, old) }
     | None \<Rightarrow> map_option (\<lambda>t. (t, None, False)) (add_child n c (Leaf (make_leaf key v))))"
proof -
  have ok: "node_ok n" using n(1,2) by (rule ok_nodeE)
  have pl: "unat (partial_len (hdr n)) = length q" using n(3) by (simp add: skips_def)
  have "prefix (p @ q) key" using k by (metis append.assoc append_prefixD)
  from prefix_mismatch_hit [OF n this] obtain d where d: "prefix_mismatch n key (length p) = Some d" "length q \<le> d" by blast
  have c: "nth_opt key (length p + length q) = Some c" using nth_opt_prefix [of "p @ q" c key] k by simp
  show ?thesis using node_okD [OF ok] d c by (cases "q = []"; subst recursive_insert.simps) (simp_all add: Let_def pl cong: option.case_cong)
qed

lemma insert_step:
  "art_ok p n \<Longrightarrow> prefix p key \<Longrightarrow> key_ok key \<Longrightarrow> \<forall>l \<in> set (leaves n). l_key l = key \<or> l_key l \<parallel> key \<Longrightarrow>
    inserted_at p key v (set (leaves n)) (recursive_insert n key v (length p))"
proof (induction rule: art_ok.induct)
  case (ok_leaf l p)
  show ?case
  proof (cases "l_key l = key")
    case True
    have "recursive_insert (Leaf l) key v (length p) = Some (Leaf (l\<lparr>l_value := v\<rparr>), l_value l, True)"
      using True by (simp add: recursive_insert.simps leaf_matches_iff)
    moreover have "l\<lparr>l_value := v\<rparr> = make_leaf key v" using True by (simp add: make_leaf_def)
    ultimately show ?thesis using True ok_leaf art_ok.ok_leaf [of "make_leaf key v" p] by (auto simp: inserted_at_def make_leaf_def)
  next
    case False
    then have par: "l_key l \<parallel> key" using ok_leaf.prems(3) by simp
    obtain t where t: "split_leaf l key v (length p) = Some t" "art_ok p t" "set (leaves t) = insert (make_leaf key v) (set (leaves (Leaf l)))"
      using split_leaf_ok [OF ok_leaf.hyps(2) ok_leaf.prems(1) par ok_leaf.prems(2) ok_leaf.hyps(1), of v] by (auto simp: insert_commute)
    have "recursive_insert (Leaf l) key v (length p) = map_option (\<lambda>t. (t, None, False)) (split_leaf l key v (length p))"
      using False by (simp add: recursive_insert.simps leaf_matches_iff)
    then show ?thesis using inserted_new [OF t] False by simp
  qed
next
  case (ok_node n q p)
  have art: "art_ok p n" by (rule art_ok.ok_node [OF ok_node.hyps])
  have lo: "leaf_of n = None" using node_okD [OF ok_node.hyps(1)] by simp
  show ?case
  proof (cases "prefix (p @ q) key")
    case False
    then show ?thesis using insert_miss [OF art lo ok_node.hyps(2,3) ok_node.prems] by simp
  next
    case True
    obtain l where l: "l \<in> set (leaves n)" using leaves_nonempty [OF art] by (metis ex_in_conv)
    obtain d where d: "prefix (p @ q @ [d]) (l_key l)" using leaf_in_kid [OF ok_node.hyps(1) l ok_node.hyps(3)] by blast
    have "key \<noteq> p @ q"
    proof
      assume e: "key = p @ q"
      then have "prefix key (l_key l)" using d by (metis append.assoc append_prefixD)
      then have "l_key l = key" using parallel_key [OF ok_node.prems(3) l] by simp
      then show False using prefix_length_le [OF d] e by simp
    qed
    moreover obtain zs where zs: "key = p @ q @ zs" using True by (auto simp: prefix_def)
    ultimately obtain c r where c: "key = p @ q @ c # r" by (cases zs) simp_all
    then have pc: "prefix (p @ q @ [c]) key" by simp
    have no: "key \<notin> l_key ` rest n c" by (rule rest_other_key [OF ok_node.hyps(3) pc])
    note down = insert_down [OF art lo ok_node.hyps(2,3) pc]
    show ?thesis
    proof (cases "kid n c")
      case None
      then have f: "find_child n c = None" using find_child_kid [OF ok_node.hyps(1), of c] by simp
      have S: "set (leaves n) = rest n c" using leaves_rest [OF ok_node.hyps(1), of c] None by simp
      have lf: "art_ok (p @ q @ [c]) (Leaf (make_leaf key v))" using pc ok_node.prems(2) by (auto intro: art_ok.ok_leaf simp: make_leaf_def)
      obtain n' where n': "add_child n c (Leaf (make_leaf key v)) = Some n'" "node_ok n'" "kid n' = (kid n)(c \<mapsto> Leaf (make_leaf key v))" "same_prefix (hdr n) (hdr n')"
        using add_kid [OF ok_node.hyps(1) f, of "Leaf (make_leaf key v)"] by auto
      have "art_ok p n'" by (rule art_ok.ok_node [OF n'(2) skips_same [OF n'(4) ok_node.hyps(2)]]) (use n'(3) ok_node.hyps(3) lf in \<open>auto split: if_splits\<close>)
      moreover have "set (leaves n') = insert (make_leaf key v) (set (leaves n))" using leaves_rest [OF n'(2), of c] rest_upd [OF n'(3)] n'(3) S by simp
      ultimately show ?thesis using inserted_new [OF n'(1)] no down f S by simp
    next
      case (Some x)
      then obtain i where f: "find_child n c = Some i" "child_at n i = Some x" using find_child_kid [OF ok_node.hyps(1), of c] by (cases "find_child n c") auto
      have S: "set (leaves n) = rest n c \<union> set (leaves x)" using leaves_rest [OF ok_node.hyps(1), of c] Some by simp
      have "inserted_at (p @ q @ [c]) key v (set (leaves x)) (recursive_insert x key v (length (p @ q @ [c])))"
        by (rule ok_node.IH [OF Some pc ok_node.prems(2)]) (use ok_node.prems(3) S in simp)
      then obtain t old flag where t: "recursive_insert x key v (length (p @ q @ [c])) = Some (t, old, flag)" "art_ok (p @ q @ [c]) t"
        "set (leaves t) = insert (make_leaf key v) {l \<in> set (leaves x). l_key l \<noteq> key}" "flag \<longleftrightarrow> key \<in> l_key ` set (leaves x)"
        "\<forall>l \<in> set (leaves x). l_key l = key \<longrightarrow> old = l_value l" "\<not> flag \<longrightarrow> old = None"
        unfolding inserted_at_def by blast
      have tn: "t \<noteq> Null" using t(2) by auto
      have n': "node_ok (set_child n i t)" "kid (set_child n i t) = (kid n)(c \<mapsto> t)" using put_kid [OF ok_node.hyps(1) f(1) tn] by simp_all
      have a: "art_ok p (set_child n i t)"
        by (rule art_ok.ok_node [OF n'(1), of q]) (use ok_node.hyps(2) n'(2) ok_node.hyps(3) t(2) in \<open>auto simp: skips_def split: if_splits\<close>)
      have "set (leaves (set_child n i t)) = rest n c \<union> set (leaves t)" using leaves_rest [OF n'(1), of c] rest_upd [OF n'(2)] n'(2) by simp
      then have "set (leaves (set_child n i t)) = insert (make_leaf key v) {l \<in> set (leaves n). l_key l \<noteq> key}" using no S t(3) by auto
      moreover have "flag \<longleftrightarrow> key \<in> l_key ` set (leaves n)" using t(4) no S by auto
      moreover have "\<forall>l \<in> set (leaves n). l_key l = key \<longrightarrow> old = l_value l" using t(5) no S by auto
      moreover have "recursive_insert n key v (length p) = Some (set_child n i t, old, flag)" using down f t(1) by simp
      ultimately show ?thesis unfolding inserted_at_def using a t(6) by blast
    qed
  qed
qed

section \<open>Deletion\<close>

lemma join_prefix_ok:
  assumes n: "skips n q" "length (partial (hdr n)) = MAX_PREFIX_LEN" and y: "skips y q2" "length (partial (hdr y)) = MAX_PREFIX_LEN"
    and len: "length (q @ d # q2) < 2 ^ 31"
  shows "\<exists>h. join_prefix (hdr n) d (hdr y) = Some h \<and> num_children h = num_children (hdr y) \<and> length (partial h) = MAX_PREFIX_LEN \<and>
    unat (partial_len h) = length (q @ d # q2) \<and> take (length (q @ d # q2)) (partial h) = take MAX_PREFIX_LEN (q @ d # q2)"
proof -
  let ?l = "q @ d # q2" and ?P = "partial (hdr n)" and ?C = "partial (hdr y)"
  have pl: "unat (partial_len (hdr n)) = length q" "unat (partial_len (hdr y)) = length q2" using n y by (simp_all add: skips_def)
  have u1: "unat (partial_len (hdr n) + 1) = length q + 1" using pl(1) len by (simp add: unat_plus1)
  have u: "unat (partial_len (hdr y) + (partial_len (hdr n) + 1)) = length ?l"
  proof -
    have "unat (partial_len (hdr y) + (partial_len (hdr n) + 1)) = (length q2 + (length q + 1)) mod 2 ^ 32"
      using u1 pl(2) by (simp add: unat_word_ariths(1))
    then show ?thesis using len by simp
  qed
  have fin: ?thesis if p: "join_prefix (hdr n) d (hdr y) = map_option (\<lambda>pc. (hdr y)\<lparr>partial := pc, partial_len := partial_len (hdr y) + (partial_len (hdr n) + 1)\<rparr>) (memcpy ?C 0 p2 0 (min MAX_PREFIX_LEN (length ?l)))"
    and p2: "length p2 = MAX_PREFIX_LEN" "take (min MAX_PREFIX_LEN (length ?l)) p2 = take MAX_PREFIX_LEN ?l" for p2
    using copy_prefix [OF y(2), of 0 ?l p2] p p2 u by (auto simp del: length_append)
  show ?thesis
  proof (cases "length q < MAX_PREFIX_LEN")
    case True
    have q: "take (length q) ?P = q" using n True by (simp add: skips_def)
    have p1: "take (length q + 1) (?P[length q := d]) = q @ [d]" using True n(2) q by (simp add: take_Suc_conv_app_nth)
    show ?thesis
    proof (cases "length q + 1 < MAX_PREFIX_LEN")
      case T: True
      let ?s = "min (length q2) (MAX_PREFIX_LEN - (length q + 1))"
      let ?p2 = "take (length q + 1) (?P[length q := d]) @ take ?s (drop 0 ?C) @ drop (length q + 1 + ?s) (?P[length q := d])"
      have "take ?s ?C = take ?s (take (length q2) ?C)" by (simp add: min_def)
      also have "\<dots> = take ?s (take MAX_PREFIX_LEN q2)" using y(1) by (simp only: skips_def)
      also have "\<dots> = take ?s q2" by (simp add: min_def)
      finally have C: "take ?s ?C = take ?s q2" .
      have m: "memcpy (?P[length q := d]) (length q + 1) ?C 0 ?s = Some ?p2" using T n(2) y(2) by (simp add: memcpy_def)
      have mn: "min (length q + 1 + ?s) MAX_PREFIX_LEN = min MAX_PREFIX_LEN (length ?l)" using T by (simp add: min_def)
      show ?thesis
      proof (rule fin [of ?p2])
        show "join_prefix (hdr n) d (hdr y) = map_option (\<lambda>pc. (hdr y)\<lparr>partial := pc, partial_len := partial_len (hdr y) + (partial_len (hdr n) + 1)\<rparr>) (memcpy ?C 0 ?p2 0 (min MAX_PREFIX_LEN (length ?l)))"
          using True T unfolding join_prefix_def Let_def pl mn [symmetric] by (simp only: if_True m bind.bind_lunit bind_Some_map)
        show "length ?p2 = MAX_PREFIX_LEN" using T n(2) y(2) by simp
        have "take (min MAX_PREFIX_LEN (length ?l)) ?p2 = q @ [d] @ take ?s q2"
          using T n(2) y(2) unfolding p1 drop_0 C mn [symmetric] by simp
        also have "\<dots> = take MAX_PREFIX_LEN ?l" using T by (simp add: take_Cons' min_def)
        finally show "take (min MAX_PREFIX_LEN (length ?l)) ?p2 = take MAX_PREFIX_LEN ?l" .
      qed
    next
      case F: False
      then have e: "length q + 1 = MAX_PREFIX_LEN" using True by simp
      show ?thesis
      proof (rule fin [of "?P[length q := d]"])
        have "min (length q + 1 + 0) MAX_PREFIX_LEN = min MAX_PREFIX_LEN (length ?l)" using e by simp
        then show "join_prefix (hdr n) d (hdr y) = map_option (\<lambda>pc. (hdr y)\<lparr>partial := pc, partial_len := partial_len (hdr y) + (partial_len (hdr n) + 1)\<rparr>) (memcpy ?C 0 (?P[length q := d]) 0 (min MAX_PREFIX_LEN (length ?l)))"
          using True F unfolding join_prefix_def Let_def pl by (simp only: if_True if_False bind.bind_lunit bind_Some_map)
        show "length (?P[length q := d]) = MAX_PREFIX_LEN" using n(2) by simp
        have mn: "min MAX_PREFIX_LEN (length ?l) = length q + 1" using e by simp
        have "take MAX_PREFIX_LEN ?l = q @ [d]" unfolding e [symmetric] by simp
        then show "take (min MAX_PREFIX_LEN (length ?l)) (?P[length q := d]) = take MAX_PREFIX_LEN ?l" unfolding mn p1 by simp
      qed
    qed
  next
    case False
    show ?thesis
    proof (rule fin [of ?P])
      have "min (length q + 0) MAX_PREFIX_LEN = min MAX_PREFIX_LEN (length ?l)" using False by simp
      then show "join_prefix (hdr n) d (hdr y) = map_option (\<lambda>pc. (hdr y)\<lparr>partial := pc, partial_len := partial_len (hdr y) + (partial_len (hdr n) + 1)\<rparr>) (memcpy ?C 0 ?P 0 (min MAX_PREFIX_LEN (length ?l)))"
        using False unfolding join_prefix_def Let_def pl by (simp only: if_False bind.bind_lunit bind_Some_map)
      show "take (min MAX_PREFIX_LEN (length ?l)) ?P = take MAX_PREFIX_LEN ?l" using False n by (simp add: skips_def)
    qed (rule n(2))
  qed
qed

text \<open>What deletion of \<open>key\<close> below \<open>p\<close> does to a subtree.\<close>

definition deleted_at :: "u8 list \<Rightarrow> u8 list \<Rightarrow> art_leaf set \<Rightarrow> (art \<times> art_leaf option) option \<Rightarrow> bool" where
  "deleted_at p key S res \<longleftrightarrow> (\<exists>t r. res = Some (t, r) \<and> art_ok p t \<and> set (leaves t) = {l \<in> S. l_key l \<noteq> key} \<and>
     (r = None \<longleftrightarrow> key \<notin> l_key ` S) \<and> (\<forall>l. r = Some l \<longrightarrow> l \<in> S \<and> l_key l = key))"

lemma deleted_none: "art_ok p n \<Longrightarrow> key \<notin> l_key ` set (leaves n) \<Longrightarrow> deleted_at p key (set (leaves n)) (Some (n, None))"
  by (auto simp: deleted_at_def)

lemma delete_node:
  assumes "node_ok n" "skips n q"
  shows "recursive_delete n key (length p) =
    (if length q \<noteq> 0 \<and> check_prefix (hdr n) key (length p) \<noteq> min MAX_PREFIX_LEN (length q) then Some (n, None)
     else do {
       c \<leftarrow> nth_opt key (length (p @ q));
       case kid n c of
         None \<Rightarrow> Some (n, None)
       | Some x \<Rightarrow>
           (case leaf_of x of
              Some l \<Rightarrow> if leaf_matches l key = 0 then map_option (\<lambda>t. (t, Some l)) (remove_child n c (the (find_child n c))) else Some (n, None)
            | None \<Rightarrow> do { (x, l) \<leftarrow> recursive_delete x key (length (p @ q @ [c])); Some (set_child n (the (find_child n c)) x, l) })
     })"
proof -
  have "(case find_child n c of None \<Rightarrow> Some (n, None) | Some i \<Rightarrow> do {
          x \<leftarrow> child_at n i;
          case leaf_of x of
            Some l \<Rightarrow> if leaf_matches l key = 0 then map_option (\<lambda>t. (t, Some l)) (remove_child n c i) else Some (n, None)
          | None \<Rightarrow> do { (x, l) \<leftarrow> recursive_delete x key (length p + length q + 1); Some (set_child n i x, l) } }) =
      (case kid n c of None \<Rightarrow> Some (n, None) | Some x \<Rightarrow>
          (case leaf_of x of
             Some l \<Rightarrow> if leaf_matches l key = 0 then map_option (\<lambda>t. (t, Some l)) (remove_child n c (the (find_child n c))) else Some (n, None)
           | None \<Rightarrow> do { (x, l) \<leftarrow> recursive_delete x key (length (p @ q @ [c])); Some (set_child n (the (find_child n c)) x, l) }))" for c
    using find_child_kid [OF assms(1), of c] by (cases "find_child n c") (auto split: option.splits)
  then show ?thesis using node_okD [OF assms(1)] assms(2) by (subst recursive_delete.simps) (simp add: Let_def skips_def cong: if_cong)
qed

lemma delete_leaf:
  assumes n: "node_ok n" "skips n q" "\<And>c x. kid n c = Some x \<Longrightarrow> art_ok (p @ q @ [c]) x" and x: "kid n c = Some (Leaf l)"
  shows "\<exists>t. remove_child n c (the (find_child n c)) = Some t \<and> art_ok p t \<and> set (leaves t) = rest n c"
proof -
  have "find_child n c \<noteq> None" using find_child_kid [OF n(1), of c] x by simp
  then obtain i where i: "find_child n c = Some i" by blast
  show ?thesis
  proof (cases "card (dom (kid n)) < 3")
    case False
    then obtain n' where n': "remove_child n c i = Some n'" "node_ok n'" "kid n' = (kid n)(c := None)" "same_prefix (hdr n) (hdr n')"
      using remove_kid [OF n(1) i] by auto
    have "art_ok p n'" by (rule ok_node [OF n'(2) skips_same [OF n'(4) n(2)]]) (use n'(3) n(3) in \<open>auto split: if_splits\<close>)
    moreover have "set (leaves n') = rest n c" using leaves_rest [OF n'(2), of c] rest_upd [OF n'(3)] n'(3) by simp
    ultimately show ?thesis using n'(1) i by simp
  next
    case True
    from remove_last [OF n(1) i True] obtain d y where y: "y \<noteq> Null" "(kid n)(c := None) = [d \<mapsto> y]"
      "remove_child n c i = (case y of Null \<Rightarrow> None | Leaf l \<Rightarrow> Some (Leaf l) | child \<Rightarrow> map_option (\<lambda>hc. set_hdr hc child) (join_prefix (hdr n) d (hdr child)))" by blast
    have dy: "d \<noteq> c" "kid n d = Some y" using fun_cong [OF y(2), of d] by (auto split: if_splits)
    have only: "e = d \<and> z = y" if "e \<noteq> c" "kid n e = Some z" for e z using fun_cong [OF y(2), of e] that by (auto split: if_splits)
    have r: "rest n c = set (leaves y)"
    proof (intro set_eqI iffI)
      fix l assume "l \<in> rest n c"
      then obtain e z where "e \<noteq> c" "kid n e = Some z" "l \<in> set (leaves z)" unfolding rest_def by blast
      then show "l \<in> set (leaves y)" using only [of e z] by simp
    next
      fix l assume "l \<in> set (leaves y)"
      then show "l \<in> rest n c" using dy unfolding rest_def by blast
    qed
    have a: "art_ok (p @ q @ [d]) y" by (rule n(3) [OF dy(2)])
    show ?thesis
    proof (cases "leaf_of y")
      case (Some ly)
      then have e: "y = Leaf ly" by (simp add: leaf_of_Some)
      have "art_ok p (Leaf ly)" using a unfolding e by (auto elim!: ok_leafE intro!: ok_leaf dest: append_prefixD simp: node_ok_def)
      then show ?thesis using y(3) i r e by simp
    next
      case None
      obtain q2 where q2: "node_ok y" "skips y q2" "\<And>c x. kid y c = Some x \<Longrightarrow> art_ok ((p @ q @ [d]) @ q2 @ [c]) x" using ok_nodeE [OF a None] by blast
      obtain ly where ly: "ly \<in> set (leaves y)" using leaves_nonempty [OF a] by (metis ex_in_conv)
      obtain e where "prefix ((p @ q @ [d]) @ q2 @ [e]) (l_key ly)" using leaf_in_kid [OF q2(1) ly q2(3)] by blast
      then have len: "length (q @ d # q2) < 2 ^ 31" using leaf_below [OF a ly] prefix_length_le by (fastforce simp: key_ok_def)
      obtain h where h: "join_prefix (hdr n) d (hdr y) = Some h" "num_children h = num_children (hdr y)" "length (partial h) = MAX_PREFIX_LEN"
        "unat (partial_len h) = length (q @ d # q2)" "take (length (q @ d # q2)) (partial h) = take MAX_PREFIX_LEN (q @ d # q2)"
        using join_prefix_ok [OF n(2) _ q2(2) _ len] node_okD [OF n(1)] node_okD [OF q2(1)] by blast
      have t: "art_ok p (set_hdr h y) \<and> set (leaves (set_hdr h y)) = set (leaves y)"
        by (rule new_prefix [OF q2(1), where u = "p @ q @ d # q2"]) (use q2(3) h in simp_all)
      have "remove_child n c i = Some (set_hdr h y)" using y(1,3) h(1) None by (cases y) simp_all
      then show ?thesis using t r i by simp
    qed
  qed
qed

text \<open>The search and the deletion read only inside the key when it is long enough or in the tree.\<close>

definition in_bounds :: "u8 list \<Rightarrow> art_leaf set \<Rightarrow> bool" where
  "in_bounds key S \<longleftrightarrow> (\<forall>l \<in> S. length (l_key l) \<le> length key) \<or> key \<in> l_key ` S"

lemma in_bounds_byte:
  assumes n: "node_ok n" "\<And>c x. kid n c = Some x \<Longrightarrow> art_ok (p @ q @ [c]) x" "set (leaves n) \<noteq> {}" and D: "in_bounds key (set (leaves n))"
  shows "\<exists>c. nth_opt key (length (p @ q)) = Some c \<and> (\<forall>x. kid n c = Some x \<longrightarrow> in_bounds key (set (leaves x))) \<and>
    (\<forall>l \<in> set (leaves n). l_key l = key \<longrightarrow> (\<exists>x. kid n c = Some x \<and> l \<in> set (leaves x)))"
proof -
  obtain l where l: "l \<in> set (leaves n)" "length (l_key l) \<le> length key"
    using D n(3) unfolding in_bounds_def by (metis (no_types, lifting) all_not_in_conv imageE le_refl)
  obtain d where d: "prefix (p @ q @ [d]) (l_key l)" using leaf_in_kid [OF n(1) l(1) n(2)] by blast
  have len: "length (p @ q) < length key" using prefix_length_le [OF d] l(2) by simp
  let ?c = "key ! length (p @ q)"
  have at: "\<exists>x. kid n ?c = Some x \<and> l' \<in> set (leaves x)" if l': "l' \<in> set (leaves n)" "l_key l' = key" for l'
  proof -
    obtain c' x' where x': "kid n c' = Some x'" "l' \<in> set (leaves x')" "prefix ((p @ q) @ [c']) key"
      using leaf_in_kid [OF n(1) l'(1) n(2)] l'(2) by auto
    then have "c' = ?c" using nth_opt_prefix [OF x'(3)] len by (simp add: nth_opt_def)
    then show ?thesis using x' by auto
  qed
  have "in_bounds key (set (leaves x))" if x: "kid n ?c = Some x" for x
  proof (cases "key \<in> l_key ` set (leaves n)")
    case True
    then obtain l' where l': "l' \<in> set (leaves n)" "l_key l' = key" by blast
    then have "l' \<in> set (leaves x)" using at [OF l'] x by simp
    then show ?thesis using l'(2) by (auto simp: in_bounds_def)
  next
    case False
    then show ?thesis using D kid_leaves [OF n(1) x] by (auto simp: in_bounds_def)
  qed
  then show ?thesis using at len by (intro exI [of _ ?c]) (simp add: nth_opt_def)
qed

lemma check_prefix_miss:
  assumes n: "node_ok n" "skips n q" "\<And>c x. kid n c = Some x \<Longrightarrow> art_ok (p @ q @ [c]) x"
    and c: "check_prefix (hdr n) key (length p) \<noteq> min MAX_PREFIX_LEN (length q)"
  shows "key \<notin> l_key ` set (leaves n)"
proof
  assume "key \<in> l_key ` set (leaves n)"
  then obtain l where l: "l \<in> set (leaves n)" "l_key l = key" by blast
  obtain c where "prefix (p @ q @ [c]) key" using leaf_in_kid [OF n(1) l(1) n(3)] l(2) by blast
  then have "prefix (p @ q) key" by (metis append.assoc append_prefixD)
  then show False using check_prefix_hit [OF n(2)] c by blast
qed

lemma delete_step:
  "art_ok p n \<Longrightarrow> leaf_of n = None \<Longrightarrow> in_bounds key (set (leaves n)) \<Longrightarrow> deleted_at p key (set (leaves n)) (recursive_delete n key (length p))"
proof (induction rule: art_ok.induct)
  case (ok_node n q p)
  have art: "art_ok p n" by (rule art_ok.ok_node [OF ok_node.hyps])
  note del = delete_node [OF ok_node.hyps(1,2), of key p]
  show ?case
  proof (cases "length q \<noteq> 0 \<and> check_prefix (hdr n) key (length p) \<noteq> min MAX_PREFIX_LEN (length q)")
    case True
    then have "key \<notin> l_key ` set (leaves n)" using check_prefix_miss [OF ok_node.hyps] by simp
    then show ?thesis using deleted_none [OF art] True del by simp
  next
    case False
    obtain c where c: "nth_opt key (length (p @ q)) = Some c" "\<And>x. kid n c = Some x \<Longrightarrow> in_bounds key (set (leaves x))"
      "\<And>l. l \<in> set (leaves n) \<Longrightarrow> l_key l = key \<Longrightarrow> \<exists>x. kid n c = Some x \<and> l \<in> set (leaves x)"
      using in_bounds_byte [OF ok_node.hyps(1,3) leaves_nonempty [OF art] ok_node.prems(2)] by blast
    show ?thesis
    proof (cases "kid n c")
      case None
      then have "key \<notin> l_key ` set (leaves n)" using c(3) by auto
      then show ?thesis using deleted_none [OF art] False del c(1) None by simp
    next
      case (Some x)
      then obtain i where i: "find_child n c = Some i" using find_child_kid [OF ok_node.hyps(1), of c] by (cases "find_child n c") auto
      have S: "set (leaves n) = rest n c \<union> set (leaves x)" using leaves_rest [OF ok_node.hyps(1), of c] Some by simp
      have at: "key \<notin> l_key ` rest n c" if k: "key \<in> l_key ` set (leaves x)"
      proof -
        obtain l where "l \<in> set (leaves x)" "l_key l = key" using k by blast
        then have "prefix (p @ q @ [c]) key" using leaf_below [OF ok_node.hyps(3) [OF Some]] by blast
        from rest_other_key [OF ok_node.hyps(3) this] show ?thesis .
      qed
      have no: "key \<notin> l_key ` rest n c" if "key \<notin> l_key ` set (leaves x)" using c(3) that S Some by fastforce
      have rest: "l_key l \<noteq> key" if "l \<in> rest n c" for l using at no that by blast
      show ?thesis
      proof (cases "leaf_of x")
        case (Some l)
        then have x: "x = Leaf l" by (simp add: leaf_of_Some)
        show ?thesis
        proof (cases "l_key l = key")
          case True
          obtain t where t: "remove_child n c i = Some t" "art_ok p t" "set (leaves t) = rest n c"
            using delete_leaf [OF ok_node.hyps, of c l] \<open>kid n c = Some x\<close> x i by (metis option.sel)
          have "{l' \<in> set (leaves n). l_key l' \<noteq> key} = rest n c" using rest S True x by auto
          then show ?thesis using t True False del c(1) \<open>kid n c = Some x\<close> x i S by (auto simp: deleted_at_def leaf_matches_iff)
        next
          case F: False
          then have "key \<notin> l_key ` set (leaves n)" using rest S x by auto
          then show ?thesis using deleted_none [OF art] F False del c(1) \<open>kid n c = Some x\<close> x by (simp add: leaf_matches_iff)
        qed
      next
        case None
        have "deleted_at (p @ q @ [c]) key (set (leaves x)) (recursive_delete x key (length (p @ q @ [c])))"
          by (rule ok_node.IH [OF \<open>kid n c = Some x\<close> None c(2) [OF \<open>kid n c = Some x\<close>]])
        then obtain t r where t: "recursive_delete x key (length (p @ q @ [c])) = Some (t, r)" "art_ok (p @ q @ [c]) t" "set (leaves t) = {l \<in> set (leaves x). l_key l \<noteq> key}"
          "r = None \<longleftrightarrow> key \<notin> l_key ` set (leaves x)" "\<forall>l. r = Some l \<longrightarrow> l \<in> set (leaves x) \<and> l_key l = key" unfolding deleted_at_def by blast
        have tn: "t \<noteq> Null" using t(2) by auto
        have n': "node_ok (set_child n i t)" "kid (set_child n i t) = (kid n)(c \<mapsto> t)" using put_kid [OF ok_node.hyps(1) i tn] by simp_all
        have a: "art_ok p (set_child n i t)"
          by (rule art_ok.ok_node [OF n'(1), of q]) (use ok_node.hyps(2) n'(2) ok_node.hyps(3) t(2) in \<open>auto simp: skips_def split: if_splits\<close>)
        have "set (leaves (set_child n i t)) = rest n c \<union> set (leaves t)" using leaves_rest [OF n'(1), of c] rest_upd [OF n'(2)] n'(2) by simp
        then have "set (leaves (set_child n i t)) = {l \<in> set (leaves n). l_key l \<noteq> key}" using rest S t(3) by auto
        moreover have "r = None \<longleftrightarrow> key \<notin> l_key ` set (leaves n)" using t(4) rest S by auto
        moreover have "\<forall>l. r = Some l \<longrightarrow> l \<in> set (leaves n) \<and> l_key l = key" using t(5) S by auto
        moreover have "recursive_delete n key (length p) = Some (set_child n i t, r)" unfolding del using False c(1) \<open>kid n c = Some x\<close> None i t(1) by auto
        ultimately show ?thesis unfolding deleted_at_def using a by blast
      qed
    qed
  qed
qed simp

section \<open>Iteration\<close>

lemma each_append: "each f (xs @ ys) d = (let (res, d) = each f xs d in if res \<noteq> 0 then (res, d) else each f ys d)"
  by (induction xs arbitrary: d) (auto split: prod.splits)

lemma each_concat: "(\<And>x d. x \<in> set xs \<Longrightarrow> g x d = each f (h x) d) \<Longrightarrow> each g xs d = each f (concat (map h xs)) d"
proof (induction xs arbitrary: d)
  case (Cons x xs)
  have "each g xs e = each f (concat (map h xs)) e" for e by (rule Cons.IH) (use Cons.prems in simp)
  then show ?case using Cons.prems [of x d] by (simp add: each_append split: prod.splits)
qed simp

lemma iter_leaves: "recursive_iter cb n d = each (\<lambda>l d. cb d (l_key l) (l_value l)) (leaves n) d"
proof (induction cb n d rule: recursive_iter.induct)
  case (1 cb n d)
  show ?case
  proof (cases "n = Null \<or> leaf_of n \<noteq> None")
    case True
    then show ?thesis by (auto simp: recursive_iter.simps leaf_of_Some split: prod.splits)
  next
    case False
    then have "each (recursive_iter cb) (visited n) d = each (\<lambda>l d. cb d (l_key l) (l_value l)) (concat (map leaves (visited n))) d"
      by (intro each_concat 1) simp_all
    then show ?thesis using False by (subst recursive_iter.simps, subst leaves.simps) simp
  qed
qed

lemma distinct_concat_map:
  "distinct ds \<Longrightarrow> (\<forall>c \<in> set ds. distinct (f c)) \<Longrightarrow> (\<forall>c \<in> set ds. \<forall>c' \<in> set ds. c \<noteq> c' \<longrightarrow> set (f c) \<inter> set (f c') = {}) \<Longrightarrow>
    distinct (concat (map f ds))"
proof (induction ds)
  case (Cons c ds)
  have "set (f c) \<inter> set (f c') = {}" if "c' \<in> set ds" for c' using Cons.prems that by (metis distinct.simps(2) list.set_intros)
  then have "set (f c) \<inter> set (concat (map f ds)) = {}" by auto
  then show ?case using Cons by simp
qed simp

lemma leaves_distinct: "art_ok p n \<Longrightarrow> distinct (map l_key (leaves n))"
proof (induction rule: art_ok.induct)
  case (ok_node n q p)
  have s: "node_shape n" "leaf_of n = None" "n \<noteq> Null" using node_okD [OF ok_node.hyps(1)] by simp_all
  obtain cs where cs: "distinct cs" "set cs = dom (kid n)" "visited n = map (\<lambda>c. the (kid n c)) cs" using visited_kids [OF s(1)] by blast
  have e: "map l_key (leaves n) = concat (map (\<lambda>c. map l_key (leaves (the (kid n c)))) cs)"
    using s cs(3) by (subst leaves.simps) (simp add: map_concat comp_def)
  have d: "distinct (map l_key (leaves (the (kid n c))))" if "c \<in> set cs" for c using that cs(2) ok_node.IH by auto
  have pre: "prefix ((p @ q) @ [c]) k" if "c \<in> set cs" "k \<in> set (map l_key (leaves (the (kid n c))))" for c k
  proof -
    have "kid n c = Some (the (kid n c))" using that(1) cs(2) by auto
    then show ?thesis using leaf_below [OF ok_node.hyps(3)] that(2) by auto
  qed
  have disj: "set (map l_key (leaves (the (kid n c)))) \<inter> set (map l_key (leaves (the (kid n c')))) = {}"
    if cc: "c \<in> set cs" "c' \<in> set cs" "c \<noteq> c'" for c c'
  proof (rule ccontr)
    assume "\<not> ?thesis"
    then obtain k where "prefix ((p @ q) @ [c]) k" "prefix ((p @ q) @ [c']) k" using pre [OF cc(1)] pre [OF cc(2)] by blast
    then show False using nth_opt_prefix [of "p @ q"] cc(3) by (metis option.inject)
  qed
  show ?case unfolding e by (rule distinct_concat_map [OF cs(1)]) (use d disj in blast)+
qed simp

end
