(* ===== verification/Art_Map.thy ===== *)
theory Art_Map
  imports Art_Update
begin

text \<open>
  The adaptive radix tree as a finite map from keys to values (\<open>art_rep\<close>): what insertion, search,
  deletion and iteration do to the map, and the inputs on which the code reads behind a key,
  visits wrong entries, or loses memory.
\<close>

section \<open>The tree as a map\<close>

definition art_rep :: "art_tree \<Rightarrow> (u8 list \<Rightarrow> ptr option) \<Rightarrow> bool" where
  "art_rep t m \<longleftrightarrow> finite (dom m) \<and> t_size t = of_nat (card (dom m)) \<and>
     (if t_root t = Null then m = Map.empty
      else art_ok [] (t_root t) \<and> (\<forall>k v. m k = Some v \<longleftrightarrow> make_leaf k v \<in> set (leaves (t_root t))))"

lemma make_leaf_eq [simp]: "make_leaf (l_key l) (l_value l) = l"
  by (simp add: make_leaf_def)

lemma make_leaf_sel [simp]: "l_key (make_leaf k v) = k" "l_value (make_leaf k v) = v"
  by (simp_all add: make_leaf_def)

lemma make_leaf_inj [simp]: "make_leaf k v = make_leaf k' v' \<longleftrightarrow> k = k' \<and> v = v'"
  by (auto simp: make_leaf_def)

lemma rep_leaves:
  assumes "art_rep t m"
  shows "l \<in> set (leaves (t_root t)) \<longleftrightarrow> m (l_key l) = Some (l_value l)"
  using assms make_leaf_eq [of l] by (auto simp: art_rep_def split: if_splits)

lemma rep_keys: "art_rep t m \<Longrightarrow> l_key ` set (leaves (t_root t)) = dom m"
  using rep_leaves [of t m] by (auto simp: image_iff) (metis make_leaf_sel)

lemma insert_map_step:
  assumes r: "art_rep t m" and k: "key_ok key" "\<forall>k \<in> dom m. k = key \<or> k \<parallel> key"
  shows "\<exists>t'. art_insert t key v = Some (case m key of Some w \<Rightarrow> w | None \<Rightarrow> None, t') \<and> art_rep t' (m(key \<mapsto> v))"
proof (cases "t_root t = Null")
  case True
  then have m: "m = Map.empty" using r by (simp add: art_rep_def)
  have "art_ok [] (Leaf (make_leaf key v))" using k(1) by (auto intro: ok_leaf)
  then have "art_rep (t\<lparr>t_root := Leaf (make_leaf key v), t_size := t_size t + 1\<rparr>) (m(key \<mapsto> v))" using r m by (auto simp: art_rep_def)
  then show ?thesis using True m by (simp add: art_insert_def recursive_insert.simps)
next
  case False
  let ?S = "set (leaves (t_root t))"
  have a: "art_ok [] (t_root t)" using r False by (simp add: art_rep_def)
  have "\<forall>l \<in> ?S. l_key l = key \<or> l_key l \<parallel> key" using k(2) rep_keys [OF r] by blast
  from insert_step [OF a Nil_prefix k(1) this, of v] obtain n old flag where n: "recursive_insert (t_root t) key v 0 = Some (n, old, flag)" "art_ok [] n"
    "set (leaves n) = insert (make_leaf key v) {l \<in> ?S. l_key l \<noteq> key}" "flag \<longleftrightarrow> key \<in> l_key ` ?S"
    "\<forall>l \<in> ?S. l_key l = key \<longrightarrow> old = l_value l" "\<not> flag \<longrightarrow> old = None" unfolding inserted_at_def by auto
  have flag: "flag \<longleftrightarrow> m key \<noteq> None" using n(4) rep_keys [OF r] by auto
  have old: "old = (case m key of Some w \<Rightarrow> w | None \<Rightarrow> None)"
  proof (cases "m key")
    case (Some w)
    then have "make_leaf key w \<in> ?S" using rep_leaves [OF r, of "make_leaf key w"] by simp
    then show ?thesis using n(5) Some by auto
  qed (use n(6) flag in simp)
  have "card (dom (m(key \<mapsto> v))) = (if m key \<noteq> None then card (dom m) else Suc (card (dom m)))"
    using r by (auto simp: art_rep_def insert_absorb domIff)
  then have sz: "(if \<not> flag then t_size t + 1 else t_size t) = of_nat (card (dom (m(key \<mapsto> v))))" using r flag by (simp add: art_rep_def)
  have "n \<noteq> Null" using n(2) by auto
  moreover have "(m(key \<mapsto> v)) k = Some w \<longleftrightarrow> make_leaf k w \<in> set (leaves n)" for k w
    unfolding n(3) using rep_leaves [OF r, of "make_leaf k w"] by auto
  ultimately have "art_rep (t\<lparr>t_root := n, t_size := (if \<not> flag then t_size t + 1 else t_size t)\<rparr>) (m(key \<mapsto> v))"
    using n(2) r sz by (simp add: art_rep_def)
  then show ?thesis using n(1) old by (simp add: art_insert_def)
qed

lemma search_map_step:
  assumes r: "art_rep t m" and b: "(\<forall>k \<in> dom m. length k \<le> length key) \<or> key \<in> dom m"
  shows "art_search t key = Some (case m key of Some w \<Rightarrow> w | None \<Rightarrow> None)"
proof (cases "t_root t = Null")
  case True
  then show ?thesis using r by (simp add: art_rep_def art_search_def search_from.simps)
next
  case False
  let ?S = "set (leaves (t_root t))"
  have a: "art_ok [] (t_root t)" using r False by (simp add: art_rep_def)
  have "(\<forall>l \<in> ?S. length (l_key l) \<le> length key) \<or> key \<in> l_key ` ?S" using b rep_keys [OF r] by blast
  from search_from_total [OF a this] obtain w where w: "search_from (t_root t) key 0 = Some w" by auto
  then have s: "(\<forall>l \<in> ?S. l_key l = key \<longrightarrow> w = l_value l) \<and> (key \<notin> l_key ` ?S \<longrightarrow> w = None)"
    using search_from_sound [OF a, of key w] by simp
  show ?thesis
  proof (cases "m key")
    case None
    then have "key \<notin> l_key ` ?S" using rep_keys [OF r] by auto
    then show ?thesis using s w None by (simp add: art_search_def)
  next
    case (Some v)
    then have "make_leaf key v \<in> ?S" using rep_leaves [OF r, of "make_leaf key v"] by simp
    then show ?thesis using s w Some by (auto simp: art_search_def)
  qed
qed

lemma delete_map_step:
  assumes r: "art_rep t m" and b: "(\<forall>k \<in> dom m. length k \<le> length key) \<or> key \<in> dom m"
  shows "\<exists>t'. art_delete t key = Some (case m key of Some w \<Rightarrow> w | None \<Rightarrow> None, t') \<and> art_rep t' (m(key := None))"
proof -
  let ?S = "set (leaves (t_root t))"
  have fin: "finite (dom m)" "t_size t = of_nat (card (dom m))" using r by (simp_all add: art_rep_def)
  have sz: "t_size t - 1 = of_nat (card (dom (m(key := None))))" if k: "m key \<noteq> None"
  proof -
    have "card (dom (m(key := None))) = card (dom m) - 1" using k by (simp add: domIff)
    moreover have "0 < card (dom m)" using fin(1) k by (auto simp: card_gt_0_iff)
    ultimately show ?thesis using fin(2) by (simp add: of_nat_diff)
  qed
  have same: "m key = None \<Longrightarrow> m(key := None) = m" by (simp add: fun_upd_idem)
  have in_map: "m (l_key l) = Some (l_value l) \<longleftrightarrow> l \<in> ?S" for l using rep_leaves [OF r] by simp
  show ?thesis
  proof (cases "leaf_of (t_root t) = None \<and> t_root t \<noteq> Null")
    case True
    have a: "art_ok [] (t_root t)" using r True by (simp add: art_rep_def)
    have "in_bounds key ?S" using b rep_keys [OF r] unfolding in_bounds_def by blast
    then have "deleted_at [] key ?S (recursive_delete (t_root t) key 0)" using delete_step [OF a] True by simp
    then obtain n l where n: "recursive_delete (t_root t) key 0 = Some (n, l)" "art_ok [] n" "set (leaves n) = {l \<in> ?S. l_key l \<noteq> key}"
      "l = None \<longleftrightarrow> key \<notin> l_key ` ?S" "\<forall>x. l = Some x \<longrightarrow> x \<in> ?S \<and> l_key x = key" unfolding deleted_at_def by blast
    have "n \<noteq> Null" using n(2) by auto
    moreover have "(m(key := None)) k = Some w \<longleftrightarrow> make_leaf k w \<in> set (leaves n)" for k w
      unfolding n(3) using in_map [of "make_leaf k w"] by auto
    ultimately have rep: "art_rep (t\<lparr>t_root := n, t_size := s\<rparr>) (m(key := None))" if "s = of_nat (card (dom (m(key := None))))" for s
      using n(2) fin that by (simp add: art_rep_def)
    show ?thesis
    proof (cases l)
      case None
      then have k: "m key = None" using n(4) rep_keys [OF r] by auto
      have "art_rep (t\<lparr>t_root := n, t_size := t_size t\<rparr>) (m(key := None))" by (rule rep) (simp add: fin(2) same [OF k])
      moreover have "t\<lparr>t_root := n, t_size := t_size t\<rparr> = t\<lparr>t_root := n\<rparr>" by simp
      ultimately have "art_rep (t\<lparr>t_root := n\<rparr>) (m(key := None))" by (simp only:)
      then show ?thesis using n(1) None k by (simp add: art_delete_def)
    next
      case (Some x)
      then have "m key = Some (l_value x)" using n(5) in_map [of x] by auto
      then show ?thesis using rep [OF sz] n(1) Some by (simp add: art_delete_def)
    qed
  next
    case False
    show ?thesis
    proof (cases "t_root t = Null")
      case True
      then show ?thesis using r same by (auto simp: art_rep_def art_delete_def recursive_delete.simps)
    next
      case F: False
      then obtain l where l: "t_root t = Leaf l" using False by (auto simp: leaf_of_Some)
      have m: "m = [l_key l \<mapsto> l_value l]"
      proof
        fix k
        show "m k = [l_key l \<mapsto> l_value l] k"
        proof (cases "m k")
          case None
          then show ?thesis using in_map [of l] l by auto
        next
          case (Some w)
          then have "make_leaf k w = l" using in_map [of "make_leaf k w"] l by simp
          then show ?thesis using Some by auto
        qed
      qed
      show ?thesis
      proof (cases "l_key l = key")
        case True
        then have "art_rep (t\<lparr>t_root := Null, t_size := t_size t - 1\<rparr>) (m(key := None))" using m fin by (auto simp: art_rep_def)
        then show ?thesis using True l m by (simp add: art_delete_def recursive_delete.simps leaf_matches_iff)
      next
        case F: False
        then have k: "m key = None" using m by auto
        have "t\<lparr>t_root := Leaf l\<rparr> = t" unfolding l [symmetric] by simp
        then have "art_delete t key = Some (None, t)" using F l by (simp add: art_delete_def recursive_delete.simps leaf_matches_iff)
        then show ?thesis using r k same [OF k] by simp
      qed
    qed
  qed
qed

definition empty_tree :: art_tree where
  "empty_tree = \<lparr>t_root = Null, t_size = 0\<rparr>"

lemma empty_tree_rep: "art_rep empty_tree Map.empty"
  by (simp add: art_rep_def empty_tree_def)

lemma two_keys:
  assumes "key_ok k1" "key_ok k2" "k1 \<parallel> k2"
  shows "\<exists>t. art_rep t [k1 \<mapsto> v1, k2 \<mapsto> v2]"
proof -
  obtain t1 where t1: "art_rep t1 [k1 \<mapsto> v1]" using insert_map_step [OF empty_tree_rep assms(1), of v1] by auto
  then show ?thesis using insert_map_step [OF t1 assms(2), of v2] assms(3) by auto
qed

text \<open>
  C5: art_insert into a tree that holds the map m, of a key that is not a proper prefix of a key
  of m nor the other way round: it returns the old value, the tree is well-formed again and
  holds m with the key set to the new value, its size is the number of keys, and the search
  finds the value.
\<close>

theorem art_insert_map:
  assumes "art_rep t m" "key_ok key" "\<forall>k \<in> dom m. k = key \<or> k \<parallel> key"
  shows "\<exists>t'. art_insert t key v = Some (case m key of Some w \<Rightarrow> w | None \<Rightarrow> None, t') \<and> art_rep t' (m(key \<mapsto> v)) \<and>
    art_size t' = of_nat (card (dom (m(key \<mapsto> v)))) \<and> art_search t' key = Some v"
proof -
  obtain t' where t': "art_insert t key v = Some (case m key of Some w \<Rightarrow> w | None \<Rightarrow> None, t')" "art_rep t' (m(key \<mapsto> v))"
    using insert_map_step [OF assms, of v] by blast
  have "art_search t' key = Some v" using search_map_step [OF t'(2), of key] by simp
  moreover have "art_size t' = of_nat (card (dom (m(key \<mapsto> v))))" using t'(2) by (simp add: art_rep_def art_size_def)
  ultimately show ?thesis using t' by blast
qed

theorem art_insert_map_witness:
  "\<exists>t'. art_insert empty_tree [97, 98] (Some 5) = Some (None, t') \<and> art_search t' [97, 98] = Some (Some 5)"
  using art_insert_map [OF empty_tree_rep, of "[97, 98]" "Some 5"] by (auto simp: key_ok_def)

text \<open>
  C7: art_search in a tree that holds the map m gives the value of the key, or the null pointer
  if there is none, for every key of the tree and every key at least as long as the keys of the
  tree.
\<close>

theorem art_search_map:
  assumes "art_rep t m" "(\<forall>k \<in> dom m. length k \<le> length key) \<or> key \<in> dom m"
  shows "art_search t key = Some (case m key of Some w \<Rightarrow> w | None \<Rightarrow> None)"
  using search_map_step [OF assms] .

theorem art_search_map_witness:
  "\<exists>t. art_rep t [[97, 98] \<mapsto> Some 5, [97, 99] \<mapsto> Some 6] \<and> art_search t [97, 99] = Some (Some 6) \<and> art_search t [97, 100] = Some None"
proof -
  have "[97, 98] \<parallel> [97, 99 :: u8]" by (simp add: parallel_def)
  then obtain t where t: "art_rep t [[97, 98] \<mapsto> Some 5, [97, 99] \<mapsto> Some 6]" using two_keys [of "[97, 98]" "[97, 99]"] by (auto simp: key_ok_def)
  then show ?thesis using art_search_map [OF t, of "[97, 99]"] art_search_map [OF t, of "[97, 100]"] by auto
qed

text \<open>
  C6: art_delete in a tree that holds the map m, under the condition on the key of the search:
  it returns the value the key had and leaves a well-formed tree that holds m without the key,
  and a second deletion finds nothing.
\<close>

theorem art_delete_map:
  assumes "art_rep t m" "(\<forall>k \<in> dom m. length k \<le> length key) \<or> key \<in> dom m"
  shows "\<exists>t'. art_delete t key = Some (case m key of Some w \<Rightarrow> w | None \<Rightarrow> None, t') \<and> art_rep t' (m(key := None)) \<and>
    ((\<forall>k \<in> dom m. length k \<le> length key) \<longrightarrow> (\<exists>t''. art_delete t' key = Some (None, t'')))"
proof -
  obtain t' where t': "art_delete t key = Some (case m key of Some w \<Rightarrow> w | None \<Rightarrow> None, t')" "art_rep t' (m(key := None))"
    using delete_map_step [OF assms] by blast
  have "\<exists>t''. art_delete t' key = Some (None, t'')" if "\<forall>k \<in> dom m. length k \<le> length key"
    using delete_map_step [OF t'(2), of key] that by auto
  then show ?thesis using t' by blast
qed

theorem art_delete_map_witness:
  "\<exists>t t'. art_rep t [[97, 98] \<mapsto> Some 5, [97, 99] \<mapsto> Some 6] \<and> art_delete t [97, 98] = Some (Some 5, t') \<and> art_rep t' [[97, 99] \<mapsto> Some 6]"
proof -
  have "[97, 98] \<parallel> [97, 99 :: u8]" by (simp add: parallel_def)
  then obtain t where t: "art_rep t [[97, 98] \<mapsto> Some 5, [97, 99] \<mapsto> Some 6]" using two_keys [of "[97, 98]" "[97, 99]"] by (auto simp: key_ok_def)
  have m: "[[97, 98] \<mapsto> Some 5, [97, 99] \<mapsto> Some 6]([97, 98] := None) = [[97, 99 :: u8] \<mapsto> Some 6]" by auto
  show ?thesis using art_delete_map [OF t, of "[97, 98]"] t unfolding m by auto
qed

text \<open>
  C33: art_iter calls the callback for the entries of the tree one after the other, every entry
  exactly once, until a call returns something other than zero, which it returns.
\<close>

theorem art_iter_once:
  assumes "art_rep t m"
  shows "\<exists>es. distinct (map fst es) \<and> set es = {(k, v). m k = Some v} \<and> art_iter t cb d = each (\<lambda>(k, v) d. cb d k v) es d"
proof -
  let ?es = "map (\<lambda>l. (l_key l, l_value l)) (leaves (t_root t))"
  have "distinct (map fst ?es)"
  proof (cases "t_root t = Null")
    case False
    then show ?thesis using leaves_distinct [of "[]" "t_root t"] assms by (simp add: art_rep_def comp_def)
  qed simp
  moreover have "set ?es = {(k, v). m k = Some v}"
  proof (intro set_eqI iffI)
    fix e assume "e \<in> {(k, v). m k = Some v}"
    then obtain k v where "e = (k, v)" "make_leaf k v \<in> set (leaves (t_root t))" using rep_leaves [OF assms, of "make_leaf (fst e) (snd e)"] by auto
    then show "e \<in> set ?es" by force
  qed (use rep_leaves [OF assms] in auto)
  moreover have "art_iter t cb d = each (\<lambda>(k, v) d. cb d k v) ?es d"
    unfolding art_iter_def iter_leaves using each_concat [of "leaves (t_root t)" "\<lambda>l d. cb d (l_key l) (l_value l)" "\<lambda>(k, v) d. cb d k v" "\<lambda>l. [(l_key l, l_value l)]" d]
    by (simp split: prod.splits)
  ultimately show ?thesis by blast
qed

theorem art_iter_once_witness:
  "\<exists>t es. distinct (map fst es) \<and> set es = {([97, 98 :: u8], Some 5), ([97, 99], Some (6 :: nat))} \<and>
    art_iter t (\<lambda>n k v. (0, Suc n)) 0 = each (\<lambda>(k, v) d. (0, Suc d)) es 0"
proof -
  have "[97, 98] \<parallel> [97, 99 :: u8]" by (simp add: parallel_def)
  then obtain t where t: "art_rep t [[97, 98] \<mapsto> Some 5, [97, 99] \<mapsto> Some 6]" using two_keys [of "[97, 98]" "[97, 99]"] by (auto simp: key_ok_def)
  have "{(k, v). [[97, 98 :: u8] \<mapsto> Some 5, [97, 99] \<mapsto> Some 6] k = Some v} = {([97, 98], Some 5), ([97, 99], Some (6 :: nat))}" by (auto split: if_splits)
  then show ?thesis using art_iter_once [OF t, of "\<lambda>n k v. (0, Suc n)" 0] by auto
qed

lemma node_two_kids:
  assumes "node_ok n"
  shows "\<exists>c d x y. c \<noteq> d \<and> kid n c = Some x \<and> kid n d = Some y"
proof -
  have "2 \<le> card (dom (kid n))" using assms by (cases n; simp add: node_ok_def)
  then obtain c d where "c \<in> dom (kid n)" "d \<in> dom (kid n)" "c \<noteq> d"
    by (metis card_2_iff' One_nat_def Suc_1 card_le_Suc0_iff_eq finite_dom_u8 not_less_eq_eq)
  then show ?thesis by blast
qed

lemma prefix_diverge:
  assumes "prefix (xs @ [b]) k" "prefix (xs @ [c]) l" "b \<noteq> c" "prefix q k" "prefix q l"
  shows "prefix q xs"
proof (rule ccontr)
  assume "\<not> prefix q xs"
  moreover have "prefix xs k" using assms(1) by (rule append_prefixD)
  ultimately have "length xs < length q" using prefix_length_prefix [OF assms(4)] by (meson not_le)
  then have "prefix (xs @ [b]) q" "prefix (xs @ [c]) q" using prefix_length_prefix [OF assms(1,4)] prefix_length_prefix [OF assms(2,5)] by simp_all
  then show False using nth_opt_prefix [of xs b q] nth_opt_prefix [of xs c q] assms(3) by simp
qed

text \<open>The bytes the root skips are the longest common prefix of the keys.\<close>

lemma root_skips:
  assumes r: "art_rep t m" and k: "q @ b # r1 \<in> dom m" "q @ c # r2 \<in> dom m" "b \<noteq> c" "\<forall>k \<in> dom m. prefix q k"
  shows "node_ok (t_root t) \<and> skips (t_root t) q"
proof -
  let ?n = "t_root t" and ?S = "set (leaves (t_root t))"
  have S: "l_key ` ?S = dom m" by (rule rep_keys [OF r])
  have a: "art_ok [] ?n" using r k(1) by (auto simp: art_rep_def split: if_splits)
  have lo: "leaf_of ?n = None"
  proof (rule ccontr)
    assume "leaf_of ?n \<noteq> None"
    then obtain l where "?n = Leaf l" by (auto simp: leaf_of_Some)
    then have "dom m = {l_key l}" using S by simp
    then have "q @ b # r1 = q @ c # r2" using k(1,2) by (metis singletonD)
    then show False using k(3) by simp
  qed
  obtain u where u: "node_ok ?n" "skips ?n u" "\<And>c x. kid ?n c = Some x \<Longrightarrow> art_ok ([] @ u @ [c]) x" using ok_nodeE [OF a lo] by blast
  obtain c1 c2 x1 x2 where kk: "c1 \<noteq> c2" "kid ?n c1 = Some x1" "kid ?n c2 = Some x2" using node_two_kids [OF u(1)] by blast
  have key: "\<exists>k \<in> dom m. prefix (u @ [d]) k" if dx: "kid ?n d = Some x" for d x
  proof -
    obtain l where l: "l \<in> set (leaves x)" using leaves_nonempty [OF u(3) [OF dx]] by (metis ex_in_conv)
    then have "prefix (u @ [d]) (l_key l)" using leaf_below [OF u(3) [OF dx] l] by simp
    then show ?thesis using kid_leaves [OF u(1) dx] l S by blast
  qed
  obtain k1 k2 where k12: "k1 \<in> dom m" "prefix (u @ [c1]) k1" "k2 \<in> dom m" "prefix (u @ [c2]) k2" using key [OF kk(2)] key [OF kk(3)] by blast
  have "prefix q u" by (rule prefix_diverge [OF k12(2,4) kk(1) bspec [OF k(4) k12(1)] bspec [OF k(4) k12(3)]])
  moreover have "prefix u k" if km: "k \<in> dom m" for k
  proof -
    have "k \<in> l_key ` ?S" using km S by simp
    then obtain l where l: "l \<in> ?S" "l_key l = k" by (elim imageE) simp
    obtain d where "prefix ([] @ u @ [d]) (l_key l)" using leaf_in_kid [OF u(1) l(1) u(3)] by blast
    then show ?thesis unfolding l(2) append_Nil by (rule append_prefixD)
  qed
  from this [OF k(1)] this [OF k(2)] have "prefix u q" by (intro prefix_diverge [of q b "q @ b # r1" c "q @ c # r2" u, OF _ _ k(3)]) simp_all
  ultimately have "u = q" by (simp add: prefix_order.eq_iff)
  then show ?thesis using u(1,2) by simp
qed

text \<open>
  C34: when the keys of the tree have a longest common prefix q of more than ten bytes, the search
  for a key that is shorter, but has ten bytes or more in common with q, reads behind the end
  of the key.
\<close>

theorem art_search_overread:
  assumes "art_rep t m" "q @ b # r1 \<in> dom m" "q @ c # r2 \<in> dom m" "b \<noteq> c" "\<forall>k \<in> dom m. prefix q k"
    and "MAX_PREFIX_LEN < length q" "prefix key q" "MAX_PREFIX_LEN \<le> length key"
  shows "art_search t key = None"
proof -
  have n: "node_ok (t_root t)" "skips (t_root t) q" using root_skips [OF assms(1-5)] by simp_all
  obtain s where s: "q = key @ s" using assms(7) by (auto simp: prefix_def)
  have "first_from 0 MAX_PREFIX_LEN (\<lambda>idx. partial (hdr (t_root t)) ! idx \<noteq> key ! idx) = max 0 MAX_PREFIX_LEN"
    by (rule first_from_all) (use skips_nth [OF n(2)] s assms(6,8) in \<open>simp add: nth_append\<close>)
  then have "check_prefix (hdr (t_root t)) key (length []) = min MAX_PREFIX_LEN (length q)"
    using n(2) assms(6,8) by (simp add: check_prefix_def Let_def skips_def min_absorb1 min_absorb2)
  then show ?thesis using s unfolding art_search_def using search_node [OF n, of key "[]"] by (simp add: nth_opt_def)
qed

theorem art_search_overread_witness:
  "\<exists>t. art_rep t [replicate 12 97 @ [98] \<mapsto> Some 5, replicate 12 97 @ [99] \<mapsto> Some 6] \<and> art_search t (replicate 11 97) = None"
proof -
  let ?k1 = "replicate 12 97 @ [98 :: u8]" and ?k2 = "replicate 12 97 @ [99 :: u8]"
  have "?k1 \<parallel> ?k2" by (simp add: parallel_def)
  then obtain t where t: "art_rep t [?k1 \<mapsto> Some 5, ?k2 \<mapsto> Some 6]" using two_keys [of ?k1 ?k2] by (auto simp: key_ok_def)
  have "prefix (replicate 11 97) (replicate 12 (97 :: u8))" by (simp add: prefix_def eval_nat_numeral)
  then show ?thesis using art_search_overread [OF t, of "replicate 12 97" 98 "[]" 99 "[]" "replicate 11 97"] t by (auto simp: MAX_PREFIX_LEN_def)
qed

text \<open>
  art_insert of a key that is a proper prefix of the only key of the tree, or that the only
  key is a proper prefix of, reads behind the end of the shorter key: the tree holds sets of
  keys only of which none is a prefix of another.
\<close>

theorem art_insert_prefix_overread:
  assumes "t_root t = Leaf l" "strict_prefix key (l_key l) \<or> strict_prefix (l_key l) key"
  shows "art_insert t key v = None"
proof -
  obtain c s where d: "l_key l = key @ c # s \<or> key = l_key l @ c # s"
    using assms(2) by (auto elim!: strict_prefixE')
  let ?short = "min (length (l_key l)) (length key)"
  have "l_key l ! i = key ! i" if "i < ?short" for i using d that by (auto simp: nth_append)
  then have "first_from 0 (?short - 0) (\<lambda>idx. l_key l ! (0 + idx) \<noteq> key ! (0 + idx)) = max 0 ?short" using first_from_all [of 0 ?short] by simp
  then have lp: "longest_common_prefix l (make_leaf key v) 0 = ?short" by (simp add: longest_common_prefix_def)
  have no: "nth_opt (l_key l) ?short = None \<or> nth_opt key ?short = None" using d by (auto simp: nth_opt_def)
  have "split_leaf l key v 0 = None"
    using no by (auto simp: split_leaf_def lp Let_def Option.bind_eq_None_conv simp del: add_child4.simps set_hdr.simps)
  moreover have "l_key l \<noteq> key" using d by auto
  ultimately show ?thesis using assms(1) by (simp add: art_insert_def recursive_insert.simps leaf_matches_iff)
qed

theorem art_insert_prefix_overread_witness:
  "\<exists>t'. art_insert empty_tree [97, 98] (Some 5) = Some (None, t') \<and> art_insert t' [97] (Some 6) = None"
proof -
  have i: "art_insert empty_tree [97, 98] (Some 5) = Some (None, \<lparr>t_root = Leaf (make_leaf [97, 98] (Some 5)), t_size = 1\<rparr>)"
    by (simp add: art_insert_def recursive_insert.simps empty_tree_def)
  have "art_insert \<lparr>t_root = Leaf (make_leaf [97, 98] (Some 5)), t_size = 1\<rparr> [97] (Some 6) = None"
    by (rule art_insert_prefix_overread) (auto simp: strict_prefix_def)
  then show ?thesis using i by blast
qed

primrec build :: "u8 list list \<Rightarrow> art_tree option" where
  "build [] = Some empty_tree"
| "build (k # ks) = do { t \<leftarrow> build ks; (_, t) \<leftarrow> art_insert t k (Some 0); Some t }"

text \<open>
  art_iter_prefix is to visit the keys that start with the given bytes. It descends through a
  node although only a part of the prefix of the node matches, and then takes a match in a node
  below for a match of the whole: here it visits two keys that start with 1 2 for a prefix that
  starts with 1 9.
\<close>

theorem art_iter_prefix_wrong:
  "do { t \<leftarrow> build [[1, 2, 3, 4, 7, 0], [1, 2, 3, 4, 7, 1], [1, 2, 5]]; art_iter_prefix t [1, 9, 3, 4, 7] (\<lambda>d k v. (0, k # d)) [] } =
    Some (0, [[1, 2, 3, 4, 7, 1], [1, 2, 3, 4, 7, 0]])"
  by code_simp

text \<open>
  art_tree_destroy misses children of a NODE48 that has lost one: seventeen keys are inserted and
  one is deleted, but of the sixteen leaves left only fifteen are freed.
\<close>

theorem art_destroy_leak:
  "do { t \<leftarrow> build (map (\<lambda>i. [of_nat i]) [0..<17]); (_, t) \<leftarrow> art_delete t [1]; Some (art_size t, length (filter (\<lambda>x. leaf_of x \<noteq> None) (snd (art_tree_destroy t)))) } =
    Some (16, 15)"
  by code_simp

end
