(* ===== verification/Chksum.thy ===== *)
theory Chksum
  imports Aware_Prelude
begin

text \<open>
  al_chksum.c: the Internet checksum. A buffer is the list of its bytes together with the
  alignment of its first byte (\<open>is_odd\<close>: the address is odd); a packet is the list of its buffers.
  Sixteen-bit loads are little-endian. The lemmas show the sums equal to the number the bytes
  form, modulo 65535.
\<close>

section \<open>Operations\<close>

definition le16 :: "u8 \<Rightarrow> u8 \<Rightarrow> u16" where
  "le16 b0 b1 = ucast b0 OR push_bit 8 (ucast b1)"

definition SWAP_BYTES_IN_WORD :: "u32 \<Rightarrow> u32" where
  "SWAP_BYTES_IN_WORD w = ucast (bswap16 (ucast w))"

definition FOLD_U32T :: "u32 \<Rightarrow> u32" where
  "FOLD_U32T u = drop_bit 16 u + (u AND 0x0000ffff)"

text \<open>The loop that adds two bytes at a time; what is left over is returned.\<close>

fun sum_words :: "u8 list \<Rightarrow> u32 \<Rightarrow> u32 \<times> u8 list" where
  "sum_words (b0 # b1 # bs) acc = sum_words bs (acc + ucast (le16 b0 b1))"
| "sum_words bs acc = (acc, bs)"

definition chksum :: "u8 list \<Rightarrow> u32" where
  "chksum dataptr =
     (let (acc, rest) = sum_words dataptr 0
      in if rest \<noteq> [] then acc + ucast (bswap16 (push_bit 8 (ucast (hd dataptr)))) else acc)"

text \<open>\<open>while (acc >> 16) acc = (acc & 0xffff) + (acc >> 16)\<close>\<close>

lemma low16_unat: "unat (u AND 0xffff) = unat u mod 65536" for u :: u32
proof -
  have "u AND 0xffff = take_bit 16 u" by (simp add: take_bit_eq_mask mask_eq_exp_minus_1)
  then show ?thesis by (simp add: take_bit_eq_mod unat_mod)
qed

lemma FOLD_unat: "unat (FOLD_U32T u) = unat u div 65536 + unat u mod 65536"
proof -
  have "unat (drop_bit 16 u) = unat u div 65536" by (simp add: drop_bit_eq_div unat_div)
  moreover note low16_unat [of u]
  moreover have "unat u < 2 ^ LENGTH(32)" by (rule unsigned_less)
  then have "unat u div 65536 < 65536" by simp
  ultimately show ?thesis
    by (simp add: FOLD_U32T_def unat_word_ariths)
qed

function fold_loop :: "u32 \<Rightarrow> u32" where
  "fold_loop acc = (if drop_bit 16 acc \<noteq> 0 then fold_loop ((acc AND 0xffff) + drop_bit 16 acc) else acc)"
  by pat_completeness auto

termination fold_loop
proof (relation "measure unat")
  fix acc :: u32
  assume "drop_bit 16 acc \<noteq> 0"
  then have "unat acc div 65536 \<noteq> 0" by (simp add: drop_bit_eq_div unat_div flip: unat_eq_0)
  moreover have "unat acc = 65536 * (unat acc div 65536) + unat acc mod 65536" by simp
  ultimately have "unat (FOLD_U32T acc) < unat acc" unfolding FOLD_unat by linarith
  then show "((acc AND 0xffff) + drop_bit 16 acc, acc) \<in> measure unat"
    by (simp add: FOLD_U32T_def add.commute)
qed simp

declare fold_loop.simps [simp del]

text \<open>
  inet6_chksum_pseudo: the loop over the buffers carries the sum, the flag \<open>swapped\<close> and the
  offset. The length passed to chksum is a \<open>uint16_t\<close>: an offset past the end of the buffer
  would make it wrap around and chksum read outside, \<open>None\<close>. \<open>add_addrs\<close> is the loop over the
  eight words of the two addresses.
\<close>

fun chain6 :: "u8 list list \<Rightarrow> nat \<Rightarrow> u32 \<Rightarrow> bool \<Rightarrow> (u32 \<times> bool) option" where
  "chain6 [] boff acc swapped = Some (acc, swapped)"
| "chain6 (q # qs) boff acc swapped =
     (if boff > length q then None
      else let acc1 = fold_loop (acc + chksum (drop boff q))
           in if length q mod 2 \<noteq> 0
              then chain6 qs 0 (push_bit 8 (acc1 AND 0xff) OR drop_bit 8 (acc1 AND 0xff00)) (\<not> swapped)
              else chain6 qs 0 acc1 swapped)"

fun add_addrs :: "u16 list \<Rightarrow> u16 list \<Rightarrow> u32 \<Rightarrow> u32" where
  "add_addrs (s # ss) (d # ds) acc = add_addrs ss ds (fold_loop (acc + (ucast s AND 0xffff) + (ucast d AND 0xffff)))"
| "add_addrs _ _ acc = acc"

definition inet6_chksum_pseudo :: "u8 list list \<Rightarrow> nat \<Rightarrow> u16 list \<Rightarrow> u16 list \<Rightarrow> u8 \<Rightarrow> u32 \<Rightarrow> u16 option" where
  "inet6_chksum_pseudo p boff src dest proto proto_len =
     do {
       (acc, swapped) \<leftarrow> chain6 p boff 0 False;
       let acc1 = (if swapped then push_bit 8 (acc AND 0xff) OR drop_bit 8 (acc AND 0xff00) else acc);
       let acc2 = add_addrs src dest acc1;
       let acc3 = acc2 + ucast (bswap16 (ucast proto)) + (proto_len AND 0xffff) + (drop_bit 16 proto_len AND 0xffff);
       Some (ucast (NOT (fold_loop acc3 AND 0xffff)))
     }"

definition lwip_standard_chksum :: "bool \<Rightarrow> u8 list \<Rightarrow> u16" where
  "lwip_standard_chksum is_odd dataptr =
     (let (t1, pb) = (if is_odd \<and> dataptr \<noteq> [] then (hd dataptr, tl dataptr) else (0, dataptr));
          (sum, rest) = sum_words pb 0;
          t0 = (if rest \<noteq> [] then hd rest else 0);
          sum = sum + ucast (le16 t0 t1);
          sum = FOLD_U32T sum;
          sum = FOLD_U32T sum;
          sum = (if is_odd then SWAP_BYTES_IN_WORD sum else sum)
      in ucast sum)"

definition inet_chksum :: "bool \<Rightarrow> u8 list \<Rightarrow> u16" where
  "inet_chksum is_odd dataptr = NOT (lwip_standard_chksum is_odd dataptr)"

text \<open>
  inet_chksum_pseudo: the buffers with the alignment of their data; the data summed starts
  \<open>boff\<close> bytes further.
\<close>

fun chain4 :: "(bool \<times> u8 list) list \<Rightarrow> nat \<Rightarrow> u32 \<Rightarrow> bool \<Rightarrow> u32 \<times> bool" where
  "chain4 [] boff acc swapped = (acc, swapped)"
| "chain4 ((is_odd, q) # qs) boff acc swapped =
     (let acc1 = FOLD_U32T (acc + ucast (lwip_standard_chksum (is_odd \<noteq> (boff mod 2 = 1)) (drop boff q)))
      in if (int (length q) - int boff) mod 2 \<noteq> 0
         then chain4 qs 0 (SWAP_BYTES_IN_WORD acc1) (\<not> swapped)
         else chain4 qs 0 acc1 swapped)"

definition inet_chksum_pseudo :: "(bool \<times> u8 list) list \<Rightarrow> nat \<Rightarrow> u32 \<Rightarrow> u32 \<Rightarrow> u8 \<Rightarrow> u16 \<Rightarrow> u16" where
  "inet_chksum_pseudo p boff src dest proto proto_len =
     (let (acc, swapped) = chain4 p boff 0 False;
          acc = (if swapped then SWAP_BYTES_IN_WORD acc else acc);
          acc = acc + (src AND 0xffff);
          acc = acc + (drop_bit 16 src AND 0xffff);
          acc = acc + (dest AND 0xffff);
          acc = acc + (drop_bit 16 dest AND 0xffff);
          acc = acc + ucast (bswap16 (ucast proto));
          acc = acc + ucast (bswap16 proto_len);
          acc = FOLD_U32T acc;
          acc = FOLD_U32T acc
      in ucast (NOT (acc AND 0xffff)))"

section \<open>One's complement sums\<close>

text \<open>
  \<open>csum x n\<close>: the sum \<open>x\<close> stands for \<open>n\<close> modulo 65535, and is 0 only for 0. \<open>le_nat\<close> is the
  number the bytes form, the first byte lowest; \<open>canon n\<close> is the one sixteen-bit sum that stands
  for \<open>n\<close>.
\<close>

definition csum :: "nat \<Rightarrow> nat \<Rightarrow> bool" where
  "csum x n \<longleftrightarrow> x mod 65535 = n mod 65535 \<and> (x = 0 \<longleftrightarrow> n = 0)"

fun le_nat :: "u8 list \<Rightarrow> nat" where
  "le_nat [] = 0"
| "le_nat (b # bs) = unat b + 256 * le_nat bs"

definition canon :: "nat \<Rightarrow> nat" where
  "canon n = (if n = 0 then 0 else (n - 1) mod 65535 + 1)"

lemma csum_refl [simp]: "csum n n"
  by (simp add: csum_def)

lemma csum_add: "csum x n \<Longrightarrow> csum y m \<Longrightarrow> csum (x + y) (n + m)"
  by (auto simp: csum_def intro: mod_add_cong)

lemma csum_65536: "csum x (65536 * n) \<longleftrightarrow> csum x n"
proof -
  have "65536 * n = n + 65535 * n" by simp
  then have "65536 * n mod 65535 = n mod 65535" by (metis mod_mult_self2)
  then show ?thesis by (simp add: csum_def)
qed

lemma csum_65536_add: "csum x (m + 65536 * n) \<longleftrightarrow> csum x (m + n)"
proof -
  have "m + 65536 * n = (m + n) + 65535 * n" by simp
  then have "(m + 65536 * n) mod 65535 = (m + n) mod 65535" by (metis mod_mult_self2)
  then show ?thesis by (simp add: csum_def)
qed

lemma csum_trans: "csum x n \<Longrightarrow> csum n m \<Longrightarrow> csum x m"
  by (simp add: csum_def)

lemma csum_sym: "csum x n \<Longrightarrow> csum n x"
  by (auto simp: csum_def)

lemma csum_mult: "csum x n \<Longrightarrow> 0 < k \<Longrightarrow> csum (k * x) (k * n)"
  unfolding csum_def by (auto intro: mod_mult_cong)

lemma csum_canon:
  assumes "csum x n" "x \<le> 65535"
  shows "x = canon n"
proof (cases "n = 0")
  case False
  with assms have x: "0 < x" by (simp add: csum_def)
  have "int x mod 65535 = int n mod 65535"
    using assms(1) unfolding csum_def by (metis of_nat_mod of_nat_numeral)
  then have "(int x - 1) mod 65535 = (int n - 1) mod 65535" by (rule mod_diff_cong) simp
  then have "int ((x - 1) mod 65535) = int ((n - 1) mod 65535)"
    using x False by (simp add: zmod_int of_nat_diff)
  then have "(x - 1) mod 65535 = (n - 1) mod 65535" by (simp only: of_nat_eq_iff)
  moreover have "(x - 1) mod 65535 = x - 1" using x assms(2) by (intro mod_less) linarith
  ultimately have "x = (n - 1) mod 65535 + 1" using x by linarith
  then show ?thesis using False by (simp only: canon_def if_False)
qed (use assms in \<open>simp add: csum_def canon_def\<close>)

section \<open>The arithmetic of the loads and folds\<close>

lemma le16_unat: "unat (le16 b0 b1) = unat b0 + 256 * unat b1"
proof -
  have "le16 b0 b1 = ucast b0 + push_bit 8 (ucast b1)"
    unfolding le16_def by (rule disjunctive_add [symmetric]) (auto simp: bit_simps dest: bit_imp_le_length)
  also have "\<dots> = ucast b0 + 256 * ucast b1" by (simp add: push_bit_eq_mult mult.commute)
  finally show ?thesis
    using unat_u8_less [of b0] unat_u8_less [of b1] by (simp add: unat_word_ariths unsigned_ucast_eq take_bit_eq_mod)
qed

lemma le16_split: "w = le16 (ucast w) (ucast (drop_bit 8 w))"
  unfolding le16_def by (rule bit_word_eqI) (auto simp: bit_simps)

lemma bswap_le16: "bswap16 (le16 a b) = le16 b a"
  unfolding le16_def bswap16_def by (rule bit_word_eqI) (auto simp: bit_simps dest: bit_imp_le_length)

lemma csum_bswap: "csum (unat w) n \<Longrightarrow> csum (unat (bswap16 w)) (256 * n)"
proof -
  obtain a b where w: "w = le16 a b" using le16_split by blast
  assume "csum (unat w) n"
  then have "csum (256 * unat w) (256 * n)" by (rule csum_mult) simp
  moreover have "csum (unat b + 256 * unat a) (256 * unat w)"
    using csum_65536_add [of "unat b + 256 * unat a" "256 * unat a" "unat b"]
    by (simp add: w le16_unat add.commute mult.assoc [symmetric])
  ultimately show ?thesis unfolding w bswap_le16 le16_unat using csum_trans by blast
qed

lemma csum_FOLD: "csum (unat u) n \<Longrightarrow> csum (unat (FOLD_U32T u)) n"
proof -
  have "unat u = unat u mod 65536 + 65536 * (unat u div 65536)" by simp
  then have "csum (unat (FOLD_U32T u)) (unat u)"
    using csum_65536_add [of "unat (FOLD_U32T u)" "unat u mod 65536" "unat u div 65536"]
    by (simp add: FOLD_unat add.commute)
  then show "csum (unat u) n \<Longrightarrow> csum (unat (FOLD_U32T u)) n" by (rule csum_trans)
qed

lemma u32_less: "unat u < 4294967296" for u :: u32
  using unsigned_less [of u] by simp

lemma u16_less: "unat w < 65536" for w :: u16
  using unsigned_less [of w] by simp

lemma FOLD_le: "unat u \<le> 131070 \<Longrightarrow> unat (FOLD_U32T u) \<le> 65535"
proof -
  let ?q = "unat u div 65536"
  assume "unat u \<le> 131070"
  moreover from this have "?q = 0 \<or> ?q = 1" by linarith
  moreover have "unat u = 65536 * ?q + unat u mod 65536" "unat u mod 65536 < 65536" by simp_all
  ultimately show ?thesis unfolding FOLD_unat by linarith
qed

lemma FOLD_FOLD_le: "unat (FOLD_U32T (FOLD_U32T u)) \<le> 65535"
  using u32_less [of u] by (intro FOLD_le) (simp only: FOLD_unat; linarith)

lemma ucast16_unat: "unat u \<le> 65535 \<Longrightarrow> unat (ucast u :: u16) = unat u" for u :: u32
  by (simp add: take_bit_eq_mod unsigned_ucast_eq)

lemma ucast32_unat [simp]: "unat (ucast w :: u32) = unat w" for w :: u16
  using u16_less [of w] by (simp add: unsigned_ucast_eq take_bit_eq_mod)

section \<open>The sums\<close>

lemma sum_words_csum:
  assumes "sum_words bs acc = (acc', rest)" "unat acc + 65535 * (length bs div 2) < 4294967296"
  shows "csum (unat acc' + le_nat rest) (unat acc + le_nat bs) \<and> length rest = length bs mod 2 \<and>
    unat acc' \<le> unat acc + 65535 * (length bs div 2) \<and> (rest \<noteq> [] \<longrightarrow> rest = [last bs])"
  using assms
proof (induction bs acc arbitrary: acc' rest rule: sum_words.induct)
  case (1 b0 b1 bs acc)
  let ?w = "le16 b0 b1"
  have w: "unat ?w \<le> 65535" using u16_less [of ?w] by linarith
  have add: "unat (acc + ucast ?w) = unat acc + unat ?w"
    using "1.prems"(2) w by (subst unat_add_lem [THEN iffD1]) auto
  then have IH: "csum (unat acc' + le_nat rest) (unat acc + unat ?w + le_nat bs)" "length rest = length bs mod 2"
    "unat acc' \<le> unat acc + unat ?w + 65535 * (length bs div 2)" "rest \<noteq> [] \<longrightarrow> rest = [last bs]"
    using "1.IH" [of acc' rest] "1.prems" w by auto
  have "csum (unat acc' + le_nat rest) (unat acc + le_nat (b0 # b1 # bs))"
    using IH(1) csum_65536_add [of "unat acc' + le_nat rest" "unat acc + unat ?w" "le_nat bs"]
    by (simp add: le16_unat algebra_simps)
  moreover have "rest \<noteq> [] \<longrightarrow> rest = [last (b0 # b1 # bs)]" using IH(2,4) by (cases bs) auto
  ultimately show ?case using IH(2,3) w by simp
qed auto

lemma unat_add_small: "unat a + unat b < 4294967296 \<Longrightarrow> unat (a + b) = unat a + unat b" for a b :: u32
  by (simp add: unat_word_ariths)

lemma lwip_core:
  assumes "length pb \<le> 0x20000" "sum_words pb 0 = (acc, rest)"
  shows "csum (unat (FOLD_U32T (FOLD_U32T (acc + ucast (le16 (if rest \<noteq> [] then hd rest else 0) t1)))))
    (le_nat pb + 256 * unat t1)"
proof -
  let ?t = "le16 (if rest \<noteq> [] then hd rest else 0) t1"
  have len: "length pb div 2 \<le> 65536" using assms(1) by linarith
  then have s: "csum (unat acc + le_nat rest) (le_nat pb)" "length rest = length pb mod 2"
    "unat acc \<le> 65535 * (length pb div 2)"
    using sum_words_csum [OF assms(2)] by auto
  have "length rest \<le> 1" using s(2) by linarith
  then have rest: "le_nat rest = unat (if rest \<noteq> [] then hd rest else 0)" by (cases rest) auto
  have "unat ?t < 65536" by (rule u16_less)
  then have "unat acc + unat ?t < 4294967296" using s(3) len by linarith
  then have "unat (acc + ucast ?t) = unat acc + unat ?t"
    using unat_add_small [of acc "ucast ?t"] by (simp only: ucast32_unat)
  then have "csum (unat (acc + ucast ?t)) (le_nat pb + 256 * unat t1)"
    using csum_add [OF s(1) csum_refl [of "256 * unat t1"]] rest by (simp add: le16_unat add.assoc)
  then show ?thesis by (intro csum_FOLD)
qed

lemma SWAP_unat: "unat (SWAP_BYTES_IN_WORD u) = unat (bswap16 (ucast u))"
  by (simp add: SWAP_BYTES_IN_WORD_def)

lemma csum_SWAP: "unat u \<le> 65535 \<Longrightarrow> csum (unat u) n \<Longrightarrow> csum (unat (SWAP_BYTES_IN_WORD u)) (256 * n)"
  unfolding SWAP_unat by (rule csum_bswap) (simp add: ucast16_unat)

lemma SWAP_le: "unat (SWAP_BYTES_IN_WORD u) \<le> 65535"
  using u16_less [of "bswap16 (ucast u)"] by (simp add: SWAP_unat)

lemma lwip_csum:
  assumes "length dataptr \<le> 0x20000"
  shows "csum (unat (lwip_standard_chksum is_odd dataptr)) (le_nat dataptr)"
proof (cases "is_odd \<and> dataptr \<noteq> []")
  case True
  then obtain b bs where d: "dataptr = b # bs" by (cases dataptr) auto
  obtain acc rest where sr: "sum_words bs 0 = (acc, rest)" by (cases "sum_words bs 0")
  let ?u = "FOLD_U32T (FOLD_U32T (acc + ucast (le16 (if rest \<noteq> [] then hd rest else 0) b)))"
  have "csum (unat (SWAP_BYTES_IN_WORD ?u)) (256 * (le_nat bs + 256 * unat b))"
    using lwip_core [OF _ sr, of b] assms d by (intro csum_SWAP FOLD_FOLD_le) simp
  then have "csum (unat (SWAP_BYTES_IN_WORD ?u)) (unat b + 256 * le_nat bs)"
    using csum_65536_add [of "unat (SWAP_BYTES_IN_WORD ?u)" "256 * le_nat bs" "unat b"]
    by (simp add: algebra_simps)
  then show ?thesis
    using True SWAP_le [of ?u] by (simp add: lwip_standard_chksum_def d sr Let_def ucast16_unat)
next
  case False
  obtain acc rest where sr: "sum_words dataptr 0 = (acc, rest)" by (cases "sum_words dataptr 0")
  let ?u = "FOLD_U32T (FOLD_U32T (acc + ucast (le16 (if rest \<noteq> [] then hd rest else 0) 0)))"
  have u: "csum (unat ?u) (le_nat dataptr)" "unat ?u \<le> 65535"
    using lwip_core [OF assms sr, of 0] FOLD_FOLD_le by simp_all
  show ?thesis
  proof (cases is_odd)
    case True
    with False have "dataptr = []" by simp
    then show ?thesis
      using csum_SWAP [OF u(2,1)] SWAP_le [of ?u] True sr
      by (simp add: lwip_standard_chksum_def Let_def ucast16_unat)
  qed (use u sr in \<open>simp add: lwip_standard_chksum_def Let_def ucast16_unat\<close>)
qed

lemma canon_less: "canon n < 65536"
  by (simp add: canon_def)

text \<open>The sum of a buffer does not depend on its alignment.\<close>

lemma lwip_canon:
  assumes "length dataptr \<le> 0x20000"
  shows "unat (lwip_standard_chksum is_odd dataptr) = canon (le_nat dataptr)"
  using u16_less [of "lwip_standard_chksum is_odd dataptr"] by (intro csum_canon lwip_csum assms) simp

lemma le_nat_append: "le_nat (xs @ ys) = le_nat xs + 256 ^ length xs * le_nat ys"
  by (induction xs) (simp_all add: algebra_simps)

definition pw :: "bool \<Rightarrow> nat" where "pw b = (if b then 256 else 1)"

lemma pw_pos: "0 < pw b" by (simp add: pw_def)

lemma csum_pw: "csum (pw a * (pw b * n)) (pw (a \<noteq> b) * n)"
  using csum_sym [OF csum_65536 [of n n, THEN iffD2]] by (simp add: pw_def)

lemma csum_pow: "csum (256 ^ k * n) (pw (odd k) * n)"
proof (induction k)
  case (Suc k)
  have "csum (256 * (256 ^ k * n)) (256 * (pw (odd k) * n))" using Suc by (rule csum_mult) simp
  moreover have "csum (256 * (pw (odd k) * n)) (pw (odd (Suc k)) * n)"
    using csum_pw [of True "odd k" n] by (simp add: pw_def split: if_splits)
  ultimately have "csum (256 * (256 ^ k * n)) (pw (odd (Suc k)) * n)" by (rule csum_trans)
  then show ?case by (simp only: power_Suc mult.assoc)
qed (simp add: pw_def)

lemma chain4_csum:
  assumes "chain4 qs boff acc sw = (acc', sw')" "unat acc \<le> 65535" "csum (unat acc) (pw sw * N)"
    "\<And>q. q \<in> set qs \<Longrightarrow> length (snd q) \<le> 65535" "qs \<noteq> [] \<Longrightarrow> boff \<le> length (snd (hd qs))"
  shows "unat acc' \<le> 65535 \<and> csum (unat acc') (pw sw' * (N + pw sw * le_nat (drop boff (concat (map snd qs)))))"
  using assms
proof (induction qs arbitrary: boff acc sw N)
  case (Cons oq qs)
  obtain is_odd q where oq: "oq = (is_odd, q)" by (cases oq)
  let ?d = "drop boff q" and ?rest = "concat (map snd qs)"
  let ?s = "lwip_standard_chksum (is_odd \<noteq> (boff mod 2 = 1)) ?d"
  let ?a = "FOLD_U32T (acc + ucast ?s)" and ?N = "N + pw sw * le_nat ?d" and ?sw = "sw \<noteq> odd (length ?d)"
  have q: "boff \<le> length q" "length ?d \<le> 65535" using Cons.prems(4) [of oq] Cons.prems(5) oq by auto
  have s: "csum (unat ?s) (le_nat ?d)" using q(2) by (intro lwip_csum) simp
  have le: "unat acc + unat ?s \<le> 131070" using Cons.prems(2) u16_less [of ?s] by linarith
  then have add: "unat (acc + ucast ?s) = unat acc + unat ?s" "unat acc + unat ?s \<le> 131070"
    using unat_add_small [of acc "ucast ?s"] by (simp_all only: ucast32_unat)
  have "csum (unat acc + unat ?s) (pw sw * N + le_nat ?d)" using Cons.prems(3) s by (rule csum_add)
  moreover have "csum (pw sw * N + le_nat ?d) (pw sw * ?N)"
    using csum_add [OF csum_refl [of "pw sw * N"] csum_sym [OF csum_pw [of sw sw "le_nat ?d"]]]
    by (simp add: pw_def [of False] distrib_left)
  ultimately have "csum (unat (acc + ucast ?s)) (pw sw * ?N)" unfolding add(1) by (rule csum_trans)
  moreover have "unat (acc + ucast ?s) \<le> 131070" using add by (simp only:)
  ultimately have a: "unat ?a \<le> 65535" "csum (unat ?a) (pw sw * ?N)" by (blast intro: csum_FOLD FOLD_le)+
  have swapped: "csum (unat (SWAP_BYTES_IN_WORD ?a)) (pw (\<not> sw) * ?N)"
    using csum_trans [OF csum_SWAP [OF a] csum_pw [of True sw ?N, unfolded pw_def [of True], simplified]] by simp
  have "int (length q) - int boff = int (length ?d)" using q(1) by (simp add: of_nat_diff)
  then have parity: "(int (length q) - int boff) mod 2 \<noteq> 0 \<longleftrightarrow> odd (length ?d)"
    by (simp only: even_of_nat flip: even_iff_mod_2_eq_zero)
  have "chain4 qs 0 (if odd (length ?d) then SWAP_BYTES_IN_WORD ?a else ?a) ?sw = (acc', sw')"
    using Cons.prems(1) unfolding oq chain4.simps Let_def parity
    by (cases "odd (length ?d)") (simp_all del: length_drop)
  then have IH: "unat acc' \<le> 65535" "csum (unat acc') (pw sw' * (?N + pw ?sw * le_nat ?rest))"
    using Cons.IH [of 0 _ ?sw ?N] a swapped SWAP_le [of ?a] Cons.prems(4) by (auto split: if_splits)
  have "csum (pw sw * (256 ^ length ?d * le_nat ?rest)) (pw sw * (pw (odd (length ?d)) * le_nat ?rest))"
    by (intro csum_mult csum_pow pw_pos)
  then have "csum (pw ?sw * le_nat ?rest) (pw sw * (256 ^ length ?d * le_nat ?rest))"
    by (rule csum_trans [OF csum_sym [OF csum_pw] csum_sym])
  then have "csum (?N + pw ?sw * le_nat ?rest) (?N + pw sw * (256 ^ length ?d * le_nat ?rest))"
    by (intro csum_add csum_refl)
  moreover have "drop boff (concat (map snd (oq # qs))) = ?d @ ?rest" using q(1) oq by simp
  ultimately have "csum (pw sw' * (?N + pw ?sw * le_nat ?rest))
      (pw sw' * (N + pw sw * le_nat (drop boff (concat (map snd (oq # qs))))))"
    by (intro csum_mult pw_pos) (simp add: le_nat_append algebra_simps)
  with IH(2) have "csum (unat acc') (pw sw' * (N + pw sw * le_nat (drop boff (concat (map snd (oq # qs))))))"
    by (rule csum_trans)
  with IH(1) show ?case by blast
qed auto

lemma high16_unat: "unat (drop_bit 16 u AND 0xffff) = unat u div 65536" for u :: u32
proof -
  have "unat (drop_bit 16 u) = unat u div 65536" by (simp add: drop_bit_eq_div unat_div)
  moreover have "unat u div 65536 < 65536" using u32_less [of u] by linarith
  ultimately show ?thesis by (simp only: low16_unat) simp
qed

lemma csum_halves: "csum (unat u mod 65536 + unat u div 65536) (unat u)" for u :: u32
  using csum_65536_add [of "unat u mod 65536 + unat u div 65536" "unat u mod 65536" "unat u div 65536"] by simp

lemma NOT16_unat: "unat (NOT w) = 65535 - unat w" for w :: u16
proof -
  have "NOT w = - w - 1" by (simp add: not_eq_complement)
  also have "\<dots> = - 1 - w" by simp
  finally show ?thesis
    using unat_sub [OF word_n1_ge [of w]] by (simp add: unsigned_minus_1_eq_mask mask_eq_exp_minus_1)
qed

lemma complement_unat:
  fixes u :: u32
  assumes "unat u \<le> 65535"
  shows "unat (ucast (NOT (u AND 0xffff)) :: u16) = 65535 - unat u"
proof -
  have m: "(0xffff :: u32) = mask 16" by (simp add: mask_eq_exp_minus_1)
  have "(ucast (NOT (u AND mask 16)) :: u16) = NOT (ucast u)" by (rule bit_word_eqI) (auto simp: bit_simps)
  then show ?thesis unfolding m NOT16_unat by (simp add: NOT16_unat ucast16_unat [OF assms])
qed

lemma pseudo_fold:
  assumes "csum x n" "unat u = x"
  shows "unat (ucast (NOT (FOLD_U32T (FOLD_U32T u) AND 0xffff)) :: u16) = 65535 - canon n"
proof -
  have "csum (unat (FOLD_U32T (FOLD_U32T u))) n" using assms by (intro csum_FOLD) simp
  then show ?thesis using FOLD_FOLD_le [of u] csum_canon by (simp only: complement_unat)
qed

lemma canon_csum: "csum (canon n) n"
proof (cases n)
  case (Suc k)
  have "(k mod 65535 + 1) mod 65535 = (k + 1) mod 65535" by (rule mod_add_left_eq)
  then show ?thesis by (simp add: csum_def canon_def Suc)
qed (simp add: csum_def canon_def)

lemma canon_cong: "csum n m \<Longrightarrow> canon n = canon m"
  using csum_canon [OF csum_trans [OF canon_csum]] canon_less [of n] by simp

lemma unat_add6:
  fixes a b c d e f g :: u32
  assumes "unat a \<le> 65535" "unat b \<le> 65535" "unat c \<le> 65535" "unat d \<le> 65535" "unat e \<le> 65535"
    "unat f \<le> 65535" "unat g \<le> 65535"
  shows "unat (a + b + c + d + e + f + g) = unat a + unat b + unat c + unat d + unat e + unat f + unat g"
  using assms by (simp add: unat_add_small)

section \<open>Properties of the checksums\<close>

lemma pseudo_flat_step:
  assumes "p \<noteq> []" and "boff \<le> length (snd (hd p))" and "list_all (\<lambda>q. length (snd q) \<le> 65535) p"
  shows "unat (inet_chksum_pseudo p boff src dest proto proto_len) =
    65535 - canon (le_nat (drop boff (concat (map snd p))) + unat src + unat dest +
      unat (bswap16 (ucast proto)) + unat (bswap16 proto_len))"
proof -
  let ?D = "le_nat (drop boff (concat (map snd p)))"
  obtain acc sw where ch: "chain4 p boff 0 False = (acc, sw)" by (cases "chain4 p boff 0 False")
  have c: "unat acc \<le> 65535" "csum (unat acc) (pw sw * ?D)"
    using chain4_csum [OF ch, of 0] assms by (auto simp: pw_def [of False] list_all_iff)
  let ?a = "if sw then SWAP_BYTES_IN_WORD acc else acc"
  have "csum (256 * (pw sw * ?D)) ?D" if sw using that csum_pw [of True True ?D] by (simp add: pw_def)
  then have a: "csum (unat ?a) ?D" "unat ?a \<le> 65535"
    using c csum_trans [OF csum_SWAP [OF c]] SWAP_le by (auto simp: pw_def)
  let ?p = "ucast (bswap16 (ucast proto)) :: u32" and ?l = "ucast (bswap16 proto_len) :: u32"
  let ?u = "?a + (src AND 0xffff) + (drop_bit 16 src AND 0xffff) + (dest AND 0xffff) + (drop_bit 16 dest AND 0xffff) + ?p + ?l"
  have le: "unat (w AND 0xffff) \<le> 65535" "unat (drop_bit 16 w AND 0xffff) \<le> 65535" for w :: u32
    using u32_less [of w] by (simp_all only: low16_unat high16_unat)
  have le16: "unat (ucast w :: u32) \<le> 65535" for w :: u16 using u16_less [of w] by (simp only: ucast32_unat)
  have u: "unat ?u = unat ?a + (unat src mod 65536 + unat src div 65536) + (unat dest mod 65536 + unat dest div 65536)
      + unat (bswap16 (ucast proto)) + unat (bswap16 proto_len)"
    unfolding unat_add6 [OF a(2) le(1) [of src] le(2) [of src] le(1) [of dest] le(2) [of dest] le16 le16] high16_unat
    by (simp only: low16_unat ucast32_unat add.assoc)
  have "csum (unat ?u) (?D + unat src + unat dest + unat (bswap16 (ucast proto)) + unat (bswap16 proto_len))"
    unfolding u by (intro csum_add a(1) csum_halves csum_refl)
  from pseudo_fold [OF this refl] show ?thesis
    by (simp add: inet_chksum_pseudo_def ch Let_def add.assoc)
qed

text \<open>
  C11: inet_chksum_pseudo depends on the bytes of the packet only. It is the complement of the
  one's complement sum of the pseudo header and of all data bytes from the offset on, however
  the packet is cut into buffers and however these are aligned in memory.
\<close>

theorem inet_chksum_pseudo_flat:
  assumes "p \<noteq> []" and "boff \<le> length (snd (hd p))" and "list_all (\<lambda>q. length (snd q) \<le> 65535) p"
  shows "unat (inet_chksum_pseudo p boff src dest proto proto_len) =
    65535 - canon (le_nat (drop boff (concat (map snd p))) + unat src + unat dest +
      unat (bswap16 (ucast proto)) + unat (bswap16 proto_len))"
  using pseudo_flat_step [OF assms] .

theorem inet_chksum_pseudo_flat_witness:
  "unat (inet_chksum_pseudo [(True, [1, 2, 3]), (False, [4])] 1 5 6 17 3) =
     65535 - canon (le_nat [2, 3, 4] + 5 + 6 + unat (bswap16 17) + unat (bswap16 3))"
  using inet_chksum_pseudo_flat [of "[(True, [1, 2, 3]), (False, [4])]" 1 5 6 17 3] by simp

lemma chksum_verifies_step:
  assumes "even (length pre)" and "length pre + length post \<le> 0x1fffe"
  shows "inet_chksum o2 (pre @ [ucast (inet_chksum o1 (pre @ [0, 0] @ post)),
      ucast (drop_bit 8 (inet_chksum o1 (pre @ [0, 0] @ post)))] @ post) = 0"
proof -
  define ck where "ck = inet_chksum o1 (pre @ [0, 0] @ post)"
  let ?f = "[ucast ck, ucast (drop_bit 8 ck)] :: u8 list"
  let ?S = "le_nat (pre @ [0, 0] @ post)" and ?V = "le_nat (pre @ ?f @ post)"
  have f: "le_nat ?f = unat ck" using le16_unat [of "ucast ck" "ucast (drop_bit 8 ck)"] le16_split [of ck] by simp
  have ck: "unat ck = 65535 - canon ?S"
    using lwip_canon [of "pre @ [0, 0] @ post" o1] assms(2) by (simp add: ck_def inet_chksum_def NOT16_unat)
  have V: "?V = ?S + 256 ^ length pre * unat ck"
    unfolding le_nat_append f by (simp add: algebra_simps le_nat_append)
  have "csum (256 ^ length pre * unat ck) (unat ck)"
    using csum_pow [of "length pre" "unat ck"] assms(1) by (simp add: pw_def)
  then have "csum ?V (?S + unat ck)" unfolding V by (intro csum_add csum_refl)
  moreover have "csum (?S + unat ck) (canon ?S + unat ck)"
    by (intro csum_add csum_sym [OF canon_csum] csum_refl)
  ultimately have "csum ?V (canon ?S + unat ck)" by (rule csum_trans)
  then have "canon ?V = canon 65535" using canon_less [of ?S] by (intro canon_cong) (simp add: ck)
  moreover have "unat (lwip_standard_chksum o2 (pre @ ?f @ post)) = canon ?V"
    using assms(2) by (intro lwip_canon) simp
  ultimately have "unat (inet_chksum o2 (pre @ ?f @ post)) = 0"
    by (simp add: inet_chksum_def NOT16_unat canon_def)
  then show ?thesis unfolding ck_def by (simp only: unat_eq_0)
qed

text \<open>
  C27: a checksum computed by inet_chksum with the checksum field set to zero verifies: with the
  sum stored in the field, at an even offset, inet_chksum of the whole buffer is 0, for any
  alignment of the sender's and of the receiver's buffer.
\<close>

theorem inet_chksum_verifies:
  assumes "even (length pre)" and "length pre + length post \<le> 0x1fffe"
  shows "inet_chksum o2 (pre @ [ucast (inet_chksum o1 (pre @ [0, 0] @ post)),
      ucast (drop_bit 8 (inet_chksum o1 (pre @ [0, 0] @ post)))] @ post) = 0"
  using chksum_verifies_step [OF assms] .

theorem inet_chksum_verifies_witness:
  "inet_chksum True ([0x45, 0] @ [ucast (inet_chksum False ([0x45, 0] @ [0, 0] @ [7])),
     ucast (drop_bit 8 (inet_chksum False ([0x45, 0] @ [0, 0] @ [7])))] @ [7]) = 0"
  using inet_chksum_verifies [of "[0x45, 0]" "[7]" True False] by simp

section \<open>The IPv6 checksum\<close>

text \<open>
  chksum reads the first byte of the buffer where it should read the odd last one:
  \<open>as_summed d\<close> are the bytes it really sums.
\<close>

definition as_summed :: "u8 list \<Rightarrow> u8 list" where
  "as_summed d = (if odd (length d) then butlast d @ [hd d] else d)"

lemma sum_words_last:
  "sum_words bs acc = (acc', [y]) \<Longrightarrow> sum_words (butlast bs @ [x]) acc = (acc', [x])"
proof (induction bs acc rule: sum_words.induct)
  case (1 b0 b1 bs acc)
  then show ?case by (cases bs) auto
qed auto

lemma chksum_csum:
  assumes "length d \<le> 65535"
  shows "csum (unat (chksum d)) (le_nat (as_summed d)) \<and> unat (chksum d) \<le> 65535 * 32768"
proof -
  obtain acc rest where sr: "sum_words d 0 = (acc, rest)" by (cases "sum_words d 0")
  have half: "length d div 2 \<le> 32767" using assms by linarith
  then have s: "csum (unat acc + le_nat rest) (le_nat d)" "length rest = length d mod 2" "unat acc \<le> 65535 * (length d div 2)"
    "rest \<noteq> [] \<Longrightarrow> rest = [last d]"
    using sum_words_csum [OF sr] by auto
  show ?thesis
  proof (cases "even (length d)")
    case True
    then have "rest = []" using s(2) by (simp add: even_iff_mod_2_eq_zero)
    then show ?thesis using s(1,3) half True by (simp add: chksum_def sr as_summed_def)
  next
    case False
    then have rest: "rest = [last d]" using s(2,4) by (cases rest) (auto simp: odd_iff_mod_2_eq_one)
    let ?e = "butlast d @ [hd d]"
    have len: "length ?e = length d" using False by (cases d) auto
    have "sum_words ?e 0 = (acc, [hd d])" using sum_words_last sr rest by blast
    then have e: "csum (unat acc + unat (hd d)) (le_nat ?e)"
      using sum_words_csum [of ?e 0 acc "[hd d]"] half len by auto
    have "bswap16 (push_bit 8 (ucast (hd d))) = le16 (hd d) 0"
      unfolding le16_def bswap16_def by (rule bit_word_eqI) (auto simp: bit_simps dest: bit_imp_le_length)
    then have w: "unat (ucast (bswap16 (push_bit 8 (ucast (hd d)))) :: u32) = unat (hd d)"
      by (simp add: le16_unat)
    have "unat acc + unat (hd d) \<le> 65535 * 32768" using s(3) half unat_u8_less [of "hd d"] by linarith
    then show ?thesis
      using e False rest unat_add_small [of acc "ucast (bswap16 (push_bit 8 (ucast (hd d))))"] w
      by (simp add: chksum_def sr as_summed_def)
  qed
qed

lemma fold_loop_csum: "csum (unat u) n \<Longrightarrow> csum (unat (fold_loop u)) n \<and> unat (fold_loop u) \<le> 65535"
proof (induction u rule: fold_loop.induct)
  case (1 u)
  have F: "(u AND 0xffff) + drop_bit 16 u = FOLD_U32T u" by (simp add: FOLD_U32T_def add.commute)
  show ?case
  proof (cases "drop_bit 16 u = 0")
    case True
    then have "unat u div 65536 = 0" by (simp add: drop_bit_eq_div unat_div flip: unat_eq_0)
    then have "unat u \<le> 65535" by linarith
    then show ?thesis using "1.prems" True by (subst (1 2) fold_loop.simps) simp
  next
    case False
    then show ?thesis
      using "1.IH" csum_FOLD [OF "1.prems"] by (subst (1 2) fold_loop.simps) (simp add: F)
  qed
qed

lemma swap_bytes: "push_bit 8 (u AND 0xff) OR drop_bit 8 (u AND 0xff00) = SWAP_BYTES_IN_WORD u"
proof -
  have m: "(0xff :: u32) = mask 8" "(0xff00 :: u32) = push_bit 8 (mask 8)"
    by (simp_all add: mask_eq_exp_minus_1 push_bit_eq_mult)
  show ?thesis unfolding m SWAP_BYTES_IN_WORD_def bswap16_def
    by (rule bit_word_eqI) (auto simp: bit_simps)
qed

lemma fold_step:
  assumes "unat acc \<le> 65535" "csum (unat acc) n" "csum (unat w) m" "unat w \<le> 65535 * 32768"
  shows "csum (unat (fold_loop (acc + w))) (n + m) \<and> unat (fold_loop (acc + w)) \<le> 65535"
proof -
  have "unat (acc + w) = unat acc + unat w" using assms(1,4) by (intro unat_add_small) linarith
  then show ?thesis using fold_loop_csum [of "acc + w" "n + m"] csum_add [OF assms(2,3)] by simp
qed

lemma chain6_even:
  assumes "\<And>q. q \<in> set qs \<Longrightarrow> even (length q) \<and> length q \<le> 65535" "qs \<noteq> [] \<Longrightarrow> boff \<le> length (hd qs)" "even boff"
    "unat acc \<le> 65535" "csum (unat acc) N"
  shows "\<exists>acc'. chain6 qs boff acc sw = Some (acc', sw) \<and> unat acc' \<le> 65535 \<and>
    csum (unat acc') (N + le_nat (drop boff (concat qs)))"
  using assms
proof (induction qs arbitrary: boff acc N)
  case (Cons q qs)
  let ?d = "drop boff q" and ?acc = "fold_loop (acc + chksum (drop boff q))"
  have q: "boff \<le> length q" "even (length ?d)" "length ?d \<le> 65535" "even (length q)" using Cons.prems(1) [of q] Cons.prems(2,3) by auto
  have d: "csum (unat (chksum ?d)) (le_nat ?d)" "unat (chksum ?d) \<le> 65535 * 32768"
    using chksum_csum [OF q(3)] q(2) by (simp_all add: as_summed_def del: length_drop)
  have "\<exists>acc'. chain6 qs 0 ?acc sw = Some (acc', sw) \<and> unat acc' \<le> 65535 \<and>
      csum (unat acc') ((N + le_nat ?d) + le_nat (drop 0 (concat qs)))"
    using fold_step [OF Cons.prems(4,5) d] Cons.prems(1) by (intro Cons.IH) auto
  then obtain acc' where acc': "chain6 qs 0 ?acc sw = Some (acc', sw)" "unat acc' \<le> 65535"
    "csum (unat acc') (N + le_nat ?d + le_nat (concat qs))" by auto
  have "csum (le_nat (concat qs)) (256 ^ length ?d * le_nat (concat qs))"
    using csum_sym [OF csum_pow [of "length ?d" "le_nat (concat qs)"]] q(2) by (simp add: pw_def del: length_drop)
  then have "csum (N + le_nat ?d + le_nat (concat qs)) (N + le_nat (drop boff (concat (q # qs))))"
    using csum_add [OF csum_refl [of "N + le_nat ?d"]] q(1) by (simp add: le_nat_append add.assoc)
  from csum_trans [OF acc'(3) this] acc'(1,2) show ?case
    using q(1,4) by (simp add: even_iff_mod_2_eq_zero Let_def)
qed auto

lemma add_addrs_csum:
  assumes "length src = length dest" "unat acc \<le> 65535" "csum (unat acc) N"
  shows "unat (add_addrs src dest acc) \<le> 65535 \<and>
    csum (unat (add_addrs src dest acc)) (N + sum_list (map unat src) + sum_list (map unat dest))"
  using assms
proof (induction src dest arbitrary: acc N rule: list_induct2)
  case (Cons s ss d ds)
  have w: "unat (ucast x AND 0xffff :: u32) = unat x" for x :: u16
    using u16_less [of x] by (simp only: low16_unat ucast32_unat) simp
  let ?a = "fold_loop (acc + (ucast s AND 0xffff) + (ucast d AND 0xffff))"
  have "unat ((ucast s AND 0xffff) + (ucast d AND 0xffff) :: u32) = unat s + unat d"
    using unat_add_small [of "ucast s AND 0xffff" "ucast d AND 0xffff"] u16_less [of s] u16_less [of d] by (simp only: w)
  then have a: "csum (unat ?a) (N + (unat s + unat d))" "unat ?a \<le> 65535"
    using fold_step [OF Cons.prems, of "(ucast s AND 0xffff) + (ucast d AND 0xffff)" "unat s + unat d"]
      u16_less [of s] u16_less [of d] by (simp_all add: add.assoc)
  show ?case using Cons.IH [OF a(2,1)] by (simp add: algebra_simps)
qed simp

lemma inet6_tail:
  assumes "length src = length dest" "unat acc \<le> 65535" "csum (unat acc) N"
  shows "unat (ucast (NOT (fold_loop (add_addrs src dest acc + ucast (bswap16 (ucast proto)) + (proto_len AND 0xffff)
      + (drop_bit 16 proto_len AND 0xffff)) AND 0xffff)) :: u16) =
    65535 - canon (N + sum_list (map unat src) + sum_list (map unat dest) + unat (bswap16 (ucast proto)) + unat proto_len)"
proof -
  let ?N = "N + sum_list (map unat src) + sum_list (map unat dest)"
  let ?a = "add_addrs src dest acc" and ?p = "ucast (bswap16 (ucast proto)) :: u32"
  let ?l = "proto_len AND 0xffff" and ?h = "drop_bit 16 proto_len AND 0xffff"
  have a: "unat ?a \<le> 65535" "csum (unat ?a) ?N" using add_addrs_csum [OF assms] by auto
  have b: "unat ?p \<le> 65535" "unat ?l \<le> 65535" "unat ?h \<le> 65535"
    using u16_less [of "bswap16 (ucast proto)"] u32_less [of proto_len] by (simp_all only: ucast32_unat low16_unat high16_unat)
  have u: "unat (?a + ?p + ?l + ?h) = unat ?a + unat (bswap16 (ucast proto)) + (unat proto_len mod 65536 + unat proto_len div 65536)"
    using unat_add6 [OF a(1) b, of 0 0 0] by (simp only: high16_unat) (simp add: low16_unat ucast32_unat)
  have "csum (unat (?a + ?p + ?l + ?h)) (?N + unat (bswap16 (ucast proto)) + unat proto_len)"
    unfolding u by (intro csum_add a(2) csum_refl csum_halves)
  from fold_loop_csum [OF this] show ?thesis using csum_canon by (metis complement_unat)
qed

text \<open>
  Inet6_chksum_pseudo is the complement of the one's complement sum of the pseudo header and
  of all data bytes from the offset on, for a packet whose buffers all have even lengths.
\<close>

theorem inet6_chksum_even:
  assumes "p \<noteq> []" and "even boff" and "boff \<le> length (hd p)" and "list_all (\<lambda>q. even (length q) \<and> length q \<le> 65535) p"
    and "length src = 8" and "length dest = 8"
  shows "\<exists>w. inet6_chksum_pseudo p boff src dest proto proto_len = Some w \<and>
    unat w = 65535 - canon (le_nat (drop boff (concat p)) + sum_list (map unat src) + sum_list (map unat dest) +
      unat (bswap16 (ucast proto)) + unat proto_len)"
proof -
  obtain acc where "chain6 p boff 0 False = Some (acc, False)" "unat acc \<le> 65535"
    "csum (unat acc) (le_nat (drop boff (concat p)))"
    using chain6_even [of p boff 0 0 False] assms by (auto simp: list_all_iff)
  then show ?thesis using inet6_tail [of src dest acc] assms(5,6) by (simp add: inet6_chksum_pseudo_def)
qed

theorem inet6_chksum_even_witness:
  "\<exists>w. inet6_chksum_pseudo [[1, 2], [3, 4]] 0 [1, 2, 3, 4, 5, 6, 7, 8] [1, 2, 3, 4, 5, 6, 7, 8] 17 4 = Some w \<and>
     unat w = 65535 - canon (le_nat [1, 2, 3, 4] + 36 + 36 + unat (bswap16 17) + 4)"
  using inet6_chksum_even [of "[[1, 2], [3, 4]]" 0 "[1, 2, 3, 4, 5, 6, 7, 8]" "[1, 2, 3, 4, 5, 6, 7, 8]" 17 4] by simp

lemma mod_cancel:
  fixes x y :: nat
  assumes "(A + x) mod 65535 = (A + y) mod 65535" "x < 65535" "y < 65535"
  shows "x = y"
proof -
  have le: "v \<le> u" if "(A + u) mod 65535 = (A + v) mod 65535" "u < 65535" "v < 65535" for u v
  proof (rule ccontr)
    assume "\<not> v \<le> u"
    then have "65535 dvd v - u" using mod_eq_dvd_iff_nat [of "A + u" "A + v" 65535] that(1) by simp
    then show False using \<open>\<not> v \<le> u\<close> that(3) by (auto dest: dvd_imp_le)
  qed
  from le [OF assms] le [OF assms(1) [symmetric] assms(3,2)] show ?thesis by simp
qed

text \<open>
  C28: for a packet in one buffer of odd length, summed from its first byte on, inet6_chksum_pseudo takes the first byte of the
  buffer for the last one: unless the two are equal, the result is not the checksum of the data.
\<close>

theorem inet6_chksum_odd_wrong:
  assumes "odd (length q)" and "length q \<le> 65535" and "hd q \<noteq> last q" and "length src = 8" and "length dest = 8"
  shows "\<exists>w. inet6_chksum_pseudo [q] 0 src dest proto proto_len = Some w \<and>
    unat w = 65535 - canon (le_nat (butlast q @ [hd q]) + sum_list (map unat src) + sum_list (map unat dest) +
      unat (bswap16 (ucast proto)) + unat proto_len) \<and>
    unat w \<noteq> 65535 - canon (le_nat q + sum_list (map unat src) + sum_list (map unat dest) +
      unat (bswap16 (ucast proto)) + unat proto_len)"
proof -
  let ?P = "sum_list (map unat src) + sum_list (map unat dest) + unat (bswap16 (ucast proto)) + unat proto_len"
  let ?e = "butlast q @ [hd q]" and ?b = "butlast q"
  let ?a = "fold_loop (0 + chksum q)"
  have d: "csum (unat (chksum q)) (le_nat ?e)" "unat (chksum q) \<le> 65535 * 32768"
    using chksum_csum [OF assms(2)] assms(1) by (simp_all add: as_summed_def)
  have a: "csum (unat ?a) (le_nat ?e)" "unat ?a \<le> 65535" using fold_step [of 0 0, OF _ _ d] by simp_all
  have "csum (unat (SWAP_BYTES_IN_WORD (SWAP_BYTES_IN_WORD ?a))) (256 * (256 * le_nat ?e))"
    by (intro csum_SWAP SWAP_le a)
  then have aa: "csum (unat (SWAP_BYTES_IN_WORD (SWAP_BYTES_IN_WORD ?a))) (le_nat ?e)"
    using csum_65536 [of _ "le_nat ?e"] by simp
  have "length q mod 2 \<noteq> 0" using assms(1) by (simp add: odd_iff_mod_2_eq_one)
  then have "chain6 [q] 0 0 False = Some (SWAP_BYTES_IN_WORD ?a, True)"
    by (simp only: chain6.simps swap_bytes Let_def drop_0 not_less0 if_False if_True simp_thms)
  then have "inet6_chksum_pseudo [q] 0 src dest proto proto_len =
      Some (ucast (NOT (fold_loop (add_addrs src dest (SWAP_BYTES_IN_WORD (SWAP_BYTES_IN_WORD ?a)) + ucast (bswap16 (ucast proto))
        + (proto_len AND 0xffff) + (drop_bit 16 proto_len AND 0xffff)) AND 0xffff)))"
    by (simp only: inet6_chksum_pseudo_def bind.bind_lunit prod.case if_True swap_bytes Let_def)
  then obtain w where w: "inet6_chksum_pseudo [q] 0 src dest proto proto_len = Some w" "unat w = 65535 - canon (le_nat ?e + ?P)"
    using inet6_tail [OF _ SWAP_le aa, of src dest] assms(4,5) by (simp only: add.assoc) blast
  have q: "q = ?b @ [last q]" "even (length ?b)" using assms(1) by (cases q; auto)+
  have e: "csum (le_nat (?b @ [x]) + ?P) (le_nat ?b + ?P + unat x)" for x
  proof -
    have "csum (256 ^ length ?b * unat x) (unat x)" using csum_pow [of "length ?b" "unat x"] q(2) by (simp add: pw_def del: length_butlast)
    from csum_add [OF csum_refl [of "le_nat ?b + ?P"] this] show ?thesis by (simp add: le_nat_append algebra_simps)
  qed
  have "canon (le_nat ?e + ?P) \<noteq> canon (le_nat q + ?P)"
  proof
    assume "canon (le_nat ?e + ?P) = canon (le_nat q + ?P)"
    then have "csum (le_nat ?e + ?P) (le_nat q + ?P)"
      using csum_trans [OF csum_sym [OF canon_csum [of "le_nat ?e + ?P"]]] canon_csum [of "le_nat q + ?P"] by simp
    moreover have "csum (le_nat q + ?P) (le_nat ?b + ?P + unat (last q))" using e [of "last q"] q(1) by simp
    ultimately have "csum (le_nat ?b + ?P + unat (hd q)) (le_nat ?b + ?P + unat (last q))"
      by (rule csum_trans [OF csum_trans [OF csum_sym [OF e]]])
    from this [unfolded csum_def, THEN conjunct1] have "unat (hd q) = unat (last q)"
      by (rule mod_cancel) (use unat_u8_less [of "hd q"] unat_u8_less [of "last q"] in linarith)+
    then show False using assms(3) by (simp add: word_unat_eq_iff)
  qed
  then have "65535 - canon (le_nat ?e + ?P) \<noteq> 65535 - canon (le_nat q + ?P)"
    using canon_less [of "le_nat ?e + ?P"] canon_less [of "le_nat q + ?P"] by linarith
  then show ?thesis using w by (simp add: add.assoc)
qed

theorem inet6_chksum_odd_wrong_witness:
  "inet6_chksum_pseudo [[1, 2, 3]] 0 [1, 2, 3, 4, 5, 6, 7, 8] [1, 2, 3, 4, 5, 6, 7, 8] 17 3 \<noteq> None"
  using inet6_chksum_odd_wrong [of "[1, 2, 3]" "[1, 2, 3, 4, 5, 6, 7, 8]" "[1, 2, 3, 4, 5, 6, 7, 8]" 17 3] by auto

end
