(* ===== verification/Worker.thy ===== *)
theory Worker
  imports Session Arp Group Art_Map Chksum
begin

text \<open>
  What the packet handlers of a worker thread work on: packet buffers, the state of the thread
  and of the shared tables, and the calls that hand a packet on (send_to_switch and
  kni_burst_write of al_dev.c).

  \<open>m_data\<close> of an mbuf is the data of its first segment and \<open>m_next\<close> of the others, with the
  alignment of the data (odd address or not). A pointer into the packet is an offset into
  \<open>m_data\<close>; an access behind the end of the data is \<open>None\<close>. Fields keep their byte order in
  memory. What leaves the thread, what is freed and what is counted is appended to \<open>w_out\<close>.
\<close>

section \<open>Packet buffers\<close>

record mbuf =
  m_id :: addr
  m_data :: "u8 list"
  m_odd :: bool
  m_next :: "(bool \<times> u8 list) list"
  m_port :: u8
  m_udata64 :: u64

definition segments :: "mbuf \<Rightarrow> (bool \<times> u8 list) list" where
  "segments m = (m_odd m, m_data m) # m_next m"

definition rte_pktmbuf_pkt_len :: "mbuf \<Rightarrow> nat" where
  "rte_pktmbuf_pkt_len m = sum_list (map (length \<circ> snd) (segments m))"

definition rd :: "nat \<Rightarrow> nat \<Rightarrow> mbuf \<Rightarrow> 'a::len word option" where
  "rd off n m = (if off + n \<le> length (m_data m) then Some (field (m_data m) off n) else None)"

definition wr :: "nat \<Rightarrow> nat \<Rightarrow> 'a::len word \<Rightarrow> mbuf \<Rightarrow> mbuf option" where
  "wr off n w m =
     (if off + n \<le> length (m_data m)
      then Some (m\<lparr>m_data := take off (m_data m) @ bytes_of n w @ drop (off + n) (m_data m)\<rparr>) else None)"

text \<open>
  Offsets in struct ether_hdr, and in struct ipv4_hdr, ipv6_hdr, tcp_hdr and udp_hdr relative to
  their start.
\<close>

definition eth_d_addr :: nat where "eth_d_addr = 0"
definition eth_s_addr :: nat where "eth_s_addr = 6"
definition eth_ether_type :: nat where "eth_ether_type = 12"
definition ip4_version_ihl :: nat where "ip4_version_ihl = 0"
definition ip4_total_length :: nat where "ip4_total_length = 2"
definition ip4_next_proto_id :: nat where "ip4_next_proto_id = 9"
definition ip4_hdr_checksum :: nat where "ip4_hdr_checksum = 10"
definition ip4_src_addr :: nat where "ip4_src_addr = 12"
definition ip4_dst_addr :: nat where "ip4_dst_addr = 16"
definition ip6_payload_len :: nat where "ip6_payload_len = 4"
definition ip6_proto :: nat where "ip6_proto = 6"
definition ip6_hop_limits :: nat where "ip6_hop_limits = 7"
definition ip6_src_addr :: nat where "ip6_src_addr = 8"
definition ip6_dst_addr :: nat where "ip6_dst_addr = 24"
definition tcp_src_port :: nat where "tcp_src_port = 0"
definition tcp_dst_port :: nat where "tcp_dst_port = 2"
definition tcp_cksum :: nat where "tcp_cksum = 16"
definition udp_dgram_cksum :: nat where "udp_dgram_cksum = 6"
definition SIZEOF_UDP_HDR :: nat where "SIZEOF_UDP_HDR = 8"
definition SIZEOF_IPV6_HDR :: nat where "SIZEOF_IPV6_HDR = 40"

lemmas hdr_offsets = eth_d_addr_def eth_s_addr_def eth_ether_type_def ip4_version_ihl_def ip4_total_length_def
  ip4_next_proto_id_def ip4_hdr_checksum_def ip4_src_addr_def ip4_dst_addr_def ip6_payload_len_def ip6_proto_def
  ip6_hop_limits_def ip6_src_addr_def ip6_dst_addr_def tcp_src_port_def tcp_dst_port_def tcp_cksum_def
  udp_dgram_cksum_def SIZEOF_UDP_HDR_def SIZEOF_IPV6_HDR_def SIZEOF_ETH_HDR_def

definition ETHER_TYPE_IPv4 :: u16 where "ETHER_TYPE_IPv4 = 0x0800"
definition ETHER_TYPE_IPv6 :: u16 where "ETHER_TYPE_IPv6 = 0x86DD"
definition ETHER_TYPE_ARP :: u16 where "ETHER_TYPE_ARP = 0x0806"
definition IPPROTO_TCP :: u8 where "IPPROTO_TCP = 6"
definition IPPROTO_UDP :: u8 where "IPPROTO_UDP = 17"
definition IPPROTO_ICMPV6 :: u8 where "IPPROTO_ICMPV6 = 58"

section \<open>State of a worker thread\<close>

datatype stat = create_session_failed | ip_send_to_dst_thread_failed | ll_bad_pkg_len
  | ll_send_to_switch_failed | ll_send_to_kni_failed | ll_send_to_kni_queue_failed

datatype event =
    To_switch u8 mbuf
  | To_kni u8 mbuf
  | To_thread int mbuf
  | Freed mbuf
  | Incr stat

record dns_state =
  d_tree :: art_tree
  d_gid :: "addr \<Rightarrow> u32"
  d_dnsid :: "addr \<Rightarrow> u32"
  d_alloc :: "addr set"

record worker =
  w_sess :: sess_state
  w_vports :: vport_state
  w_arp :: arp_state
  w_groups :: group_state
  w_dns :: dns_state
  w_last :: int
  w_out :: "event list"

record al_fargs =
  f_fid :: u32
  f_gid :: u32
  f_ftype :: u8

definition AL_FLT_LLB :: u8 where "AL_FLT_LLB = 2"
definition AL_FLT_SIMPLE_TRANS :: u8 where "AL_FLT_SIMPLE_TRANS = 3"
definition AL_FLT_GSLB :: u8 where "AL_FLT_GSLB = 4"

text \<open>
  What the handlers get from DPDK and from tables that are not part of this model: the number of
  free entries of a ring, whether the ring to another thread has room, the time (g_now_micrsec),
  the queues of a KNI port, the packet filters, the router, the location of an address, what the
  memory pools give out, values of uninitialised variables, the number of threads, and the
  packets that wait in the rings of a KNI port and in those between the threads (\<open>None\<close> for a ring
  that does not exist).
\<close>

record env =
  e_lcore :: u8
  e_ring :: "worker \<Rightarrow> nat"
  e_kni_qcnt :: "u8 \<Rightarrow> nat"
  e_filter4 :: "u32 \<Rightarrow> u16 \<Rightarrow> u8 \<Rightarrow> int \<times> al_fargs"
  e_filter6 :: "u128 \<Rightarrow> u16 \<Rightarrow> u8 \<Rightarrow> int \<times> al_fargs"
  e_router_find :: "u8 \<Rightarrow> ipcs_t \<Rightarrow> int \<times> ipcs_t \<times> u8"
  e_geoip_find :: "u32 \<Rightarrow> int \<times> u32"
  e_geoip6_find :: "u128 \<Rightarrow> int \<times> u32"
  e_session1 :: "worker \<Rightarrow> addr option"
  e_session2 :: "worker \<Rightarrow> addr option"
  e_port :: "worker \<Rightarrow> addr option"
  e_neigh :: "worker \<Rightarrow> addr option"
  e_mbuf :: "worker \<Rightarrow> mbuf option"
  e_margs :: al_margs
  e_lip :: ipcs_t
  e_thread :: "int \<Rightarrow> worker \<Rightarrow> bool"
  e_now :: int
  e_threads :: nat
  e_kni_ring :: "u8 \<Rightarrow> nat \<Rightarrow> worker \<Rightarrow> mbuf list"
  e_thread_ring :: "nat \<Rightarrow> worker \<Rightarrow> mbuf list option"

definition emit :: "event list \<Rightarrow> worker \<Rightarrow> worker" where
  "emit es w = w\<lparr>w_out := w_out w @ es\<rparr>"

section \<open>Handing packets on\<close>

text \<open>
  \<open>burst\<close> is what becomes of the packets \<open>buf\<close> when the first \<open>k\<close> of them are taken: the others are
  counted and freed. In kni_burst_write a core with a queue of its own first passes on the packets
  that the cores without one have left in their rings (\<open>kni_drain\<close>), and then its own, to the
  kernel; another core puts its packets into its ring. Both are \<open>To_kni\<close> here.
\<close>

definition RTE_AL_TX_DESC_DEFAULT :: nat where "RTE_AL_TX_DESC_DEFAULT = 512"

definition burst :: "(mbuf \<Rightarrow> event) \<Rightarrow> stat \<Rightarrow> nat \<Rightarrow> mbuf list \<Rightarrow> event list" where
  "burst sent failed k buf = map sent (take k buf) @ concat (map (\<lambda>b. [Incr failed, Freed b]) (drop k buf))"

function kni_drain :: "env \<Rightarrow> u8 \<Rightarrow> nat \<Rightarrow> nat \<Rightarrow> worker \<Rightarrow> worker" where
  "kni_drain e portid qcnt q w =
     (if q < e_threads e \<and> 0 < qcnt then
        (let mbuf = take RTE_AL_TX_DESC_DEFAULT (e_kni_ring e portid q w)
         in if mbuf = [] then kni_drain e portid qcnt (q + qcnt) w
            else kni_drain e portid qcnt (q + qcnt) (emit (burst (To_kni portid) ll_send_to_kni_failed (min (e_ring e w) (length mbuf)) mbuf) w))
      else w)"
  by pat_completeness auto

termination kni_drain
  by (relation "measure (\<lambda>(e, portid, qcnt, q, w). e_threads e - q)") auto

declare kni_drain.simps [simp del]

definition kni_burst_write :: "env \<Rightarrow> u8 \<Rightarrow> mbuf list \<Rightarrow> worker \<Rightarrow> worker option" where
  "kni_burst_write e portid buf w =
     do {
       i \<leftarrow> vport_get portid;
       let lcore = unat (e_lcore e);
       let qcnt = e_kni_qcnt e portid;
       Some (if lcore < qcnt
             then let w = kni_drain e portid qcnt (lcore + qcnt) w
                  in emit (burst (To_kni portid) ll_send_to_kni_failed (min (e_ring e w) (length buf)) buf) w
             else emit (burst (To_kni portid) ll_send_to_kni_queue_failed (min (e_ring e w) (length buf)) buf) w)
     }"

definition send_to_switch :: "env \<Rightarrow> u8 \<Rightarrow> mbuf list \<Rightarrow> bool \<Rightarrow> worker \<Rightarrow> worker option" where
  "send_to_switch e portid buf to_kni w =
     (if \<not> to_kni then
        do {
          i \<leftarrow> vport_get portid;
          Some (emit (burst (To_switch portid) ll_send_to_switch_failed (min (e_ring e w) (length buf)) buf) w)
        }
      else kni_burst_write e portid buf w)"

text \<open>Frames of etharp_raw, each put into the packet buffer it has taken from the pool.\<close>

definition send_frames :: "env \<Rightarrow> (u8 \<times> u8 list) list \<Rightarrow> worker \<Rightarrow> worker option" where
  "send_frames e frames w =
     (case (frames, e_mbuf e w) of
        ((port, p) # _, Some m) \<Rightarrow> send_to_switch e port [m\<lparr>m_data := p, m_next := []\<rparr>] False w
      | _ \<Rightarrow> Some w)"

section \<open>Reading back what was written\<close>

definition put :: "nat \<Rightarrow> u8 list \<Rightarrow> u8 list \<Rightarrow> u8 list" where
  "put off bs d = take off d @ bs @ drop (off + length bs) d"

lemma wr_put: "wr off n w m = (if off + n \<le> length (m_data m) then Some (m\<lparr>m_data := put off (bytes_of n w) (m_data m)\<rparr>) else None)"
  by (simp add: wr_def put_def)

lemma rd_Some_bound: "rd off n m = Some x \<Longrightarrow> off + n \<le> length (m_data m)"
  by (simp add: rd_def split: if_splits)

lemma length_put [simp]: "off + length bs \<le> length d \<Longrightarrow> length (put off bs d) = length d"
  by (simp add: put_def)

lemma wr_length: "wr off n x m = Some m' \<Longrightarrow> length (m_data m') = length (m_data m)"
  by (auto simp: wr_put split: if_splits)

lemma nth_put: "off + length bs \<le> length d \<Longrightarrow> i < length d \<Longrightarrow>
    put off bs d ! i = (if off \<le> i \<and> i < off + length bs then bs ! (i - off) else d ! i)"
  by (auto simp: put_def nth_append min_absorb1)

lemma nth_put_out: "off + length bs \<le> length d \<Longrightarrow> i < length d \<Longrightarrow> i < off \<or> off + length bs \<le> i \<Longrightarrow> put off bs d ! i = d ! i"
  by (auto simp: nth_put)

lemma take_drop_eqI:
  "length d = length e \<Longrightarrow> (\<And>i. off \<le> i \<Longrightarrow> i < off + n \<Longrightarrow> i < length d \<Longrightarrow> d ! i = e ! i) \<Longrightarrow>
    take n (drop off d) = take n (drop off e)"
  by (rule nth_equalityI) auto

lemma field_cong:
  "length d = length e \<Longrightarrow> (\<And>i. off \<le> i \<Longrightarrow> i < off + n \<Longrightarrow> i < length d \<Longrightarrow> d ! i = e ! i) \<Longrightarrow> field d off n = field e off n"
  unfolding field_def by (intro arg_cong [of _ _ word_of] take_drop_eqI)

lemma same_header:
  fixes m m' :: mbuf
  shows "m' = m\<lparr>m_data := m_data m'\<rparr> \<longleftrightarrow> m_id m' = m_id m \<and> m_odd m' = m_odd m \<and> m_next m' = m_next m \<and> m_port m' = m_port m \<and> m_udata64 m' = m_udata64 m"
  by (cases m; cases m') auto

lemma field_put_same [simp]:
  "off + n \<le> length d \<Longrightarrow> (field (put off (bytes_of n w) d) off n :: 'a::len word) = take_bit (8 * n) w"
  by (simp add: field_def put_def word_of_bytes_of)

lemma field_put_other:
  assumes "off + length bs \<le> length d" "off' + n \<le> off \<or> off + length bs \<le> off'"
  shows "field (put off bs d) off' n = field d off' n"
  unfolding field_def using assms by (intro arg_cong [of _ _ word_of] take_drop_eqI) (auto simp: nth_put)

lemma put_put_same: "off + length bs \<le> length d \<Longrightarrow> length bs = length cs \<Longrightarrow> put off bs (put off cs d) = put off bs d"
  by (intro nth_equalityI) (auto simp: nth_put)

lemma le_nat_put:
  assumes "off + length bs \<le> length d" "\<forall>i < length bs. d ! (off + i) = 0"
  shows "le_nat (put off bs d) = le_nat d + 256 ^ off * le_nat bs"
proof -
  have "take (length bs) (drop off d) = replicate (length bs) 0"
    using assms by (intro nth_equalityI) auto
  then have d: "d = take off d @ replicate (length bs) 0 @ drop (off + length bs) d"
    by (metis append_take_drop_id drop_drop add.commute)
  have z: "le_nat (replicate n 0) = 0" for n by (induction n) simp_all
  have "le_nat (put off bs d) = le_nat (take off d) + 256 ^ off * (le_nat bs + 256 ^ length bs * le_nat (drop (off + length bs) d))"
    using assms(1) by (simp add: put_def le_nat_append min_absorb1)
  moreover have "le_nat d = le_nat (take off d) + 256 ^ off * (256 ^ length bs * le_nat (drop (off + length bs) d))"
    using assms(1) by (subst d) (simp add: le_nat_append min_absorb1 z)
  ultimately show ?thesis by (simp add: algebra_simps)
qed

lemma le_nat_bytes2: "le_nat (bytes_of 2 (w :: u16)) = unat w"
proof -
  have "bytes_of 2 w = [ucast w, ucast (drop_bit 8 w)]" by (simp add: bytes_of_def upt_rec)
  then show ?thesis using le16_unat [of "ucast w" "ucast (drop_bit 8 w)"] le16_split [of w] by simp
qed

lemma put_zero: "off + 2 \<le> length d \<Longrightarrow> i < 2 \<Longrightarrow> put off (bytes_of 2 (0 :: u16)) d ! (off + i) = 0"
  by (auto simp: nth_put bytes_of_def)

lemma drop_put: "h \<le> off \<Longrightarrow> off + length bs \<le> length d \<Longrightarrow> drop h (put off bs d) = put (off - h) bs (drop h d)"
  by (rule nth_equalityI) (auto simp: nth_put intro!: arg_cong [of _ _ "(!) bs"])

lemma take_put: "off + length bs \<le> n \<Longrightarrow> n \<le> length d \<Longrightarrow> take n (put off bs d) = put off bs (take n d)"
  by (rule nth_equalityI) (auto simp: nth_put)

text \<open>A checksum stored where it was computed over zero makes the sum over the data vanish.\<close>

lemma inet_chksum_stored:
  assumes "even k" "k + 2 \<le> length x" "length x \<le> 65535" "\<forall>i < 2. x ! (k + i) = 0"
  shows "inet_chksum o2 (put k (bytes_of 2 (inet_chksum o1 x)) x) = 0"
proof -
  have "take 2 (drop k x) = [0, 0]" using assms by (intro nth_equalityI) (auto simp: less_2_cases_iff)
  then have x: "x = take k x @ [0, 0] @ drop (k + 2) x" by (metis append_take_drop_id drop_drop add.commute)
  have b: "bytes_of 2 w = [ucast w, ucast (drop_bit 8 w)]" for w :: u16 by (simp add: bytes_of_def upt_rec)
  show ?thesis using chksum_verifies_step [of "take k x" "drop (k + 2) x" o2 o1] assms x
    by (simp add: put_def b min_absorb1)
qed

lemma pseudo_stored:
  fixes d ns boff src dst pr len o1
  defines "ck \<equiv> inet_chksum_pseudo ((o1, d) # ns) boff src dst pr len"
  assumes "even k" "boff + k + 2 \<le> length d" "list_all (\<lambda>q. length (snd q) \<le> 65535) ((o1, d) # ns)" "\<forall>i < 2. d ! (boff + k + i) = 0"
  shows "inet_chksum_pseudo ((o2, put (boff + k) (bytes_of 2 ck) d) # ns) boff src dst pr len = 0"
proof -
  let ?d' = "put (boff + k) (bytes_of 2 ck) d" and ?r = "concat (map snd ns)"
  let ?R = "unat src + unat dst + unat (bswap16 (ucast pr)) + unat (bswap16 len)"
  define S where "S = le_nat (drop boff d @ ?r) + ?R"
  have ck: "unat ck = 65535 - canon S"
    unfolding ck_def S_def using pseudo_flat_step [of "(o1, d) # ns" boff src dst pr len] assms(3,4) by (simp add: add.assoc)
  have "le_nat (drop boff ?d') = le_nat (drop boff d) + 256 ^ k * unat ck"
    using assms(3,5) by (simp add: drop_put le_nat_put le_nat_bytes2 add.assoc)
  then have "le_nat (drop boff ?d' @ ?r) + ?R = S + 256 ^ k * unat ck"
    using assms(3) by (simp add: le_nat_append S_def)
  then have res: "unat (inet_chksum_pseudo ((o2, ?d') # ns) boff src dst pr len) = 65535 - canon (S + 256 ^ k * unat ck)"
    using pseudo_flat_step [of "(o2, ?d') # ns" boff src dst pr len] assms(3,4) by (simp add: add.assoc)
  have "csum (256 ^ k * unat ck) (unat ck)" using csum_pow [of k "unat ck"] assms(2) by (simp add: pw_def)
  then have "csum (S + 256 ^ k * unat ck) (canon S + unat ck)" by (intro csum_add csum_sym [OF canon_csum])
  then have "canon (S + 256 ^ k * unat ck) = canon 65535" using canon_less [of S] by (intro canon_cong) (simp add: ck)
  then show ?thesis using res by (simp add: canon_def flip: unat_eq_0)
qed

section \<open>A small worker\<close>

text \<open>
  A worker with empty tables and one group, in a surrounding where rings have room, nothing
  matches a filter, every address is reached directly over port 1, and the pools give out the
  objects 5, 6 (sessions), 7 (five-tuples) and 8 (neighbours).
\<close>

definition idle_worker :: worker where
  "idle_worker = \<lparr>w_sess = empty_sessions, w_vports = empty_vports, w_arp = empty_arp, w_groups = one_group,
     w_dns = \<lparr>d_tree = empty_tree, d_gid = \<lambda>_. 0, d_dnsid = \<lambda>_. 0, d_alloc = {}\<rparr>, w_last = 0, w_out = []\<rparr>"

definition no_margs :: al_margs where
  "no_margs = \<lparr>ma_mid = 0, ma_addr = \<lparr>a_len = 0, a_af = 0, a_addr = 0\<rparr>, ma_port = 0, ma_vid = 0, ma_ttl = 0,
     ma_query_type = 0, ma_data = [], ma_data_len = 0, ma_schd = 0\<rparr>"

definition plain_env :: env where
  "plain_env = \<lparr>e_lcore = 0, e_ring = \<lambda>_. 1, e_kni_qcnt = \<lambda>_. 1, e_filter4 = \<lambda>_ _ _. (-1, \<lparr>f_fid = 0, f_gid = 0, f_ftype = 0\<rparr>),
     e_filter6 = \<lambda>_ _ _. (-1, \<lparr>f_fid = 0, f_gid = 0, f_ftype = 0\<rparr>), e_router_find = \<lambda>_ a. (0, a, 1),
     e_geoip_find = \<lambda>_. (0, 1), e_geoip6_find = \<lambda>_. (0, 1), e_session1 = \<lambda>_. Some 5, e_session2 = \<lambda>_. Some 6,
     e_port = \<lambda>_. Some 7, e_neigh = \<lambda>_. Some 8, e_mbuf = \<lambda>_. None, e_margs = no_margs, e_lip = 0,
     e_thread = \<lambda>_ _. True, e_now = 0, e_threads = 1, e_kni_ring = \<lambda>_ _ _. [], e_thread_ring = \<lambda>_ _. None\<rparr>"

text \<open>A frame with an IPv4 header of 20 bytes and a transport header and data of 20 bytes.\<close>

definition sample_frame :: "u8 \<Rightarrow> mbuf" where
  "sample_frame proto = \<lparr>m_id = 1, m_data = replicate 12 0 @ [8, 0, 0x45, 0, 0, 40, 0, 0, 0, 0, 64, proto, 0, 0, 10, 0, 0, 9, 10, 0, 0, 1] @
     [0x30, 0x39, 0, 80] @ replicate 16 0, m_odd = False, m_next = [], m_port = 0, m_udata64 = 0\<rparr>"

lemma sample_frame_fields:
  "length (m_data (sample_frame proto)) = 54" "field (m_data (sample_frame proto)) 14 1 = (0x45 :: u8)"
  "field (m_data (sample_frame proto)) 23 1 = proto"
  "segments (sample_frame proto) = [(False, m_data (sample_frame proto))]"
  by (simp_all add: sample_frame_def field_def segments_def eval_nat_numeral)

end
