(* ===== verification/Forward.thy ===== *)
theory Forward
  imports Worker
begin

text \<open>
  al_process.c: a packet that belongs to a session is given the addresses of the peer session,
  its checksums are computed anew, and it is sent on.
\<close>

section \<open>Rewriting a packet\<close>

text \<open>
  The part of al_process from the comment on the checksums on, for the peer \<open>up\<close>. The offset of
  the transport header is passed to the checksum as the distance from the Ethernet header.
\<close>

definition rewrite4 :: "session_t \<Rightarrow> nat \<Rightarrow> nat \<Rightarrow> mbuf \<Rightarrow> mbuf option" where
  "rewrite4 up iphdr tcphdr m =
     do {
       m \<leftarrow> wr (iphdr + ip4_src_addr) 4 (ipv4 (s_local_addr up)) m;
       m \<leftarrow> wr (iphdr + ip4_dst_addr) 4 (ipv4 (s_remote_addr up)) m;
       m \<leftarrow> wr (tcphdr + tcp_cksum) 2 (0 :: u16) m;
       src \<leftarrow> rd (iphdr + ip4_src_addr) 4 m;
       dst \<leftarrow> rd (iphdr + ip4_dst_addr) 4 m;
       proto \<leftarrow> rd (iphdr + ip4_next_proto_id) 1 m;
       total_length \<leftarrow> rd (iphdr + ip4_total_length) 2 m;
       version_ihl \<leftarrow> rd (iphdr + ip4_version_ihl) 1 m;
       let hlen = unat ((version_ihl :: u8) AND 0xf) * 4;
       m \<leftarrow> wr (tcphdr + tcp_cksum) 2 (inet_chksum_pseudo (segments m) tcphdr src dst proto (bswap16 total_length - of_nat hlen)) m;
       m \<leftarrow> wr (iphdr + ip4_hdr_checksum) 2 (0 :: u16) m;
       if iphdr + hlen \<le> length (m_data m)
       then wr (iphdr + ip4_hdr_checksum) 2 (inet_chksum (m_odd m \<noteq> odd iphdr) (take hlen (drop iphdr (m_data m)))) m
       else None
     }"

definition words16 :: "nat \<Rightarrow> mbuf \<Rightarrow> u16 list option" where
  "words16 off m =
     (if off + 16 \<le> length (m_data m) then Some (map (\<lambda>i. field (m_data m) (off + 2 * i) 2) [0..<8]) else None)"

definition rewrite6 :: "session_t \<Rightarrow> nat \<Rightarrow> nat \<Rightarrow> mbuf \<Rightarrow> mbuf option" where
  "rewrite6 up iphdr tcphdr m =
     do {
       m \<leftarrow> wr (iphdr + ip6_src_addr) 16 (s_local_addr up) m;
       m \<leftarrow> wr (iphdr + ip6_dst_addr) 16 (s_remote_addr up) m;
       m \<leftarrow> wr (tcphdr + tcp_cksum) 2 (0 :: u16) m;
       src \<leftarrow> words16 (iphdr + ip6_src_addr) m;
       dst \<leftarrow> words16 (iphdr + ip6_dst_addr) m;
       proto \<leftarrow> rd (iphdr + ip6_proto) 1 m;
       payload_len \<leftarrow> rd (iphdr + ip6_payload_len) 2 m;
       ck \<leftarrow> inet6_chksum_pseudo (map snd (segments m)) tcphdr src dst proto (ucast (bswap16 payload_len) - of_nat SIZEOF_IPV6_HDR);
       wr (tcphdr + tcp_cksum) 2 ck m
     }"

definition al_process :: "env \<Rightarrow> addr \<Rightarrow> mbuf \<Rightarrow> nat \<Rightarrow> nat \<Rightarrow> worker \<Rightarrow> worker option" where
  "al_process e s buf iphdr tcphdr w =
     do {
       let ss = w_sess w;
       up_addr \<leftarrow> s_up (ss_obj ss s);
       let ss = ss\<lparr>ss_obj := (ss_obj ss)(s := (ss_obj ss s)\<lparr>s_stout := SESSION_IDLE_TIMEOUT\<rparr>)\<rparr>;
       let up = ss_obj ss up_addr;
       let w = w\<lparr>w_sess := ss\<rparr>;
       buf \<leftarrow> wr eth_d_addr 6 (s_from_haddr up) buf;
       buf \<leftarrow> (if s_is_dr (ss_obj ss s) = 0 then wr eth_s_addr 6 (s_to_haddr up) buf else Some buf);
       if s_ftype (ss_obj ss s) = AL_FLT_LLB then send_to_switch e (s_portid up) [buf] False w
       else do {
         buf \<leftarrow> wr (tcphdr + tcp_src_port) 2 (s_local_port up) buf;
         buf \<leftarrow> wr (tcphdr + tcp_dst_port) 2 (s_remote_port up) buf;
         buf \<leftarrow> (if s_in_type up = 0 then rewrite4 up iphdr tcphdr buf else rewrite6 up iphdr tcphdr buf);
         send_to_switch e (s_portid up) [buf] False w
       }
     }"

section \<open>What the rewriting of an IPv4 packet gives\<close>

definition ip4_hlen :: "nat \<Rightarrow> u8 list \<Rightarrow> nat" where
  "ip4_hlen h d = unat ((field d (h + ip4_version_ihl) 1 :: u8) AND 0xf) * 4"

text \<open>
  \<open>ip4_packet h t m\<close>: there is an IPv4 header at \<open>h\<close> of at least 20 bytes, followed at \<open>t\<close> by a
  transport header of at least 18 bytes.
\<close>

definition ip4_packet :: "nat \<Rightarrow> nat \<Rightarrow> mbuf \<Rightarrow> bool" where
  "ip4_packet h t m \<longleftrightarrow> 14 \<le> h \<and> t = h + ip4_hlen h (m_data m) \<and> h + 20 \<le> t \<and> t + 18 \<le> length (m_data m) \<and>
     list_all (\<lambda>q. length (snd q) \<le> 65535) (segments m)"

definition sums_ok :: "nat \<Rightarrow> nat \<Rightarrow> mbuf \<Rightarrow> bool" where
  "sums_ok h t m \<longleftrightarrow> (\<forall>al. inet_chksum al (take (t - h) (drop h (m_data m))) = 0) \<and>
     (\<forall>al. inet_chksum_pseudo ((al, m_data m) # m_next m) t (field (m_data m) (h + ip4_src_addr) 4) (field (m_data m) (h + ip4_dst_addr) 4)
        (field (m_data m) (h + ip4_next_proto_id) 1) (bswap16 (field (m_data m) (h + ip4_total_length) 2) - of_nat (t - h)) = 0)"

lemma pseudo_drop_cong:
  assumes "drop boff d = drop boff d'" "boff \<le> length d" "length d' = length d" "list_all (\<lambda>q. length (snd q) \<le> 65535) ((al, d) # ns)"
  shows "inet_chksum_pseudo ((al, d) # ns) boff src dst pr len = inet_chksum_pseudo ((al, d') # ns) boff src dst pr len"
  using pseudo_flat_step [of "(al, d) # ns" boff src dst pr len] pseudo_flat_step [of "(al, d') # ns" boff src dst pr len] assms
  by (simp add: word_unat_eq_iff)

lemma rewrite4_ok:
  assumes "ip4_packet h t m"
  obtains d' where "rewrite4 up h t m = Some (m\<lparr>m_data := d'\<rparr>)" "length d' = length (m_data m)"
    "field d' (h + ip4_src_addr) 4 = ipv4 (s_local_addr up)" "field d' (h + ip4_dst_addr) 4 = ipv4 (s_remote_addr up)"
    "\<And>i. i < length d' \<Longrightarrow> i < h + 10 \<or> h + 20 \<le> i \<Longrightarrow> i < t + 16 \<or> t + 18 \<le> i \<Longrightarrow> d' ! i = m_data m ! i"
    "sums_ok h t (m\<lparr>m_data := d'\<rparr>)"
proof -
  define d where "d = m_data m"
  define src where "src = ipv4 (s_local_addr up)"
  define dst where "dst = ipv4 (s_remote_addr up)"
  define hl where "hl = ip4_hlen h d"
  have t: "t = h + hl" "20 \<le> hl" "t + 18 \<le> length d" and l: "list_all (\<lambda>q. length (snd q) \<le> 65535) (segments m)"
    using assms by (auto simp: ip4_packet_def d_def hl_def)
  define d2 where "d2 = put (h + 16) (bytes_of 4 dst) (put (h + 12) (bytes_of 4 src) d)"
  define d3 where "d3 = put (t + 16) (bytes_of 2 (0 :: u16)) d2"
  define pr where "pr = (field d (h + 9) 1 :: u8)"
  define ln where "ln = bswap16 (field d (h + 2) 2) - of_nat hl"
  define ck where "ck = inet_chksum_pseudo ((m_odd m, d3) # m_next m) t src dst pr ln"
  define d4 where "d4 = put (t + 16) (bytes_of 2 ck) d3"
  define d5 where "d5 = put (h + 10) (bytes_of 2 (0 :: u16)) d4"
  define d6 where "d6 = put (h + 10) (bytes_of 2 (inet_chksum (m_odd m \<noteq> odd h) (take hl (drop h d5)))) d5"
  have len [simp]: "length d2 = length d" "length d3 = length d" "length d4 = length d" "length d5 = length d" "length d6 = length d"
    using t by (simp_all add: d2_def d3_def d4_def d5_def d6_def)
  have f2: "field d2 off n = field d off n" if "off + n \<le> h + 12 \<or> h + 20 \<le> off" for off n
    unfolding d2_def using t that by (auto simp: field_put_other)
  have f3: "field d3 off n = field d2 off n" if "off + n \<le> t + 16" for off n
    unfolding d3_def using t that by (auto simp: field_put_other)
  have a2: "field d2 (h + 12) 4 = src" "field d2 (h + 16) 4 = dst"
    unfolding d2_def using t by (simp_all add: field_put_other take_bit_word_eq_self)
  have a3: "field d3 (h + 12) 4 = src" "field d3 (h + 16) 4 = dst" "field d3 (h + 9) 1 = pr" "field d3 (h + 2) 2 = (field d (h + 2) 2 :: u16)"
    "field d3 h 1 = (field d h 1 :: u8)"
    using t by (simp_all add: f3 a2 f2 pr_def)
  have hl: "unat ((field d h 1 :: u8) AND 15) * 4 = hl" by (simp add: hl_def ip4_hlen_def ip4_version_ihl_def)
  have rw: "rewrite4 up h t m = Some (m\<lparr>m_data := d6\<rparr>)"
  proof -
    let ?m = "\<lambda>x. m\<lparr>m_data := x\<rparr>"
    have m: "m = ?m d" by (simp add: d_def)
    have w: "wr (h + 12) 4 src m = Some (?m (put (h + 12) (bytes_of 4 src) d))"
      "wr (h + 16) 4 dst (?m (put (h + 12) (bytes_of 4 src) d)) = Some (?m d2)"
      "wr (t + 16) 2 (0 :: u16) (?m d2) = Some (?m d3)" "wr (t + 16) 2 ck (?m d3) = Some (?m d4)"
      "wr (h + 10) 2 (0 :: u16) (?m d4) = Some (?m d5)"
      "wr (h + 10) 2 (inet_chksum (m_odd m \<noteq> odd h) (take hl (drop h d5))) (?m d5) = Some (?m d6)"
      using t by (simp_all add: wr_put d2_def d3_def d4_def d5_def d6_def flip: d_def)
    have r: "rd (h + 12) 4 (?m d3) = Some src" "rd (h + 16) 4 (?m d3) = Some dst" "rd (h + 9) 1 (?m d3) = Some pr"
      "rd (h + 2) 2 (?m d3) = Some (field d (h + 2) 2 :: u16)" "rd (h + 0) 1 (?m d3) = Some (field d h 1 :: u8)"
    proof -
      have sel: "m_data (?m d3) = d3" by simp
      have "h + 12 + 4 \<le> length d" "h + 16 + 4 \<le> length d" "h + 9 + 1 \<le> length d" "h + 2 + 2 \<le> length d" "h + 0 + 1 \<le> length d"
        using t by simp_all
      then show "rd (h + 12) 4 (?m d3) = Some src" "rd (h + 16) 4 (?m d3) = Some dst" "rd (h + 9) 1 (?m d3) = Some pr"
        "rd (h + 2) 2 (?m d3) = Some (field d (h + 2) 2 :: u16)" "rd (h + 0) 1 (?m d3) = Some (field d h 1 :: u8)"
        by (simp_all only: rd_def sel len if_True a3 add_0_right)
    qed
    have sg: "segments (?m d3) = (m_odd m, d3) # m_next m" by (simp add: segments_def)
    have sel: "m_data (?m d5) = d5" "m_odd (?m d5) = m_odd m" by simp_all
    have le: "h + hl \<le> length d" using t by simp
    show ?thesis unfolding rewrite4_def hdr_offsets src_def [symmetric] dst_def [symmetric]
      by (simp only: w r bind.bind_lunit Let_def hl sg ln_def [symmetric] ck_def [symmetric] sel len le if_True)
  qed
  have f6: "field d6 off n = field d4 off n" if "off + n \<le> h + 10 \<or> h + 12 \<le> off" for off n
    unfolding d6_def d5_def using t that by (auto simp: field_put_other)
  have f4: "field d4 off n = field d3 off n" if "off + n \<le> t + 16" for off n
    unfolding d4_def using t that by (auto simp: field_put_other)
  have a6: "field d6 (h + 12) 4 = src" "field d6 (h + 16) 4 = dst" "field d6 (h + 9) 1 = pr" "field d6 (h + 2) 2 = (field d (h + 2) 2 :: u16)"
    using t by (simp_all add: f6 f4 a3 del: One_nat_def add_2_eq_Suc')
  have n6: "d6 ! i = d ! i" if i: "i < length d" "i < h + 10 \<or> h + 20 \<le> i" "i < t + 16 \<or> t + 18 \<le> i" for i
  proof -
    have "i < h + 10 \<or> h + 10 + 2 \<le> i" "i < h + 12 \<or> h + 12 + 4 \<le> i" "i < h + 16 \<or> h + 16 + 4 \<le> i" "i < t + 16 \<or> t + 16 + 2 \<le> i" using i by auto
    then show ?thesis using i(1) t by (simp add: nth_put_out d6_def d5_def d4_def d3_def d2_def del: add_2_eq_Suc')
  qed
  have "inet_chksum al (take hl (drop h d6)) = 0" for al
  proof -
    let ?x = "take hl (drop h d5)"
    have "take hl (drop h d6) = put 10 (bytes_of 2 (inet_chksum (m_odd m \<noteq> odd h) ?x)) ?x"
      unfolding d6_def using t by (simp add: drop_put take_put)
    moreover have "\<forall>i < 2. ?x ! (10 + i) = 0" using t put_zero [of "h + 10" d4] by (auto simp: d5_def add.assoc)
    ultimately show ?thesis using t l inet_chksum_stored [of 10 ?x al] by (simp add: segments_def d_def)
  qed
  moreover have "inet_chksum_pseudo ((al, d6) # m_next m) t src dst pr ln = 0" for al
  proof -
    have "drop t d6 = drop t d4" unfolding d6_def d5_def using t by (intro nth_equalityI) (auto simp: nth_put)
    moreover have "inet_chksum_pseudo ((al, d4) # m_next m) t src dst pr ln = 0"
      unfolding d4_def ck_def using t l put_zero [of "t + 16" d2] by (intro pseudo_stored) (auto simp: segments_def d_def d3_def)
    ultimately show ?thesis using pseudo_drop_cong [of t d6 d4 al "m_next m"] t l by (simp add: segments_def d_def)
  qed
  ultimately have "sums_ok h t (m\<lparr>m_data := d6\<rparr>)" using t by (simp add: sums_ok_def hdr_offsets a6 ln_def del: One_nat_def add_2_eq_Suc')
  with rw show thesis using that [of d6] a6 n6 by (simp add: hdr_offsets flip: d_def src_def dst_def)
qed

text \<open>
  \<open>translated up h t m m'\<close>: \<open>m'\<close> is \<open>m\<close> with the Ethernet addresses, the IPv4 addresses and the
  ports of the session \<open>up\<close>, and with checksums that verify; nothing else has changed.
\<close>

definition translated :: "session_t \<Rightarrow> nat \<Rightarrow> nat \<Rightarrow> mbuf \<Rightarrow> mbuf \<Rightarrow> bool" where
  "translated up h t m m' \<longleftrightarrow> m' = m\<lparr>m_data := m_data m'\<rparr> \<and> length (m_data m') = length (m_data m) \<and>
     field (m_data m') eth_d_addr 6 = s_from_haddr up \<and> field (m_data m') eth_s_addr 6 = s_to_haddr up \<and>
     field (m_data m') (h + ip4_src_addr) 4 = ipv4 (s_local_addr up) \<and> field (m_data m') (h + ip4_dst_addr) 4 = ipv4 (s_remote_addr up) \<and>
     field (m_data m') (t + tcp_src_port) 2 = s_local_port up \<and> field (m_data m') (t + tcp_dst_port) 2 = s_remote_port up \<and>
     sums_ok h t m' \<and>
     (\<forall>i < length (m_data m). 12 \<le> i \<and> (i < h + 10 \<or> h + 20 \<le> i) \<and> (i < t \<or> t + 4 \<le> i) \<and> (i < t + 16 \<or> t + 18 \<le> i) \<longrightarrow>
        m_data m' ! i = m_data m ! i)"

definition touched :: "addr \<Rightarrow> worker \<Rightarrow> worker" where
  "touched s w = w\<lparr>w_sess := (w_sess w)\<lparr>ss_obj := (ss_obj (w_sess w))(s := (ss_obj (w_sess w) s)\<lparr>s_stout := SESSION_IDLE_TIMEOUT\<rparr>)\<rparr>\<rparr>"

lemma al_process_step:
  assumes "s_up (ss_obj (w_sess w) s) = Some u" "s_ftype (ss_obj (w_sess w) s) \<noteq> AL_FLT_LLB" "s_is_dr (ss_obj (w_sess w) s) = 0"
    and "s_in_type (ss_obj (w_sess w) u) = 0" and p: "ip4_packet h t m"
  defines "up \<equiv> ss_obj (w_sess w) u"
  obtains m' where "al_process e s m h t w = send_to_switch e (s_portid up) [m'] False (touched s w)" "translated up h t m m'"
proof -
  define d where "d = m_data m"
  have t: "14 \<le> h" "h + 20 \<le> t" "t + 18 \<le> length d" using p by (auto simp: ip4_packet_def d_def)
  define d1 where "d1 = put 6 (bytes_of 6 (s_to_haddr up)) (put 0 (bytes_of 6 (s_from_haddr up)) d)"
  define d2 where "d2 = put (t + 2) (bytes_of 2 (s_remote_port up)) (put t (bytes_of 2 (s_local_port up)) d1)"
  have len [simp]: "length d1 = length d" "length d2 = length d" using t by (simp_all add: d1_def d2_def)
  have n1: "d1 ! i = d ! i" if "i < length d" "12 \<le> i" for i using that t by (simp add: d1_def nth_put)
  have n2: "d2 ! i = d1 ! i" if "i < length d" "i < t \<or> t + 4 \<le> i" for i using that t by (auto simp: d2_def nth_put_out)
  have "field d2 (h + ip4_version_ihl) 1 = (field d (h + ip4_version_ihl) 1 :: u8)"
    using t n1 n2 by (intro field_cong) (auto simp: ip4_version_ihl_def)
  then have "ip4_packet h t (m\<lparr>m_data := d2\<rparr>)" using p by (simp add: ip4_packet_def ip4_hlen_def segments_def d_def [symmetric])
  then obtain d3 where r: "rewrite4 up h t (m\<lparr>m_data := d2\<rparr>) = Some (m\<lparr>m_data := d3\<rparr>)" "length d3 = length d"
    "field d3 (h + ip4_src_addr) 4 = ipv4 (s_local_addr up)" "field d3 (h + ip4_dst_addr) 4 = ipv4 (s_remote_addr up)"
    and n3: "\<And>i. i < length d3 \<Longrightarrow> i < h + 10 \<or> h + 20 \<le> i \<Longrightarrow> i < t + 16 \<or> t + 18 \<le> i \<Longrightarrow> d3 ! i = d2 ! i"
    and s: "sums_ok h t (m\<lparr>m_data := d3\<rparr>)"
    by (rule rewrite4_ok [of h t "m\<lparr>m_data := d2\<rparr>" up]) auto
  have "al_process e s m h t w = send_to_switch e (s_portid up) [m\<lparr>m_data := d3\<rparr>] False (touched s w)"
  proof -
    let ?m = "\<lambda>x. m\<lparr>m_data := x\<rparr>"
    have w1: "wr eth_d_addr 6 (s_from_haddr up) m = Some (?m (put 0 (bytes_of 6 (s_from_haddr up)) d))"
      "wr eth_s_addr 6 (s_to_haddr up) (?m (put 0 (bytes_of 6 (s_from_haddr up)) d)) = Some (?m d1)"
      "wr (t + tcp_src_port) 2 (s_local_port up) (?m d1) = Some (?m (put t (bytes_of 2 (s_local_port up)) d1))"
      "wr (t + tcp_dst_port) 2 (s_remote_port up) (?m (put t (bytes_of 2 (s_local_port up)) d1)) = Some (?m d2)"
      using t by (simp_all add: wr_put hdr_offsets d1_def d2_def flip: d_def)
    let ?o = "(ss_obj (w_sess w))(s := (ss_obj (w_sess w) s)\<lparr>s_stout := SESSION_IDLE_TIMEOUT\<rparr>)"
    have f: "s_from_haddr (?o u) = s_from_haddr up" "s_to_haddr (?o u) = s_to_haddr up" "s_local_port (?o u) = s_local_port up"
      "s_remote_port (?o u) = s_remote_port up" "s_in_type (?o u) = 0" "s_portid (?o u) = s_portid up"
      "s_is_dr (?o s) = 0" "s_ftype (?o s) \<noteq> AL_FLT_LLB"
      using assms(2-4) by (auto simp: up_def)
    have rw: "rewrite4 (?o u) h t x = rewrite4 up h t x" for x by (simp add: rewrite4_def up_def)
    show ?thesis using assms(1) by (simp add: al_process_def Let_def w1 r(1) f rw touched_def del: fun_upd_apply)
  qed
  moreover have "translated up h t m (m\<lparr>m_data := d3\<rparr>)"
  proof -
    have n: "d3 ! i = d ! i" if "i < length d" "12 \<le> i" "i < h + 10 \<or> h + 20 \<le> i" "i < t \<or> t + 4 \<le> i" "i < t + 16 \<or> t + 18 \<le> i" for i
      using n1 n2 n3 r(2) that by simp
    have "(field d3 0 6 :: u48) = field d1 0 6" "(field d3 6 6 :: u48) = field d1 6 6" using t r(2) n3 n2 by (intro field_cong; simp)+
    then have "field d3 0 6 = s_from_haddr up" "field d3 6 6 = s_to_haddr up"
      using t by (simp_all add: d1_def field_put_other take_bit_word_eq_self)
    moreover have "(field d3 t 2 :: u16) = field d2 t 2" "(field d3 (t + 2) 2 :: u16) = field d2 (t + 2) 2" using t r(2) n3 by (intro field_cong; simp)+
    then have "field d3 t 2 = s_local_port up" "field d3 (t + 2) 2 = s_remote_port up"
      using t by (simp_all add: d2_def field_put_other take_bit_word_eq_self)
    ultimately show ?thesis using r(2-4) s n by (simp add: translated_def eth_d_addr_def eth_s_addr_def tcp_src_port_def tcp_dst_port_def d_def [symmetric])
  qed
  ultimately show thesis using that by blast
qed

section \<open>What the receiver of the packet checks\<close>

text \<open>
  The bytes of a packet are those of its segments in order, and its IPv4 datagram has as many of
  them as the total length of its header says: what comes behind is padding of the Ethernet frame.
  \<open>tcp_packet h t m\<close>: the datagram is complete, carries TCP with the checksum field inside, and
  its padding, if there is any, is zero. \<open>ip4_valid\<close> and \<open>tcp_valid\<close> are the tests a receiver makes
  (RFC 791 and RFC 793), on the bytes of the header and of the segment alone: the one's complement
  sum, of the segment together with its pseudo header, is all ones.
\<close>

definition flat :: "mbuf \<Rightarrow> u8 list" where
  "flat m = concat (map snd (segments m))"

definition ip4_total :: "nat \<Rightarrow> mbuf \<Rightarrow> nat" where
  "ip4_total h m = unat (bswap16 (field (m_data m) (h + ip4_total_length) 2))"

definition tcp_packet :: "nat \<Rightarrow> nat \<Rightarrow> mbuf \<Rightarrow> bool" where
  "tcp_packet h t m \<longleftrightarrow> ip4_packet h t m \<and> field (m_data m) (h + ip4_next_proto_id) 1 = IPPROTO_TCP \<and>
     t + 18 \<le> h + ip4_total h m \<and> h + ip4_total h m \<le> length (flat m) \<and> list_all (\<lambda>b. b = 0) (drop (h + ip4_total h m) (flat m))"

definition ip4_valid :: "nat \<Rightarrow> nat \<Rightarrow> mbuf \<Rightarrow> bool" where
  "ip4_valid h t m \<longleftrightarrow> canon (le_nat (take (t - h) (drop h (flat m)))) = 65535"

definition tcp_valid :: "nat \<Rightarrow> nat \<Rightarrow> mbuf \<Rightarrow> bool" where
  "tcp_valid h t m \<longleftrightarrow> (let n = ip4_total h m - (t - h) in
     canon (le_nat (take n (drop t (flat m))) + unat (field (m_data m) (h + ip4_src_addr) 4 :: u32) + unat (field (m_data m) (h + ip4_dst_addr) 4 :: u32) +
       unat (bswap16 (ucast (field (m_data m) (h + ip4_next_proto_id) 1 :: u8))) + unat (bswap16 (of_nat n))) = 65535)"

lemma le_nat_zeros: "list_all (\<lambda>b. b = 0) bs \<Longrightarrow> le_nat bs = 0"
  by (induction bs) simp_all

lemma le_nat_padded: "list_all (\<lambda>b. b = 0) (drop n bs) \<Longrightarrow> le_nat (take n bs) = le_nat bs"
  using le_nat_append [of "take n bs" "drop n bs"] by (simp add: le_nat_zeros)

lemma canon_full: "0 = 65535 - canon n \<Longrightarrow> canon n = 65535"
  using canon_less [of n] by simp

lemma flat_data: "flat m = m_data m @ concat (map snd (m_next m))"
  by (simp add: flat_def segments_def)

text \<open>A packet whose sums verify in the code's own terms passes the tests of the receiver.\<close>

lemma sums_valid:
  assumes "sums_ok h t m" "h \<le> t" "t \<le> length (m_data m)" "list_all (\<lambda>q. length (snd q) \<le> 65535) (segments m)"
    and "t \<le> h + ip4_total h m" "list_all (\<lambda>b. b = 0) (drop (h + ip4_total h m) (flat m))"
  shows "ip4_valid h t m" "tcp_valid h t m"
proof -
  have le: "t - h \<le> 65535" using assms(2-4) by (auto simp: segments_def)
  have "inet_chksum False (take (t - h) (drop h (m_data m))) = 0" using assms(1) by (simp add: sums_ok_def)
  then have "0 = 65535 - canon (le_nat (take (t - h) (drop h (m_data m))))"
    using lwip_canon [of "take (t - h) (drop h (m_data m))" False] le
    by (simp add: inet_chksum_def NOT16_unat flip: unat_eq_0)
  then show "ip4_valid h t m" using assms(2,3) canon_full by (simp add: ip4_valid_def flat_data)
  let ?n = "ip4_total h m - (t - h)" and ?T = "bswap16 (field (m_data m) (h + ip4_total_length) 2) :: u16"
  have n: "?T - of_nat (t - h) = of_nat ?n"
    using of_nat_diff [of "t - h" "ip4_total h m", where 'a = "16 word"] assms(5) by (simp add: ip4_total_def)
  have "t + ?n = h + ip4_total h m" using assms(2,5) by simp
  then have pad: "le_nat (take ?n (drop t (flat m))) = le_nat (drop t (flat m))"
    using assms(6) by (intro le_nat_padded) (simp add: add.commute)
  have flat: "unat (inet_chksum_pseudo ((False, m_data m) # m_next m) t src dst pr ln) =
      65535 - canon (le_nat (drop t (flat m)) + unat src + unat dst + unat (bswap16 (ucast pr)) + unat (bswap16 ln))" for src dst pr ln
    using pseudo_flat_step [of "(False, m_data m) # m_next m" t] assms(3,4) by (simp add: flat_data segments_def)
  show "tcp_valid h t m" using assms(1) unfolding tcp_valid_def Let_def pad sums_ok_def n
    by (intro canon_full) (simp only: flip: flat, simp)
qed

lemma translated_valid:
  assumes "tcp_packet h t m" "translated up h t m m'"
  shows "ip4_valid h t m'" "tcp_valid h t m'" "flat m' = m_data m' @ drop (length (m_data m)) (flat m)" "ip4_total h m' = ip4_total h m"
proof -
  have t: "14 \<le> h" "h + 20 \<le> t" "t + 18 \<le> length (m_data m)" "t + 18 \<le> h + ip4_total h m"
    and l: "list_all (\<lambda>q. length (snd q) \<le> 65535) (segments m)"
    and z: "list_all (\<lambda>b. b = 0) (drop (h + ip4_total h m) (flat m))"
    using assms(1) by (auto simp: tcp_packet_def ip4_packet_def)
  have m': "m_next m' = m_next m" "length (m_data m') = length (m_data m)" "sums_ok h t m'"
    using assms(2) by (auto simp: translated_def) (metis mbuf.select_convs(4) mbuf.surjective mbuf.update_convs(2))
  have same: "m_data m' ! i = m_data m ! i" if "i < length (m_data m)" "12 \<le> i \<and> i < h + 10 \<or> t + 18 \<le> i" for i
    using assms(2) that t by (auto simp: translated_def)
  have "(field (m_data m') (h + ip4_total_length) 2 :: u16) = field (m_data m) (h + ip4_total_length) 2"
    using t same m'(2) by (intro field_cong) (auto simp: ip4_total_length_def)
  then show tot: "ip4_total h m' = ip4_total h m" by (simp add: ip4_total_def)
  show "flat m' = m_data m' @ drop (length (m_data m)) (flat m)" using m'(1) by (simp add: flat_data)
  have "drop k (m_data m') = drop k (m_data m)" if "t + 18 \<le> k" for k
    using that same m'(2) by (intro nth_equalityI) auto
  then have "drop (h + ip4_total h m) (flat m') = drop (h + ip4_total h m) (flat m)"
    using t(4) m'(1,2) by (simp add: flat_data)
  then show "ip4_valid h t m'" "tcp_valid h t m'"
    using sums_valid [OF m'(3)] t l z m'(1,2) by (simp_all add: tot segments_def)
qed

section \<open>Properties\<close>

text \<open>
  C4: al_process on a TCP packet over IPv4 of a session that is not a link load balancing or direct
  routing one. Exactly one packet is sent, on the port of the peer session. It is the packet that
  came, with the Ethernet and IP addresses and the ports of the peer, and all other bytes as they
  were apart from the two checksums. A receiver that takes the IPv4 header and the segment of the
  length the header gives, without the padding of the frame, finds both checksums right. The
  session's idle timer starts anew. The packet is a complete datagram whose padding, if any, is zero.
\<close>

theorem al_process_translates:
  assumes "s_up (ss_obj (w_sess w) s) = Some u" "s_ftype (ss_obj (w_sess w) s) \<noteq> AL_FLT_LLB" "s_is_dr (ss_obj (w_sess w) s) = 0"
    and "s_in_type (ss_obj (w_sess w) u) = 0" "tcp_packet h t m"
  shows "\<exists>m'. al_process e s m h t w = send_to_switch e (s_portid (ss_obj (w_sess w) u)) [m'] False (touched s w) \<and>
    translated (ss_obj (w_sess w) u) h t m m' \<and> ip4_valid h t m' \<and> tcp_valid h t m'"
proof -
  have "ip4_packet h t m" using assms(5) by (simp add: tcp_packet_def)
  from al_process_step [OF assms(1-4) this, of e] show ?thesis using translated_valid [OF assms(5)] by metis
qed

lemma put_commute:
  "off + length bs \<le> length d \<Longrightarrow> off' + length cs \<le> length d \<Longrightarrow> off + length bs \<le> off' \<Longrightarrow>
    put off bs (put off' cs d) = put off' cs (put off bs d)"
  by (rule nth_equalityI) (auto simp: nth_put)

definition over :: "nat \<Rightarrow> u8 list \<Rightarrow> mbuf \<Rightarrow> mbuf" where
  "over off bs m = m\<lparr>m_data := put off bs (m_data m)\<rparr>"

lemma wr_over:
  "off + n \<le> off' \<Longrightarrow> off' + length bs \<le> length (m_data m) \<Longrightarrow> wr off n x (over off' bs m) = map_option (over off' bs) (wr off n x m)"
  by (simp add: wr_put over_def put_commute [of off "bytes_of n x" "m_data m" off' bs])

lemma wr_over_same:
  "off + n \<le> length (m_data m) \<Longrightarrow> length bs = n \<Longrightarrow> wr off n x (over off bs m) = wr off n x m"
  by (simp add: wr_put over_def put_put_same)

lemma bind_wr_over:
  assumes "off + n \<le> off'" "off' + length bs \<le> length (m_data m)"
    and "\<And>m'. length (m_data m') = length (m_data m) \<Longrightarrow> k (over off' bs m') = k m'"
  shows "Option.bind (wr off n x (over off' bs m)) k = Option.bind (wr off n x m) k"
  using assms by (cases "wr off n x m") (auto simp: wr_over dest: wr_length)

lemma rewrite4_cksum:
  assumes "h + 20 \<le> t" "t + 18 \<le> length (m_data m)" "length bs = 2"
  shows "rewrite4 up h t (over (t + 16) bs m) = rewrite4 up h t m"
  unfolding rewrite4_def hdr_offsets using assms
  apply (intro bind_wr_over [of "h + 12"], simp, simp)
  apply (intro bind_wr_over [of "h + 16"], simp, simp)
  by (simp add: wr_over_same)

lemma al_process_cksum:
  assumes "s_up (ss_obj (w_sess w) s) = Some u" "s_ftype (ss_obj (w_sess w) s) \<noteq> AL_FLT_LLB" "s_in_type (ss_obj (w_sess w) u) = 0"
    and "14 \<le> h" "h + 20 \<le> t" "t + 18 \<le> length (m_data m)" "length bs = 2"
  shows "al_process e s (over (t + 16) bs m) h t w = al_process e s m h t w"
proof -
  have rw: "rewrite4 up h t (over (t + 16) bs m') = rewrite4 up h t m'" if "length (m_data m') = length (m_data m)" for up m'
    using that assms by (intro rewrite4_cksum) simp_all
  show ?thesis using assms unfolding al_process_def hdr_offsets
    by (auto simp: Let_def rw intro!: bind_wr_over)
qed

text \<open>
  C35: al_process treats the transport header as a TCP header whatever the protocol is. In a UDP
  datagram the place of the TCP checksum holds the ninth and tenth byte of the payload: they are
  overwritten, so that datagrams that differ there only become equal, while the UDP checksum
  stays what it was before the addresses and ports changed.
\<close>

theorem al_process_udp_corrupts:
  assumes "s_up (ss_obj (w_sess w) s) = Some u" "s_ftype (ss_obj (w_sess w) s) \<noteq> AL_FLT_LLB" "s_is_dr (ss_obj (w_sess w) s) = 0"
    and "s_in_type (ss_obj (w_sess w) u) = 0" "ip4_packet h t m" "field (m_data m) (h + ip4_next_proto_id) 1 = IPPROTO_UDP" "length payload = 2"
  shows "\<exists>m'. al_process e s m h t w = send_to_switch e (s_portid (ss_obj (w_sess w) u)) [m'] False (touched s w) \<and>
    al_process e s (over (t + SIZEOF_UDP_HDR + 8) payload m) h t w = al_process e s m h t w \<and>
    (field (m_data m') (t + udp_dgram_cksum) 2 :: u16) = field (m_data m) (t + udp_dgram_cksum) 2"
proof -
  obtain m' where m': "al_process e s m h t w = send_to_switch e (s_portid (ss_obj (w_sess w) u)) [m'] False (touched s w)"
    "translated (ss_obj (w_sess w) u) h t m m'"
    using al_process_step [OF assms(1-5), of e] by blast
  have t: "14 \<le> h" "h + 20 \<le> t" "t + 18 \<le> length (m_data m)" using assms(5) by (auto simp: ip4_packet_def)
  have "(field (m_data m') (t + 6) 2 :: u16) = field (m_data m) (t + 6) 2"
    using m'(2) t by (intro field_cong) (simp_all add: translated_def)
  moreover have "al_process e s (over (t + 16) payload m) h t w = al_process e s m h t w"
    using al_process_cksum [OF assms(1,2,4) t assms(7)] .
  moreover have "t + SIZEOF_UDP_HDR + 8 = t + 16" by (simp add: SIZEOF_UDP_HDR_def)
  ultimately show ?thesis using m'(1) by (intro exI [of _ m']) (simp only: udp_dgram_cksum_def simp_thms)
qed

section \<open>Instances\<close>

text \<open>Two sessions of the objects 5 and 6 that are each other's peer.\<close>

definition sample_worker :: worker where
  "sample_worker = idle_worker\<lparr>w_sess := empty_sessions\<lparr>ss_obj := (\<lambda>_. sample_session)(5 := sample_session\<lparr>s_up := Some 6\<rparr>,
     6 := sample_session\<lparr>s_up := Some 5, s_portid := 1, s_local_port := 7, s_remote_port := 8\<rparr>)\<rparr>\<rparr>"

lemma sample_frame_ip4: "ip4_packet 14 34 (sample_frame proto)"
  by (simp add: ip4_packet_def ip4_hlen_def sample_frame_fields ip4_version_ihl_def del: One_nat_def)

lemma sample_worker_peers:
  "s_up (ss_obj (w_sess sample_worker) 5) = Some 6" "s_ftype (ss_obj (w_sess sample_worker) 5) \<noteq> AL_FLT_LLB"
  "s_is_dr (ss_obj (w_sess sample_worker) 5) = 0" "s_in_type (ss_obj (w_sess sample_worker) 6) = 0"
  "s_portid (ss_obj (w_sess sample_worker) 6) = 1" "s_local_port (ss_obj (w_sess sample_worker) 6) = 7"
  by (simp_all add: sample_worker_def idle_worker_def sample_session_def AL_FLT_LLB_def)

lemma send_plain: "send_to_switch plain_env 1 [m] False w = Some (emit [To_switch 1 m] w)"
  by (simp add: send_to_switch_def burst_def plain_env_def vport_get_def MAX_ETHER_COUTER_def)

lemma sample_frame_tcp: "tcp_packet 14 34 (sample_frame 6)"
proof -
  have "(field (m_data (sample_frame 6)) 16 2 :: u16) = 0x2800" by code_simp
  moreover have "bswap16 0x2800 = 40" by code_simp
  ultimately have "ip4_total 14 (sample_frame 6) = 40" by (simp add: ip4_total_def ip4_total_length_def)
  then show ?thesis using sample_frame_ip4 [of 6] sample_frame_fields [of 6]
    by (simp add: tcp_packet_def flat_def ip4_next_proto_id_def IPPROTO_TCP_def del: One_nat_def)
qed

theorem al_process_translates_witness:
  "\<exists>m'. al_process plain_env 5 (sample_frame 6) 14 34 sample_worker = Some (emit [To_switch 1 m'] (touched 5 sample_worker)) \<and>
    field (m_data m') 34 2 = (7 :: u16) \<and> tcp_valid 14 34 m'"
  using al_process_translates [OF sample_worker_peers(1-4) sample_frame_tcp, of plain_env]
  by (auto simp: sample_worker_peers send_plain translated_def tcp_src_port_def)

theorem al_process_udp_corrupts_witness:
  "al_process plain_env 5 (over 50 [1, 2] (sample_frame 17)) 14 34 sample_worker = al_process plain_env 5 (sample_frame 17) 14 34 sample_worker"
proof -
  have "field (m_data (sample_frame 17)) (14 + ip4_next_proto_id) 1 = IPPROTO_UDP"
    by (simp add: ip4_next_proto_id_def IPPROTO_UDP_def sample_frame_fields del: One_nat_def)
  from al_process_udp_corrupts [OF sample_worker_peers(1-4) sample_frame_ip4 this, of "[1, 2]" plain_env]
  show ?thesis by (auto simp: SIZEOF_UDP_HDR_def)
qed

end
