(* ===== verification/Dns.thy ===== *)
theory Dns
  imports Worker
begin

text \<open>
  al_dns.c: the domain names served, kept in the adaptive radix tree g_dns, and al_gslb_process.c,
  the handler of DNS packets. A record al_dns_record is named by its address, and \<open>d_gid\<close> and
  \<open>d_dnsid\<close> are its fields; \<open>d_alloc\<close> are the records that are allocated.
\<close>

section \<open>The table of names\<close>

definition al_dns_init :: "dns_state \<Rightarrow> int \<times> dns_state" where
  "al_dns_init st = (0, st\<lparr>d_tree := \<lparr>t_root = Null, t_size = 0\<rparr>\<rparr>)"

text \<open>The result code is set to -1 at the start and never changed.\<close>

definition al_dns_insert :: "addr option \<Rightarrow> u8 list \<Rightarrow> u32 \<Rightarrow> u32 \<Rightarrow> dns_state \<Rightarrow> (int \<times> dns_state) option" where
  "al_dns_insert got d gid dnsid st =
     (case got of
        None \<Rightarrow> Some (-1, st)
      | Some rptr \<Rightarrow> do {
          let rc = -1;
          let st = st\<lparr>d_alloc := insert rptr (d_alloc st)\<rparr>;
          let st = st\<lparr>d_gid := (d_gid st)(rptr := gid), d_dnsid := (d_dnsid st)(rptr := dnsid)\<rparr>;
          (old, t) \<leftarrow> art_insert (d_tree st) d (Some rptr);
          Some (rc, st\<lparr>d_tree := t\<rparr>)
        })"

definition al_dns_lookup :: "u8 list \<Rightarrow> dns_state \<Rightarrow> (int \<times> addr option) option" where
  "al_dns_lookup dstr st =
     do {
       ptr \<leftarrow> art_search (d_tree st) dstr;
       Some (case ptr of None \<Rightarrow> (-1, None) | Some g \<Rightarrow> (0, Some g))
     }"

definition al_dns_delete :: "u8 list \<Rightarrow> dns_state \<Rightarrow> group_state \<Rightarrow> (int \<times> dns_state \<times> group_state) option" where
  "al_dns_delete d st gs =
     do {
       let rc = -1;
       (ptr, t) \<leftarrow> art_delete (d_tree st) d;
       let st = st\<lparr>d_tree := t\<rparr>;
       case ptr of
         None \<Rightarrow> Some (-1, st, gs)
       | Some p \<Rightarrow> do {
           (r, gs) \<leftarrow> al_group_delete (d_dnsid st p) (d_gid st p) gs;
           if p \<in> d_alloc st then Some (rc, st\<lparr>d_alloc := d_alloc st - {p}\<rparr>, gs) else None
         }
     }"

section \<open>DNS packets\<close>

definition dns_flag :: nat where "dns_flag = 2"
definition dns_qdcount :: nat where "dns_qdcount = 4"
definition dns_ancount :: nat where "dns_ancount = 6"
definition SIZEOF_DNS_HDR :: nat where "SIZEOF_DNS_HDR = 12"
definition DOMAIN_MAX_LEN :: nat where "DOMAIN_MAX_LEN = 255"
definition DNS_Q_CLASS_IN :: u8 where "DNS_Q_CLASS_IN = 1"
definition AL_IP_DEFAULT_TTL :: u8 where "AL_IP_DEFAULT_TTL = 64"

text \<open>The bit fields of struct dns_flag, the lowest bits first.\<close>

definition flag_qr :: "u16 \<Rightarrow> u16" where "flag_qr f = drop_bit 15 f"
definition flag_opcode :: "u16 \<Rightarrow> u16" where "flag_opcode f = drop_bit 11 f AND 0xf"

text \<open>
  The loop of dns_parse_name at the offset \<open>query\<close>, with the variable \<open>c\<close> and the bytes \<open>b\<close> written to
  the buffer. The result is the pointer returned, the buffer and the packet.
\<close>

function dns_parse_loop :: "nat \<Rightarrow> u8 \<Rightarrow> mbuf \<Rightarrow> u8 list \<Rightarrow> (nat option \<times> u8 list \<times> mbuf) option" where
  "dns_parse_loop query c m b =
     (case rd query 1 m of None \<Rightarrow> None | Some n \<Rightarrow>
      (case wr query 1 c m of None \<Rightarrow> None | Some m \<Rightarrow>
        if (n :: u8) AND 0xc0 = 0xc0 then Some (None, b, m)
        else if length b < unat n then Some (None, b, m)
        else
          (let b = (if b \<noteq> [] then b @ [0x2e] else b) @ replicate (unat n) 0x2e;
               query = query + 1 + unat n
           in if DOMAIN_MAX_LEN < length b then None
              else case (rd query 1 m :: u8 option) of None \<Rightarrow> None
                   | Some x \<Rightarrow> if x \<noteq> 0 then dns_parse_loop query n m b else Some (Some (query + 1), b, m))))"
  by pat_completeness auto

termination dns_parse_loop
  by (relation "measure (\<lambda>(query, c, m, b). length (m_data m) - query)") (auto dest!: rd_Some_bound wr_length)

declare dns_parse_loop.simps [simp del]

definition dns_parse_name :: "nat \<Rightarrow> mbuf \<Rightarrow> (nat option \<times> u8 list \<times> mbuf) option" where
  "dns_parse_name query m = dns_parse_loop query 0 m []"

text \<open>
  al_gslb_process. \<open>gslb_implm\<close> is the part that decides whether the query is one that the code
  answers: it gives \<open>None\<close> in its first component where the code jumps to END, and otherwise the
  value of \<open>implm\<close> and the name. \<open>margs.data\<close> is a pointer that is never set, so the code behind the
  search for the client's location begins with a store through an indeterminate pointer.
\<close>

definition gslb_implm :: "nat \<Rightarrow> mbuf \<Rightarrow> ((bool \<times> u8 list) option \<times> mbuf) option" where
  "gslb_implm dnshdr m =
     do {
       flag \<leftarrow> rd (dnshdr + dns_flag) 2 m;
       qdcount \<leftarrow> rd (dnshdr + dns_qdcount) 2 m;
       if (qdcount :: u16) \<noteq> 1 then Some (Some (False, []), m)
       else if flag_opcode flag \<noteq> 0 then Some (Some (False, []), m)
       else do {
         (qstr2, d, m) \<leftarrow> dns_parse_name (dnshdr + SIZEOF_DNS_HDR) m;
         case qstr2 of
           None \<Rightarrow> Some (None, m)
         | Some qry \<Rightarrow> do {
             type \<leftarrow> rd qry 2 m;
             let query_type = (ucast (bswap16 type) :: u8);
             Some (if query_type \<noteq> DNS_Q_A \<and> query_type \<noteq> DNS_Q_AAAA then (Some (False, d), m)
                   else if query_type \<noteq> DNS_Q_CLASS_IN then (Some (False, d), m) else (Some (True, d), m))
           }
       }
     }"

text \<open>\<open>gslb_answer\<close> is the branch that answers, from the search for the name on.\<close>

definition gslb_answer :: "env \<Rightarrow> u16 \<Rightarrow> u8 list \<Rightarrow> mbuf \<Rightarrow> nat \<Rightarrow> nat \<Rightarrow> worker \<Rightarrow> worker option" where
  "gslb_answer e etype d buf iphdr nextptr w =
     do {
       (rc, dr) \<leftarrow> al_dns_lookup d (w_dns w);
       if rc \<noteq> 0 then send_to_switch e (m_port buf) [buf] True w
       else if etype = ETHER_TYPE_IPv4 then do {
         src_addr \<leftarrow> rd (iphdr + ip4_src_addr) 4 buf;
         if fst (e_geoip_find e src_addr) \<noteq> 0 then send_to_switch e (m_port buf) [buf] True w
         else do {
           buf \<leftarrow> wr (iphdr + ip4_next_proto_id) 1 AL_IP_DEFAULT_TTL buf;
           buf \<leftarrow> wr (iphdr + ip4_hdr_checksum) 2 (0 :: u16) buf;
           buf \<leftarrow> wr (nextptr + udp_dgram_cksum) 2 (0 :: u16) buf;
           None
         }
       }
       else if etype = ETHER_TYPE_IPv6 then do {
         src_addr \<leftarrow> rd (iphdr + ip6_src_addr) 16 buf;
         if fst (e_geoip6_find e src_addr) \<noteq> 0 then send_to_switch e (m_port buf) [buf] True w
         else do { buf \<leftarrow> wr (iphdr + ip6_hop_limits) 1 AL_IP_DEFAULT_TTL buf; None }
       }
       else send_to_switch e (m_port buf) [buf] True w
     }"

definition al_gslb_process :: "env \<Rightarrow> mbuf \<Rightarrow> nat \<Rightarrow> nat \<Rightarrow> worker \<Rightarrow> worker option" where
  "al_gslb_process e buf iphdr nextptr w =
     do {
       etype \<leftarrow> rd eth_ether_type 2 buf;
       let dnshdr = nextptr + SIZEOF_UDP_HDR;
       flag \<leftarrow> rd (dnshdr + dns_flag) 2 buf;
       let flag = bswap16 flag;
       buf \<leftarrow> wr (dnshdr + dns_flag) 2 flag buf;
       if flag_qr flag = 0 then send_to_switch e (m_port buf) [buf] True w
       else do {
         (implm, buf) \<leftarrow> gslb_implm dnshdr buf;
         case implm of
           None \<Rightarrow> send_to_switch e (m_port buf) [buf] True w
         | Some (ok, d) \<Rightarrow>
             if \<not> ok then do { buf \<leftarrow> wr (dnshdr + dns_ancount) 2 (0 :: u16) buf; send_to_switch e (m_port buf) [buf] False w }
             else gslb_answer e (bswap16 etype) d buf iphdr nextptr w
       }
     }"

section \<open>Names are kept\<close>

text \<open>
  \<open>dns_view st v\<close>: the table holds the names \<open>v\<close>, each with a group and an id, in a record of its own,
  and exactly these records are allocated.
\<close>

definition dns_rep :: "dns_state \<Rightarrow> (u8 list \<rightharpoonup> addr) \<Rightarrow> bool" where
  "dns_rep st R \<longleftrightarrow> art_rep (d_tree st) (\<lambda>k. map_option Some (R k)) \<and> inj_on R (dom R) \<and> d_alloc st = ran R"

definition dns_view :: "dns_state \<Rightarrow> (u8 list \<rightharpoonup> u32 \<times> u32) \<Rightarrow> bool" where
  "dns_view st v \<longleftrightarrow> (\<exists>R. dns_rep st R \<and> v = (\<lambda>k. map_option (\<lambda>a. (d_gid st a, d_dnsid st a)) (R k)))"

lemma map_option_upd: "(\<lambda>k. map_option f ((R(x \<mapsto> a)) k)) = (\<lambda>k. map_option f (R k))(x \<mapsto> f a)"
  "(\<lambda>k. map_option f ((R(x := None)) k)) = (\<lambda>k. map_option f (R k))(x := None)"
  by (auto simp: fun_eq_iff)

lemma dns_lookup_view:
  assumes "dns_view st v" "v name = Some (gid, dnsid)"
  shows "\<exists>a. al_dns_lookup name st = Some (0, Some a) \<and> d_gid st a = gid \<and> d_dnsid st a = dnsid"
proof -
  obtain R a where R: "art_rep (d_tree st) (\<lambda>k. map_option Some (R k))" "R name = Some a" "d_gid st a = gid" "d_dnsid st a = dnsid"
    using assms by (auto simp: dns_view_def dns_rep_def)
  then have "art_search (d_tree st) name = Some (Some a)" using search_map_step [OF R(1), of name] by (simp add: dom_def)
  then show ?thesis using R(3,4) by (simp add: al_dns_lookup_def)
qed

lemma dns_insert_step:
  assumes "dns_view st v" "key_ok name" "\<forall>k \<in> dom v. k \<parallel> name" "a \<notin> d_alloc st"
  shows "\<exists>st'. al_dns_insert (Some a) name gid dnsid st = Some (-1, st') \<and> dns_view st' (v(name \<mapsto> (gid, dnsid))) \<and>
    al_dns_lookup name st' = Some (0, Some a) \<and> d_alloc st' = insert a (d_alloc st)"
proof -
  obtain R where R: "dns_rep st R" and v: "v = (\<lambda>k. map_option (\<lambda>a. (d_gid st a, d_dnsid st a)) (R k))"
    using assms(1) by (auto simp: dns_view_def)
  let ?m = "\<lambda>k. map_option Some (R k)"
  have r: "art_rep (d_tree st) ?m" "inj_on R (dom R)" "d_alloc st = ran R" using R by (simp_all add: dns_rep_def)
  have a: "R k \<noteq> Some a" for k using assms(4) r(3) by (auto simp: ran_def)
  have dom: "dom v = dom R" by (auto simp: v dom_def)
  have n: "R name = None"
  proof (rule ccontr)
    assume "R name \<noteq> None"
    then have "name \<parallel> name" using assms(3) dom by auto
    then show False by (simp add: parallel_def)
  qed
  obtain t' where t': "art_insert (d_tree st) name (Some a) = Some (None, t')" "art_rep t' (?m(name \<mapsto> Some a))"
  proof -
    have "\<forall>k \<in> dom ?m. k = name \<or> k \<parallel> name" using assms(3) dom by auto
    from insert_map_step [OF r(1) assms(2) this, of "Some a"] show ?thesis using n that by auto
  qed
  let ?st = "st\<lparr>d_alloc := insert a (d_alloc st), d_gid := (d_gid st)(a := gid), d_dnsid := (d_dnsid st)(a := dnsid), d_tree := t'\<rparr>"
  have "dns_rep ?st (R(name \<mapsto> a))"
    using t'(2) r(2,3) a n unfolding dns_rep_def map_option_upd by (auto simp: inj_on_def ran_map_upd)
  moreover have "v(name \<mapsto> (gid, dnsid)) = (\<lambda>k. map_option (\<lambda>a. (d_gid ?st a, d_dnsid ?st a)) ((R(name \<mapsto> a)) k))"
    using a by (auto simp: fun_eq_iff v map_option_case split: option.splits)
  ultimately have "dns_view ?st (v(name \<mapsto> (gid, dnsid)))" unfolding dns_view_def by blast
  moreover have "art_search t' name = Some (Some a)" using search_map_step [OF t'(2), of name] by simp
  ultimately show ?thesis using t'(1) by (simp add: al_dns_insert_def al_dns_lookup_def Let_def)
qed

lemma dns_delete_step:
  assumes "dns_view st v" "v name = Some (gid, dnsid)" "group_wf gs g L" "g (al_make_key dnsid gid) = Some node"
  shows "\<exists>st' gs'. al_dns_delete name st gs = Some (-1, st', gs') \<and> dns_view st' (v(name := None)) \<and>
    (\<forall>a. al_dns_lookup name st = Some (0, Some a) \<longrightarrow> d_alloc st' = d_alloc st - {a}) \<and>
    group_wf gs' (g(al_make_key dnsid gid := None)) (L(node := []))"
proof -
  obtain R where R: "dns_rep st R" and v: "v = (\<lambda>k. map_option (\<lambda>a. (d_gid st a, d_dnsid st a)) (R k))"
    using assms(1) by (auto simp: dns_view_def)
  let ?m = "\<lambda>k. map_option Some (R k)"
  have r: "art_rep (d_tree st) ?m" "inj_on R (dom R)" "d_alloc st = ran R" using R by (simp_all add: dns_rep_def)
  obtain a where a: "R name = Some a" "d_gid st a = gid" "d_dnsid st a = dnsid" using assms(2) v by auto
  obtain t' where t': "art_delete (d_tree st) name = Some (Some a, t')" "art_rep t' (?m(name := None))"
    using delete_map_step [OF r(1), of name] a(1) by auto
  obtain gs' where gs': "al_group_delete dnsid gid gs = Some (0, gs')" "group_wf gs' (g(al_make_key dnsid gid := None)) (L(node := []))"
    using group_delete_step [OF assms(3,4)] by blast
  let ?st = "st\<lparr>d_tree := t', d_alloc := d_alloc st - {a}\<rparr>"
  have "ran (R(name := None)) = ran R - {a}"
    by (rule ran_upd_None [where m = R and x = name and a = a]) (use inj_onD [OF r(2), of _ name] a(1) in auto)
  then have "dns_rep ?st (R(name := None))"
    using t'(2) r(2,3) unfolding dns_rep_def map_option_upd by (auto simp: inj_on_def)
  moreover have "v(name := None) = (\<lambda>k. map_option (\<lambda>a. (d_gid ?st a, d_dnsid ?st a)) ((R(name := None)) k))"
    by (auto simp: fun_eq_iff v)
  ultimately have "dns_view ?st (v(name := None))" unfolding dns_view_def by blast
  moreover have "a \<in> d_alloc st" using a(1) r(3) by (auto simp: ran_def)
  moreover have "al_dns_lookup name st = Some (0, Some a)" using search_map_step [OF r(1), of name] a(1) by (simp add: al_dns_lookup_def dom_def)
  ultimately show ?thesis using t'(1) gs' a by (simp add: al_dns_delete_def Let_def)
qed

text \<open>
  C38: a new name that is neither a prefix of a name in the table nor has one as its prefix. With a
  record that is not in use al_dns_insert puts it into the table with its group and id, and
  al_dns_lookup finds it and every name there was, with the right groups and ids. As long as the
  group exists al_dns_delete takes the name out again and deletes the group with it; the table is
  then what it was, no other group is touched, and the record is free. Both report failure.
\<close>

theorem dns_insert_lookup:
  assumes "dns_view st v" "key_ok name" "\<forall>k \<in> dom v. k \<parallel> name" "a \<notin> d_alloc st"
  shows "\<exists>st'. al_dns_insert (Some a) name gid dnsid st = Some (-1, st') \<and> dns_view st' (v(name \<mapsto> (gid, dnsid))) \<and>
    (\<forall>k gid' dnsid'. (v(name \<mapsto> (gid, dnsid))) k = Some (gid', dnsid') \<longrightarrow>
       (\<exists>b. al_dns_lookup k st' = Some (0, Some b) \<and> d_gid st' b = gid' \<and> d_dnsid st' b = dnsid')) \<and>
    (\<forall>gs g L node. group_wf gs g L \<and> g (al_make_key dnsid gid) = Some node \<longrightarrow>
       (\<exists>st'' gs'. al_dns_delete name st' gs = Some (-1, st'', gs') \<and> dns_view st'' v \<and> d_alloc st'' = d_alloc st \<and>
          group_wf gs' (g(al_make_key dnsid gid := None)) (L(node := []))))"
proof -
  obtain st' where st': "al_dns_insert (Some a) name gid dnsid st = Some (-1, st')" "dns_view st' (v(name \<mapsto> (gid, dnsid)))"
    "al_dns_lookup name st' = Some (0, Some a)" "d_alloc st' = insert a (d_alloc st)"
    using dns_insert_step [OF assms] by blast
  have "v name = None" using assms(3) by (cases "v name") auto
  then have v: "(v(name \<mapsto> (gid, dnsid)))(name := None) = v" by (auto simp: fun_eq_iff)
  have "\<exists>st'' gs'. al_dns_delete name st' gs = Some (-1, st'', gs') \<and> dns_view st'' v \<and> d_alloc st'' = d_alloc st \<and>
      group_wf gs' (g(al_make_key dnsid gid := None)) (L(node := []))"
    if "group_wf gs g L" "g (al_make_key dnsid gid) = Some node" for gs g L node
    using dns_delete_step [OF st'(2) _ that, of name] st'(3,4) assms(4) unfolding v by auto
  then show ?thesis using st' dns_lookup_view [OF st'(2)] by blast
qed

section \<open>No DNS query is answered\<close>

lemma put1: "off < length d \<Longrightarrow> put off (bytes_of 1 (w :: u8)) d = d[off := w]"
  by (rule nth_equalityI) (auto simp: nth_put bytes_of_def nth_list_update)

lemma rd1: "rd off 1 m = (if off < length (m_data m) then Some (m_data m ! off :: u8) else None)"
proof -
  have "field (m_data m) off 1 = m_data m ! off" if "off < length (m_data m)"
    using that by (simp add: field_def take_Suc hd_drop_conv_nth)
  then show ?thesis by (simp add: rd_def)
qed

lemma wr1: "wr off 1 (w :: u8) m = (if off < length (m_data m) then Some (m\<lparr>m_data := (m_data m)[off := w]\<rparr>) else None)"
  by (simp add: wr_put put1 del: One_nat_def)

lemma first_label:
  assumes "query < length (m_data m)" "m_data m ! query \<noteq> 0"
  shows "dns_parse_loop query c m [] = Some (None, [], m\<lparr>m_data := (m_data m)[query := c]\<rparr>)"
  using assms by (simp add: dns_parse_loop.simps [of query] rd1 wr1 unat_gt_0 del: One_nat_def)

lemma dns_parse_name_step:
  assumes "query + 1 < length (m_data m)"
  shows "dns_parse_name query m =
    (if m_data m ! query \<noteq> 0 then Some (None, [], m\<lparr>m_data := (m_data m)[query := 0]\<rparr>)
     else if m_data m ! (query + 1) \<noteq> 0 then Some (None, [], m\<lparr>m_data := (m_data m)[query + 1 := 0]\<rparr>)
     else Some (Some (query + 2), [], m))"
proof (cases "m_data m ! query = 0")
  case True
  have m: "m\<lparr>m_data := (m_data m)[query := 0]\<rparr> = m" using True list_update_id [of "m_data m" query] by simp
  show ?thesis
    using True assms first_label [of "query + 1" m 0]
    by (simp add: dns_parse_name_def dns_parse_loop.simps [of query] rd1 wr1 m DOMAIN_MAX_LEN_def del: One_nat_def)
next
  case False
  then show ?thesis using assms first_label [of query m 0] by (simp add: dns_parse_name_def)
qed

text \<open>
  C39: dns_parse_name stops at the latest at the second byte. Any name with a label in front is
  refused, and the length of that label is overwritten with zero; the empty name is accepted only
  if another zero byte follows, which is then taken for a part of the name; the buffer never gets
  a character.
\<close>

theorem dns_parse_name_stops:
  assumes "query + 1 < length (m_data m)"
  shows "dns_parse_name query m =
    (if m_data m ! query \<noteq> 0 then Some (None, [], m\<lparr>m_data := (m_data m)[query := 0]\<rparr>)
     else if m_data m ! (query + 1) \<noteq> 0 then Some (None, [], m\<lparr>m_data := (m_data m)[query + 1 := 0]\<rparr>)
     else Some (Some (query + 2), [], m))"
  by (rule dns_parse_name_step [OF assms])

lemma dns_parse_name_frame:
  assumes "dns_parse_name query m = Some (r, b, m')"
  shows "m' = m\<lparr>m_data := m_data m'\<rparr> \<and> length (m_data m') = length (m_data m) \<and> (\<forall>i < query. m_data m' ! i = m_data m ! i)"
proof (cases "query + 1 < length (m_data m)")
  case True
  then show ?thesis using assms dns_parse_name_step [OF True] by (auto split: if_splits)
next
  case False
  then have "query < length (m_data m) \<and> m_data m ! query \<noteq> 0"
    using assms by (auto simp: dns_parse_name_def dns_parse_loop.simps [of query] rd1 wr1 simp del: One_nat_def split: if_splits)
  then show ?thesis using assms first_label [of query m 0] by (auto simp: dns_parse_name_def)
qed

lemma field2: "off + 2 \<le> length d \<Longrightarrow> field d off 2 = le16 (d ! off) (d ! (off + 1))"
proof -
  assume "off + 2 \<le> length d"
  then have "take 2 (drop off d) = [d ! off, d ! (off + 1)]" by (intro nth_equalityI) (auto simp: less_2_cases_iff)
  then show ?thesis by (simp add: field_def le16_def ac_simps)
qed

lemma bytes_le16: "bytes_of 2 (le16 a b) = [a, b]"
proof -
  have "bytes_of 2 (le16 a b) = [ucast (le16 a b), ucast (drop_bit 8 (le16 a b))]" by (simp add: bytes_of_def upt_rec)
  moreover have "ucast (le16 a b) = a" "ucast (drop_bit 8 (le16 a b)) = b"
    unfolding le16_def by (rule bit_word_eqI; auto simp: bit_simps dest: bit_imp_le_length)+
  ultimately show ?thesis by simp
qed

lemma flag_qr_le16: "flag_qr (le16 b a) = 0 \<longleftrightarrow> a < 128"
proof -
  have "unat (flag_qr (le16 b a)) = (unat b + 256 * unat a) div 32768"
    unfolding flag_qr_def unat_drop_bit_eq le16_unat by (simp add: drop_bit_eq_div)
  moreover have "unat b < 256" using unsigned_less [of b, where 'a = nat] by simp
  then have "(unat b + 256 * unat a) div 32768 = 0 \<longleftrightarrow> unat a < 128" by auto
  ultimately show ?thesis by (simp add: word_less_nat_alt flip: unat_eq_0)
qed

text \<open>
  C40: al_gslb_process does not answer DNS queries. A packet whose QR bit is clear, which is what
  makes it a query, goes to the kernel, with the two bytes of its flags exchanged.
\<close>

theorem gslb_query_corrupted:
  assumes "t + SIZEOF_UDP_HDR + SIZEOF_DNS_HDR \<le> length (m_data m)" "14 \<le> t" "m_data m ! (t + 10) < 128"
  shows "al_gslb_process e m h t w = send_to_switch e (m_port m)
    [m\<lparr>m_data := (m_data m)[t + 10 := m_data m ! (t + 11), t + 11 := m_data m ! (t + 10)]\<rparr>] True w"
proof -
  let ?d = "m_data m"
  have f: "field ?d (t + 10) 2 = le16 (?d ! (t + 10)) (?d ! (t + 11))" using assms(1) field2 [of "t + 10" ?d] by (simp add: hdr_offsets SIZEOF_DNS_HDR_def add.commute)
  have p: "put (t + 10) [?d ! (t + 11), ?d ! (t + 10)] ?d = ?d[t + 10 := ?d ! (t + 11), t + 11 := ?d ! (t + 10)]"
    using assms(1) by (intro nth_equalityI) (auto simp: nth_put hdr_offsets SIZEOF_DNS_HDR_def nth_list_update less_Suc_eq nth_Cons split: nat.splits)
  have c: "10 + t = t + 10" by simp
  show ?thesis using assms unfolding al_gslb_process_def
    by (simp add: hdr_offsets SIZEOF_DNS_HDR_def dns_flag_def rd_def wr_put) (simp add: c f bswap_le16 bytes_le16 flag_qr_le16 p)
qed

lemma gslb_implm_frame:
  assumes "gslb_implm dnshdr m = Some (r, m')"
  shows "m' = m\<lparr>m_data := m_data m'\<rparr> \<and> length (m_data m') = length (m_data m) \<and> (\<forall>i < dnshdr + 12. m_data m' ! i = m_data m ! i)"
  using assms
  by (auto simp: gslb_implm_def SIZEOF_DNS_HDR_def Let_def split: bind_splits if_splits option.splits prod.splits dest!: dns_parse_name_frame)

lemma gslb_answer_kni:
  assumes "gslb_answer e etype d m h t w = Some w'"
  shows "send_to_switch e (m_port m) [m] True w = Some w'"
  using assms by (auto simp: gslb_answer_def split: bind_splits if_splits prod.splits)

lemma gslb_step:
  assumes "al_gslb_process e m h t w = Some w'"
  shows "\<exists>m' kni. send_to_switch e (m_port m) [m'] kni w = Some w' \<and> m' = m\<lparr>m_data := m_data m'\<rparr> \<and>
    length (m_data m') = length (m_data m) \<and> (\<forall>i < t + 10. m_data m' ! i = m_data m ! i) \<and>
    (field (m_data m') (t + 14) 2 :: u16) \<in> {0, field (m_data m) (t + 14) 2}"
proof -
  define same where "same m1 m2 \<longleftrightarrow> m2 = m1\<lparr>m_data := m_data m2\<rparr> \<and> length (m_data m2) = length (m_data m1) \<and>
    (\<forall>i < t + 10. m_data m2 ! i = m_data m1 ! i) \<and> (field (m_data m2) (t + 14) 2 :: u16) \<in> {0, field (m_data m1) (t + 14) 2}" for m1 m2 :: mbuf
  have refl: "same x x" for x by (simp add: same_def)
  have trans: "same x z" if "same x y" "same y z" for x y z using that by (auto simp: same_def same_header)
  have port: "m_port y = m_port x" if "same x y" for x y using that by (simp add: same_def same_header)
  obtain flag m1 where m1: "wr (t + 8 + 2) 2 (flag :: u16) m = Some m1" and r: "(if flag_qr flag = 0 then send_to_switch e (m_port m1) [m1] True w = Some w'
      else \<exists>implm m2. gslb_implm (t + 8) m1 = Some (implm, m2) \<and>
       ((\<exists>kni. send_to_switch e (m_port m2) [m2] kni w = Some w') \<or>
        (\<exists>m3. wr (t + 8 + 6) 2 (0 :: u16) m2 = Some m3 \<and> send_to_switch e (m_port m3) [m3] False w = Some w')))"
    using assms unfolding al_gslb_process_def Let_def SIZEOF_UDP_HDR_def dns_flag_def dns_ancount_def
    by (auto split: bind_splits if_splits option.splits prod.splits dest!: gslb_answer_kni intro!: that)
  have s1: "same m m1"
    using m1 unfolding same_def by (auto simp: wr_put nth_put field_put_other split: if_splits)
  have s2: "same m1 m2" if "gslb_implm (t + 8) m1 = Some (implm, m2)" for implm m2
  proof -
    note f = gslb_implm_frame [OF that]
    then have "(field (m_data m2) (t + 14) 2 :: u16) = field (m_data m1) (t + 14) 2" by (intro field_cong) auto
    then show ?thesis using f by (simp add: same_def)
  qed
  have s3: "same m2 m3" if "wr (t + 8 + 6) 2 (0 :: u16) m2 = Some m3" for m2 m3
    using that unfolding same_def by (auto simp: wr_put nth_put add.commute split: if_splits)
  consider (query) "send_to_switch e (m_port m1) [m1] True w = Some w'"
    | (kept) implm m2 kni where "gslb_implm (t + 8) m1 = Some (implm, m2)" "send_to_switch e (m_port m2) [m2] kni w = Some w'"
    | (zeroed) implm m2 m3 where "gslb_implm (t + 8) m1 = Some (implm, m2)" "wr (t + 8 + 6) 2 (0 :: u16) m2 = Some m3"
        "send_to_switch e (m_port m3) [m3] False w = Some w'"
    using r by (meson option.inject)
  then obtain m' kni where m': "send_to_switch e (m_port m') [m'] kni w = Some w'" "same m m'"
  proof cases
    case query
    then show ?thesis by (rule that) (rule s1)
  next
    case kept
    show ?thesis by (rule that [OF kept(2) trans [OF s1 s2 [OF kept(1)]]])
  next
    case zeroed
    show ?thesis by (rule that [OF zeroed(3) trans [OF s1 trans [OF s2 [OF zeroed(1)] s3 [OF zeroed(2)]]]])
  qed
  show ?thesis
    using m'(1) m'(2) [unfolded same_def] unfolding port [OF m'(2)] by (intro exI [of _ m'] exI [of _ kni] conjI) simp_all
qed

section \<open>Instances\<close>

theorem dns_insert_lookup_witness:
  "\<exists>st'. al_dns_insert (Some 3) [97, 98] 1 1 (w_dns idle_worker) = Some (-1, st') \<and>
    (\<exists>b. al_dns_lookup [97, 98] st' = Some (0, Some b) \<and> d_gid st' b = 1) \<and>
    (\<exists>st'' gs'. al_dns_delete [97, 98] st' chained_group = Some (-1, st'', gs') \<and> d_alloc st'' = {} \<and> group_wf gs' Map.empty (\<lambda>_. []))"
proof -
  have "dns_rep (w_dns idle_worker) Map.empty" using empty_tree_rep by (simp add: dns_rep_def idle_worker_def)
  then have v: "dns_view (w_dns idle_worker) Map.empty" unfolding dns_view_def by (intro exI [of _ Map.empty]) simp
  have al: "d_alloc (w_dns idle_worker) = {}" by (simp add: idle_worker_def)
  obtain st' where st': "al_dns_insert (Some 3) [97, 98] 1 1 (w_dns idle_worker) = Some (-1, st')"
    "\<exists>b. al_dns_lookup [97, 98] st' = Some (0, Some b) \<and> d_gid st' b = 1"
    and del: "\<And>gs g L node. group_wf gs g L \<Longrightarrow> g (al_make_key 1 1) = Some node \<Longrightarrow>
       \<exists>st'' gs'. al_dns_delete [97, 98] st' gs = Some (-1, st'', gs') \<and> d_alloc st'' = {} \<and> group_wf gs' (g(al_make_key 1 1 := None)) (L(node := []))"
  proof -
    have "key_ok [97, 98]" "\<forall>k \<in> dom (Map.empty :: u8 list \<rightharpoonup> u32 \<times> u32). k \<parallel> [97, 98]" "3 \<notin> d_alloc (w_dns idle_worker)"
      by (simp_all add: key_ok_def al)
    from dns_insert_lookup [OF v this, of 1 1] obtain st' where st': "al_dns_insert (Some 3) [97, 98] 1 1 (w_dns idle_worker) = Some (-1, st')"
      and l: "\<forall>k gid' dnsid'. [[97, 98] \<mapsto> (1, 1)] k = Some (gid', dnsid') \<longrightarrow>
        (\<exists>b. al_dns_lookup k st' = Some (0, Some b) \<and> d_gid st' b = gid' \<and> d_dnsid st' b = dnsid')"
      and d: "\<forall>gs g L node. group_wf gs g L \<and> g (al_make_key 1 1) = Some node \<longrightarrow>
        (\<exists>st'' gs'. al_dns_delete [97, 98] st' gs = Some (-1, st'', gs') \<and> dns_view st'' Map.empty \<and> d_alloc st'' = d_alloc (w_dns idle_worker) \<and>
          group_wf gs' (g(al_make_key 1 1 := None)) (L(node := [])))" by (elim exE conjE) (rule that; assumption)
    have "\<exists>b. al_dns_lookup [97, 98] st' = Some (0, Some b) \<and> d_gid st' b = 1" using spec [OF l, of "[97, 98]"] by auto
    then show ?thesis using that [OF st'] d unfolding al by blast
  qed
  show ?thesis using st' del [OF chained_group_wf, of 0] by (auto simp: fun_upd_idem)
qed

text \<open>A DNS packet behind an IPv4 header of 20 bytes, with the flags, the number of queries and the name given.\<close>

definition dns_frame :: "u8 \<Rightarrow> u8 \<Rightarrow> u8 list \<Rightarrow> mbuf" where
  "dns_frame flag qd name = (sample_frame 17)\<lparr>m_data := take 42 (m_data (sample_frame 17)) @ [0, 0, flag, 0, qd, 0, 0, 0, 0, 0, 0, 0] @ name\<rparr>"

theorem dns_parse_name_stops_witness:
  "dns_parse_name 54 (dns_frame 128 1 [2, 97, 98, 0]) = Some (None, [], dns_frame 128 1 [0, 97, 98, 0])"
proof -
  let ?m = "dns_frame 128 1 [2, 97, 98, 0]"
  have m: "54 + 1 < length (m_data ?m)" "m_data ?m ! 54 \<noteq> 0" by code_simp+
  have "?m\<lparr>m_data := (m_data ?m)[54 := 0]\<rparr> = dns_frame 128 1 [0, 97, 98, 0]" by code_simp
  then show ?thesis using dns_parse_name_stops [OF m(1)] m(2) by simp
qed

lemma send_plain_kni: "send_to_switch plain_env 0 [m] True w = Some (emit [To_kni 0 m] w)"
  by (simp add: send_to_switch_def kni_burst_write_def kni_drain.simps burst_def plain_env_def vport_get_def MAX_ETHER_COUTER_def)

lemma send_plain_0: "send_to_switch plain_env 0 [m] False w = Some (emit [To_switch 0 m] w)"
  by (simp add: send_to_switch_def burst_def plain_env_def vport_get_def MAX_ETHER_COUTER_def)

theorem gslb_query_corrupted_witness:
  "\<exists>m'. al_gslb_process plain_env (dns_frame 1 1 [2, 97, 98, 0]) 14 34 idle_worker = Some (emit [To_kni 0 m'] idle_worker) \<and>
    m_data m' ! 44 = 0 \<and> m_data m' ! 45 = 1"
proof -
  let ?m = "dns_frame 1 1 [2, 97, 98, 0]"
  have m: "length (m_data ?m) = 58" "m_data ?m ! 44 = 1" "m_data ?m ! 45 = 0" "m_port ?m = 0" by code_simp+
  then show ?thesis
    using gslb_query_corrupted [of 34 ?m plain_env 14 idle_worker]
    by (intro exI [of _ "?m\<lparr>m_data := (m_data ?m)[44 := 0, 45 := 1]\<rparr>"]) (simp add: hdr_offsets SIZEOF_DNS_HDR_def send_plain_kni)
qed

end
