(* ===== verification/Icmp6.thy ===== *)
theory Icmp6
  imports Worker
begin

text \<open>
  al_icmp.c: neighbour discovery. al_icmp6_proc learns hardware addresses from the ICMPv6 packets
  that come in, and eth_nh_request is to ask for one.
\<close>

section \<open>Operations\<close>

definition NEIGHBOR_SOLICIT :: u8 where "NEIGHBOR_SOLICIT = 135"
definition NEIGHBOR_ADVERT :: u8 where "NEIGHBOR_ADVERT = 136"
definition SIZEOF_NS_HEADER :: nat where "SIZEOF_NS_HEADER = 24"
definition SIZEOF_NA_HEADER :: nat where "SIZEOF_NA_HEADER = 24"
definition SIZEOF_LLADDR_OPTION :: nat where "SIZEOF_LLADDR_OPTION = 8"
definition nd_target_address :: nat where "nd_target_address = 8"
definition lladdr_addr :: nat where "lladdr_addr = 2"

text \<open>The macro compares the first four bytes of the address in memory.\<close>

definition ip6_addr_ismulticast :: "u128 \<Rightarrow> bool" where
  "ip6_addr_ismulticast ip6addr \<longleftrightarrow> (ucast ip6addr :: u32) AND bswap32 0xff000000 = bswap32 0xff000000"

text \<open>
  \<open>size_lt len n\<close> is the comparison of the \<open>int\<close> \<open>len\<close> with a \<open>sizeof\<close>: a negative length is
  converted to a large unsigned number.
\<close>

definition size_lt :: "int \<Rightarrow> nat \<Rightarrow> bool" where
  "size_lt len n \<longleftrightarrow> (word_of_int len :: u64) < of_nat n"

text \<open>
  What al_icmp6_proc does with the neighbour table, up to the label END: the entry it adds, as the
  address and the hardware address, if it adds one.
\<close>

definition icmp6_learn :: "mbuf \<Rightarrow> ((u128 \<times> u48) option \<times> event list) option" where
  "icmp6_learn buf =
     do {
       let iphdr = SIZEOF_ETH_HDR;
       let s1 = SIZEOF_ETH_HDR + SIZEOF_IPV6_HDR;
       addr \<leftarrow> rd (iphdr + ip6_dst_addr) 16 buf;
       saddr \<leftarrow> rd (iphdr + ip6_src_addr) 16 buf;
       let len = int (length (m_data buf)) - int s1;
       if size_lt len SIZEOF_NS_HEADER then Some (None, [Incr ll_bad_pkg_len])
       else do {
         icmp6_type \<leftarrow> rd s1 1 buf;
         if icmp6_type = NEIGHBOR_SOLICIT then
           if \<not> size_lt len (SIZEOF_NS_HEADER + SIZEOF_LLADDR_OPTION)
           then if saddr = 0 then Some (None, [])
                else do { lladdr \<leftarrow> rd (s1 + SIZEOF_NS_HEADER + lladdr_addr) 6 buf; Some (Some (saddr, lladdr), []) }
           else Some (None, [Incr ll_bad_pkg_len])
         else if icmp6_type = NEIGHBOR_ADVERT then
           if size_lt len (SIZEOF_NA_HEADER + SIZEOF_LLADDR_OPTION) then Some (None, [Incr ll_bad_pkg_len])
           else if ip6_addr_ismulticast addr then do {
             addr \<leftarrow> rd (s1 + nd_target_address) 16 buf;
             lladdr \<leftarrow> rd (s1 + SIZEOF_NA_HEADER + lladdr_addr) 6 buf;
             Some (Some (addr, lladdr), [])
           }
           else do {
             addr \<leftarrow> rd (s1 + nd_target_address) 16 buf;
             lladdr \<leftarrow> rd (s1 + SIZEOF_NA_HEADER + lladdr_addr) 6 buf;
             Some (Some (addr, lladdr), [])
           }
         else Some (None, [])
       }
     }"

definition al_icmp6_proc :: "env \<Rightarrow> mbuf \<Rightarrow> worker \<Rightarrow> worker option" where
  "al_icmp6_proc e buf w =
     do {
       dev \<leftarrow> vport_get (m_port buf);
       (learnt, stats) \<leftarrow> icmp6_learn buf;
       let w = emit stats w;
       w \<leftarrow> (case learnt of
               None \<Rightarrow> Some w
             | Some (addr, lladdr) \<Rightarrow> do {
                 (rc, st) \<leftarrow> ndp_add_entry (e_neigh e w) addr lladdr (ucast (m_port buf)) (w_arp w);
                 Some (w\<lparr>w_arp := st\<rparr>)
               });
       send_to_switch e (vd_port (v_dev (w_vports w) dev)) [buf] False w
     }"

text \<open>
  eth_nh_request returns when it has got a packet buffer, which it frees, and goes on with the
  null pointer when it has not.
\<close>

definition eth_nh_request :: "env \<Rightarrow> worker \<Rightarrow> nat \<Rightarrow> u128 \<Rightarrow> event list option" where
  "eth_nh_request e w dev ipaddr = (case e_mbuf e w of Some buf \<Rightarrow> Some [Freed buf] | None \<Rightarrow> None)"

section \<open>Properties\<close>

lemma size_lt_pos: "n < 2 ^ 63 \<Longrightarrow> n \<le> k \<Longrightarrow> k < 2 ^ 63 \<Longrightarrow> \<not> size_lt (int k) n"
  by (simp add: size_lt_def word_less_nat_alt unat_of_nat)

lemma rd_ok: "off + n \<le> length (m_data m) \<Longrightarrow> rd off n m = Some (field (m_data m) off n)"
  by (simp add: rd_def)

text \<open>
  \<open>nd_packet m type\<close>: an ICMPv6 packet of that type, long enough for a neighbour message with an
  option, and with a source address.
\<close>

definition nd_packet :: "mbuf \<Rightarrow> u8 \<Rightarrow> bool" where
  "nd_packet m type \<longleftrightarrow> 86 \<le> length (m_data m) \<and> length (m_data m) \<le> 65535 \<and> field (m_data m) 54 1 = type \<and>
     (field (m_data m) 22 16 :: u128) \<noteq> 0"

lemma icmp6_learn_nd:
  assumes "nd_packet m type"
  shows "type = NEIGHBOR_SOLICIT \<Longrightarrow> icmp6_learn m = Some (Some (field (m_data m) 22 16, field (m_data m) 80 6), [])"
    and "type = NEIGHBOR_ADVERT \<Longrightarrow> icmp6_learn m = Some (Some (field (m_data m) 62 16, field (m_data m) 80 6), [])"
proof -
  have l: "86 \<le> length (m_data m)" "field (m_data m) 54 1 = type" and u: "length (m_data m) \<le> 65535" and s: "(field (m_data m) 22 16 :: u128) \<noteq> 0"
    using assms by (auto simp: nd_packet_def)
  have eq: "int (length (m_data m)) - int (14 + 40) = int (length (m_data m) - 54)" using l by simp
  have n: "\<not> size_lt (int (length (m_data m) - 54)) 24" "\<not> size_lt (int (length (m_data m) - 54)) 32"
    using l(1) u by (intro size_lt_pos; simp)+
  have t: "(NEIGHBOR_ADVERT = NEIGHBOR_SOLICIT) = False" by (simp add: NEIGHBOR_ADVERT_def NEIGHBOR_SOLICIT_def)
  show "icmp6_learn m = Some (Some (field (m_data m) 22 16, field (m_data m) 80 6), [])" if "type = NEIGHBOR_SOLICIT"
    unfolding icmp6_learn_def Let_def hdr_offsets eq SIZEOF_NS_HEADER_def SIZEOF_LLADDR_OPTION_def lladdr_addr_def
    using l s n that by (simp add: rd_ok del: One_nat_def)
  show "icmp6_learn m = Some (Some (field (m_data m) 62 16, field (m_data m) 80 6), [])" if "type = NEIGHBOR_ADVERT"
    unfolding icmp6_learn_def Let_def hdr_offsets eq SIZEOF_NS_HEADER_def SIZEOF_NA_HEADER_def SIZEOF_LLADDR_OPTION_def lladdr_addr_def nd_target_address_def
    using l s n that by (simp add: rd_ok t del: One_nat_def)
qed

text \<open>
  C37: a neighbour advertisement long enough for a link-layer address option teaches the worker the
  hardware address of its target, and a solicitation that of its sender, if the source address is
  not 0 and an entry is to be had: afterwards ndp_find gives that address and the port the packet
  came in on, and the answers for all other addresses are what they were. The packet is sent on.
\<close>

theorem icmp6_learns:
  assumes "nd_packet m type" "type = NEIGHBOR_SOLICIT \<or> type = NEIGHBOR_ADVERT"
    and "arp_view (w_arp w) v" "e_neigh e w = Some a" "arp_fresh a (w_arp w)" "vport_get (m_port m) = Some i"
  shows "\<exists>st. al_icmp6_proc e m w = send_to_switch e (vd_port (v_dev (w_vports w) i)) [m] False (w\<lparr>w_arp := st\<rparr>) \<and>
    arp_view st (v(Inr (if type = NEIGHBOR_SOLICIT then field (m_data m) 22 16 else field (m_data m) 62 16) \<mapsto> (ucast (m_port m), field (m_data m) 80 6)))"
proof -
  define ip :: u128 where "ip = (if type = NEIGHBOR_SOLICIT then field (m_data m) 22 16 else field (m_data m) 62 16)"
  define h :: u48 where "h = field (m_data m) 80 6"
  have l: "icmp6_learn m = Some (Some (ip, h), [])" using icmp6_learn_nd [OF assms(1)] assms(2) by (auto simp: ip_def h_def)
  obtain st where st: "ndp_add_entry (Some a) ip h (ucast (m_port m)) (w_arp w) = Some (1, st)"
    "arp_view st (v(Inr ip \<mapsto> (ucast (m_port m), h)))"
    using ndp_add_entry_view [OF assms(3,5), of ip h "ucast (m_port m)"] by blast
  have "emit [] w = w" by (simp add: emit_def)
  then have "al_icmp6_proc e m w = send_to_switch e (vd_port (v_dev (w_vports w) i)) [m] False (w\<lparr>w_arp := st\<rparr>)"
    using assms(4,6) l st(1) by (simp add: al_icmp6_proc_def)
  then show ?thesis unfolding ip_def [symmetric] h_def [symmetric] using st(2) by (intro exI [of _ st] conjI)
qed

text \<open>
  No address is ever asked for: eth_nh_request gives the packet buffer it has got back to the
  pool, and without one it goes on with a null pointer.
\<close>

theorem nh_request_never_sent: "eth_nh_request e w dev ip = map_option (\<lambda>buf. [Freed buf]) (e_mbuf e w)"
  by (simp add: eth_nh_request_def split: option.split)

definition advert_frame :: mbuf where
  "advert_frame = (sample_frame 58)\<lparr>m_data := replicate 22 1 @ replicate 32 2 @ [136] @ replicate 31 3\<rparr>"

theorem icmp6_learns_witness:
  "\<exists>st. al_icmp6_proc plain_env advert_frame idle_worker = send_to_switch plain_env 0 [advert_frame] False (idle_worker\<lparr>w_arp := st\<rparr>) \<and>
    arp_view st (Map.empty(Inr (field (m_data advert_frame) 62 16) \<mapsto> (0, field (m_data advert_frame) 80 6)))"
proof -
  have "take 16 (drop 22 (m_data advert_frame)) = 2 # replicate 15 2" by code_simp
  then have "bit (field (m_data advert_frame) 22 16 :: u128) 1" by (simp add: field_def bit_simps)
  then have "(field (m_data advert_frame) 22 16 :: u128) \<noteq> 0" by auto
  moreover have "length (m_data advert_frame) = 86" "field (m_data advert_frame) 54 1 = NEIGHBOR_ADVERT" by code_simp+
  ultimately have p: "nd_packet advert_frame NEIGHBOR_ADVERT" by (simp add: nd_packet_def)
  have port: "m_port advert_frame = 0" by code_simp
  have w: "w_arp idle_worker = empty_arp" "e_neigh plain_env idle_worker = Some 8" "vd_port (v_dev (w_vports idle_worker) 0) = 0"
    by (simp_all add: idle_worker_def plain_env_def empty_vports_def)
  have v: "vport_get (m_port advert_frame) = Some 0" by code_simp
  have t: "NEIGHBOR_ADVERT \<noteq> NEIGHBOR_SOLICIT" by (simp add: NEIGHBOR_ADVERT_def NEIGHBOR_SOLICIT_def)
  show ?thesis using icmp6_learns [OF p _ _ w(2) _ v] empty_arp_view port t unfolding w by auto
qed

end
