(* ===== verification/Service.thy ===== *)
theory Service
  imports Forward Dns Icmp6
begin

text \<open>
  al_service.c: the first packet of a connection to a service. Two sessions are made, one for the
  side of the client and one for the side of the member that is to serve it, they are put into
  the session table as each other's peer, and the packet is forwarded.
\<close>

section \<open>The two sessions\<close>

definition SESSION_NORMAL :: "3 word" where "SESSION_NORMAL = 1"

definition session_mem_init :: "1 word \<Rightarrow> session_t \<Rightarrow> session_t" where
  "session_mem_init isUp s = s\<lparr>s_stype := SESSION_NORMAL, s_is_ups := isUp, s_port_alloc := 0, s_stout := SESSION_IDLE_TIMEOUT\<rparr>"

definition session_init_local :: "mbuf \<Rightarrow> nat \<Rightarrow> nat \<Rightarrow> vport_state \<Rightarrow> session_t \<Rightarrow> (int \<times> session_t) option" where
  "session_init_local buf iphdr nextptr vs s =
     do {
       etype \<leftarrow> rd eth_ether_type 2 buf;
       let etype = bswap16 etype;
       d_addr \<leftarrow> rd eth_d_addr 6 buf;
       s_addr \<leftarrow> rd eth_s_addr 6 buf;
       let s = s\<lparr>s_to_haddr := d_addr, s_from_haddr := s_addr\<rparr>;
       dev \<leftarrow> vport_get (m_port buf);
       if etype \<noteq> ETHER_TYPE_IPv4 \<and> etype \<noteq> ETHER_TYPE_IPv6 then Some (-1, s)
       else do {
         s \<leftarrow> (if etype = ETHER_TYPE_IPv4 then do {
                 src_addr \<leftarrow> rd (iphdr + ip4_src_addr) 4 buf;
                 dst_addr \<leftarrow> rd (iphdr + ip4_dst_addr) 4 buf;
                 proto \<leftarrow> rd (iphdr + ip4_next_proto_id) 1 buf;
                 Some (s\<lparr>s_remote_addr := set_ipv4 src_addr (s_remote_addr s), s_local_addr := set_ipv4 dst_addr (s_local_addr s),
                         s_in_type := 0, s_proto := proto\<rparr>)
               } else do {
                 src_addr \<leftarrow> rd (iphdr + ip6_src_addr) 16 buf;
                 dst_addr \<leftarrow> rd (iphdr + ip6_dst_addr) 16 buf;
                 proto \<leftarrow> rd (iphdr + ip6_proto) 1 buf;
                 Some (s\<lparr>s_remote_addr := src_addr, s_local_addr := dst_addr, s_in_type := 1, s_proto := proto\<rparr>)
               });
         dst_port \<leftarrow> rd (nextptr + tcp_dst_port) 2 buf;
         src_port \<leftarrow> rd (nextptr + tcp_src_port) 2 buf;
         Some (0, s\<lparr>s_local_port := dst_port, s_remote_port := src_port, s_portid := vd_port (v_dev vs dev)\<rparr>)
       }
     }"

definition with_ports :: "port_state \<Rightarrow> worker \<Rightarrow> worker" where
  "with_ports ps w = w\<lparr>w_sess := (w_sess w)\<lparr>ss_ports := ps\<rparr>\<rparr>"

text \<open>
  The branches of session_init_remote for a translating service (\<open>remote_trans\<close>, for both
  families; \<open>rip\<close> is the local variable of that name) and for the others (\<open>remote_plain\<close>).
\<close>

definition remote_trans :: "env \<Rightarrow> nat \<Rightarrow> u8 \<Rightarrow> ipcs_t \<Rightarrow> session_t \<Rightarrow> worker \<Rightarrow> (int \<times> session_t \<times> worker) option" where
  "remote_trans e vport af rip u w =
     do {
       (rc, local_addr) \<leftarrow> vport_select_local_ip vport (s_local_addr u) af rip (w_vports w);
       let u = u\<lparr>s_local_addr := local_addr\<rparr>;
       if rc \<noteq> 0 then Some (-1, u, w)
       else do {
         (rc, u, ps) \<leftarrow> al_alocate_new_port_with_session (\<lambda>a p t. fst (e_filter4 e a p t)) (ucast (e_lcore e)) (e_port e w) u (ss_ports (w_sess w));
         Some (if rc \<noteq> 0 then -1 else 0, u, with_ports ps w)
       }
     }"

definition remote_plain :: "env \<Rightarrow> mbuf \<Rightarrow> nat \<Rightarrow> session_t \<Rightarrow> worker \<Rightarrow> (int \<times> session_t \<times> worker) option" where
  "remote_plain e buf nextptr u w =
     do {
       src_port \<leftarrow> rd (nextptr + tcp_src_port) 2 buf;
       dst_port \<leftarrow> rd (nextptr + tcp_dst_port) 2 buf;
       let u = u\<lparr>s_local_port := src_port, s_remote_port := dst_port\<rparr>;
       (rc, ps) \<leftarrow> al_port_insert (ucast (e_lcore e)) (e_port e w) u (ss_ports (w_sess w));
       Some (rc, u, with_ports ps w)
     }"

text \<open>The result of the neighbour search: a port and a hardware address, or failure.\<close>

definition remote_neigh :: "int \<Rightarrow> u48 option \<Rightarrow> nat \<Rightarrow> session_t \<Rightarrow> worker \<Rightarrow> int \<times> session_t \<times> worker" where
  "remote_neigh portint haddr dev u w =
     (if portint < 0 then (-1, u, w)
      else (0, u\<lparr>s_from_haddr := (case haddr of Some h \<Rightarrow> h | None \<Rightarrow> s_from_haddr u), s_portid := word_of_int portint,
                 s_to_haddr := vd_haddr (v_dev (w_vports w) dev)\<rparr>, w))"

definition session_remote4 :: "env \<Rightarrow> al_margs \<Rightarrow> ipcs_t \<Rightarrow> nat \<Rightarrow> mbuf \<Rightarrow> nat \<Rightarrow> nat \<Rightarrow> session_t \<Rightarrow> worker \<Rightarrow> (int \<times> session_t \<times> worker) option" where
  "session_remote4 e margs nexthop dev buf iphdr nextptr u w =
     do {
       proto \<leftarrow> rd (iphdr + ip4_next_proto_id) 1 buf;
       let u = u\<lparr>s_in_type := 0, s_proto := proto\<rparr>;
       (rc, u, w) \<leftarrow>
         (if s_ftype u = AL_FLT_SIMPLE_TRANS then
            (let u = u\<lparr>s_remote_addr := set_ipv4 (ipv4 (a_addr (ma_addr margs))) (s_remote_addr u), s_remote_port := ma_port margs\<rparr>
             in remote_trans e dev AF_INET (set_ipv4 (ipv4 (s_remote_addr u)) 0) u w)
          else do {
            dst_addr \<leftarrow> rd (iphdr + ip4_dst_addr) 4 buf;
            src_addr \<leftarrow> rd (iphdr + ip4_src_addr) 4 buf;
            remote_plain e buf nextptr (u\<lparr>s_remote_addr := set_ipv4 dst_addr (s_remote_addr u), s_local_addr := set_ipv4 src_addr (s_local_addr u)\<rparr>) w
          });
       if rc \<noteq> 0 then Some (-1, u, w)
       else do {
         (portint, haddr, frames) \<leftarrow> arp_search (e_mbuf e w \<noteq> None) (e_lip e) (ipv4 nexthop) (Some dev) (w_vports w) (w_arp w);
         w \<leftarrow> send_frames e frames w;
         Some (remote_neigh portint haddr dev u w)
       }
     }"

definition session_remote6 :: "env \<Rightarrow> al_margs \<Rightarrow> ipcs_t \<Rightarrow> nat \<Rightarrow> mbuf \<Rightarrow> nat \<Rightarrow> nat \<Rightarrow> session_t \<Rightarrow> worker \<Rightarrow> (int \<times> session_t \<times> worker) option" where
  "session_remote6 e margs nexthop dev buf iphdr nextptr u w =
     do {
       proto \<leftarrow> rd (iphdr + ip6_proto) 1 buf;
       let u = u\<lparr>s_in_type := 1, s_proto := proto\<rparr>;
       (rc, u, w) \<leftarrow>
         (if s_ftype u = AL_FLT_SIMPLE_TRANS then
            (let u = u\<lparr>s_remote_addr := a_addr (ma_addr margs), s_remote_port := ma_port margs\<rparr>
             in remote_trans e dev AF_INET6 (s_remote_addr u) u w)
          else do {
            dst_addr \<leftarrow> rd (iphdr + ip6_dst_addr) 16 buf;
            src_addr \<leftarrow> rd (iphdr + ip6_src_addr) 16 buf;
            remote_plain e buf nextptr (u\<lparr>s_remote_addr := dst_addr, s_local_addr := src_addr\<rparr>) w
          });
       if rc \<noteq> 0 then Some (-1, u, w)
       else do {
         (portint, haddr, events) \<leftarrow> ndp_search (eth_nh_request e w) nexthop (Some dev) (w_arp w);
         Some (remote_neigh portint haddr dev u (emit events w))
       }
     }"

text \<open>
  session_init_remote. \<open>margs\<close> is an uninitialised variable; when a group that schedules by
  location has chosen a member with an address, al_alg_geoip has written the address through
  \<open>margs.data\<close>, which points nowhere.
\<close>

definition session_init_remote :: "env \<Rightarrow> session_t \<Rightarrow> u32 \<Rightarrow> u32 \<Rightarrow> mbuf \<Rightarrow> nat \<Rightarrow> nat \<Rightarrow> session_t \<Rightarrow> worker \<Rightarrow> (int \<times> session_t \<times> worker) option" where
  "session_init_remote e c fid gid buf iphdr nextptr u w =
     do {
       (rc, margs, gs) \<leftarrow> al_member_lookup fid gid (e_margs e) (w_groups w);
       let w = w\<lparr>w_groups := gs\<rparr>;
       if rc \<noteq> 0 then Some (-1, u, w)
       else if ma_schd margs = AL_ALG_GEOIP \<and> (ma_query_type margs = DNS_Q_A \<or> ma_query_type margs = DNS_Q_AAAA) then None
       else do {
         let u = u\<lparr>s_mid := s_mid c\<rparr>;
         let (rc, nexthop, oif) = e_router_find e (a_af (ma_addr margs)) (a_addr (ma_addr margs));
         if rc \<noteq> 0 then Some (-1, u, w)
         else do {
           etype \<leftarrow> rd eth_ether_type 2 buf;
           dev \<leftarrow> vport_get oif;
           if bswap16 etype = ETHER_TYPE_IPv4 then session_remote4 e margs nexthop dev buf iphdr nextptr u w
           else if bswap16 etype = ETHER_TYPE_IPv6 then session_remote6 e margs nexthop dev buf iphdr nextptr u w
           else Some (-1, u, w)
         }
       }
     }"

section \<open>The service\<close>

definition put_session :: "addr \<Rightarrow> session_t \<Rightarrow> worker \<Rightarrow> worker" where
  "put_session a s w = w\<lparr>w_sess := (w_sess w)\<lparr>ss_obj := (ss_obj (w_sess w))(a := s)\<rparr>\<rparr>"

definition free_session :: "addr \<Rightarrow> worker \<Rightarrow> worker option" where
  "free_session a w = map_option (\<lambda>ss. w\<lparr>w_sess := ss\<rparr>) (al_session_free a (w_sess w))"

text \<open>\<open>new_session\<close> is al_session_create with the assignment of the filter type.\<close>

definition new_session :: "addr option \<Rightarrow> u8 \<Rightarrow> worker \<Rightarrow> addr option \<times> worker" where
  "new_session got ftype w =
     (let (r, ss) = al_session_create got (w_sess w); w = w\<lparr>w_sess := ss\<rparr>
      in case r of None \<Rightarrow> (None, w) | Some a \<Rightarrow> (Some a, put_session a ((ss_obj ss a)\<lparr>s_ftype := ftype\<rparr>) w))"

text \<open>The labels END and ENDF.\<close>

definition service_failed :: "mbuf \<Rightarrow> worker \<Rightarrow> worker" where
  "service_failed buf = emit [Freed buf, Incr create_session_failed]"

definition service_abort :: "addr \<Rightarrow> addr \<Rightarrow> mbuf \<Rightarrow> worker \<Rightarrow> worker option" where
  "service_abort c u buf w = do { w \<leftarrow> free_session c w; w \<leftarrow> free_session u w; Some (service_failed buf w) }"

text \<open>al_service from the call of session_init_local on.\<close>

definition service_connect :: "env \<Rightarrow> al_fargs \<Rightarrow> addr \<Rightarrow> addr \<Rightarrow> mbuf \<Rightarrow> nat \<Rightarrow> nat \<Rightarrow> worker \<Rightarrow> worker option" where
  "service_connect e f c u buf iphdr nextptr w =
     do {
       (rc, s) \<leftarrow> session_init_local buf iphdr nextptr (w_vports w) (ss_obj (w_sess w) c);
       let w = put_session c s w;
       if rc \<noteq> 0 then service_abort c u buf w
       else do {
         let w = put_session u ((ss_obj (w_sess w) u)\<lparr>s_fid := f_fid f\<rparr>) w;
         (rc, s, w) \<leftarrow> session_init_remote e (ss_obj (w_sess w) c) (f_fid f) (f_gid f) buf iphdr nextptr (ss_obj (w_sess w) u) w;
         let w = put_session u s w;
         if rc \<noteq> 0 then service_abort c u buf w
         else do {
           let w = put_session c ((ss_obj (w_sess w) c)\<lparr>s_fid := f_fid f\<rparr>) w;
           let w = w\<lparr>w_sess := al_session_add u (al_session_add c (w_sess w))\<rparr>;
           let w = put_session c ((ss_obj (w_sess w) c)\<lparr>s_up := Some u\<rparr>) w;
           let w = put_session u ((ss_obj (w_sess w) u)\<lparr>s_up := Some c\<rparr>) w;
           al_process e c buf iphdr nextptr w
         }
       }
     }"

definition al_service :: "env \<Rightarrow> al_fargs \<Rightarrow> addr option \<Rightarrow> mbuf \<Rightarrow> nat \<Rightarrow> nat \<Rightarrow> worker \<Rightarrow> worker option" where
  "al_service e f s buf iphdr nextptr w =
     (if s \<noteq> None then Some (service_failed buf w)
      else if f_ftype f = AL_FLT_GSLB then al_gslb_process e buf iphdr nextptr w
      else
        (case new_session (e_session1 e w) (f_ftype f) w of
           (None, w) \<Rightarrow> Some (service_failed buf w)
         | (Some c, w) \<Rightarrow>
             (case new_session (e_session2 e w) (f_ftype f) w of
                (None, w) \<Rightarrow> do { w \<leftarrow> free_session c w; Some (service_failed buf w) }
              | (Some u, w) \<Rightarrow>
                  service_connect e f c u buf iphdr nextptr
                    (put_session u (session_mem_init 1 (ss_obj (w_sess w) u))
                      (put_session c (session_mem_init 0 (ss_obj (w_sess w) c)) w)))))"

end
