(* ===== verification/Input.thy ===== *)
theory Input
  imports Service
begin

text \<open>
  al_ip_input.c and al_main_process.c: what a worker thread does with the packets it gets. A packet
  of a known session is forwarded, one whose connection belongs to another thread goes to that
  thread, the first packet of a connection to a service opens the connection, and everything
  else is passed on.
\<close>

section \<open>Operations\<close>

definition AL_PKT_FROM_NIC :: u8 where "AL_PKT_FROM_NIC = 1"
definition AL_PKT_FROM_QUEUE :: u8 where "AL_PKT_FROM_QUEUE = 2"
definition AL_PORT_TYPE_KNI :: u8 where "AL_PORT_TYPE_KNI = 0"
definition RTE_AL_RX_DESC_DEFAULT :: nat where "RTE_AL_RX_DESC_DEFAULT = 256"

text \<open>The packet is queued for the thread that owns its connection, or freed when there is no room.\<close>

definition to_owner :: "env \<Rightarrow> int \<Rightarrow> u8 \<Rightarrow> mbuf \<Rightarrow> worker \<Rightarrow> worker" where
  "to_owner e rc type buf w =
     (let buf = buf\<lparr>m_udata64 := ucast type\<rparr>
      in if e_thread e rc w then emit [To_thread rc buf] w else emit [Incr ip_send_to_dst_thread_failed, Freed buf] w)"

definition pass_on :: "env \<Rightarrow> u8 \<Rightarrow> u8 \<Rightarrow> mbuf \<Rightarrow> worker \<Rightarrow> worker option" where
  "pass_on e from type buf w =
     (if from = AL_PKT_FROM_NIC then send_to_switch e (m_port buf) [buf] (type \<noteq> AL_PORT_TYPE_KNI) w
      else send_to_switch e (m_port buf) [buf] (m_udata64 buf \<noteq> ucast AL_PORT_TYPE_KNI) w)"

definition al_ipv4_input :: "env \<Rightarrow> mbuf \<Rightarrow> nat \<Rightarrow> nat \<Rightarrow> u8 \<Rightarrow> u8 \<Rightarrow> worker \<Rightarrow> worker option" where
  "al_ipv4_input e buf iphdr nextptr from type w =
     do {
       src_addr \<leftarrow> rd (iphdr + ip4_src_addr) 4 buf;
       dst_addr \<leftarrow> rd (iphdr + ip4_dst_addr) 4 buf;
       proto \<leftarrow> rd (iphdr + ip4_next_proto_id) 1 buf;
       src_port \<leftarrow> rd (nextptr + tcp_src_port) 2 buf;
       dst_port \<leftarrow> rd (nextptr + tcp_dst_port) 2 buf;
       session \<leftarrow> tcp4_session_get src_addr src_port dst_addr dst_port proto (w_sess w);
       case session of
         Some s \<Rightarrow> al_process e s buf iphdr nextptr w
       | None \<Rightarrow> do {
           rc \<leftarrow> (if from = AL_PKT_FROM_NIC then which_thread_v4 src_addr dst_addr src_port dst_port proto (ss_ports (w_sess w)) else Some (-1));
           if rc \<noteq> -1 then Some (to_owner e rc type buf w)
           else let (rc, fargs) = e_filter4 e dst_addr dst_port proto
                in if rc = 0 then al_service e fargs None buf iphdr nextptr w
                   else pass_on e from type buf w
         }
     }"

text \<open>
  al_ipv6_input looks the session up with the source port in place of both ports, and calls the
  handler of the session it finds; no code of the program sets the handler of a session.
\<close>

definition al_ipv6_input :: "env \<Rightarrow> mbuf \<Rightarrow> nat \<Rightarrow> nat \<Rightarrow> u8 \<Rightarrow> u8 \<Rightarrow> worker \<Rightarrow> worker option" where
  "al_ipv6_input e buf iphdr nextptr from type w =
     do {
       src_addr \<leftarrow> rd (iphdr + ip6_src_addr) 16 buf;
       dst_addr \<leftarrow> rd (iphdr + ip6_dst_addr) 16 buf;
       proto \<leftarrow> rd (iphdr + ip6_proto) 1 buf;
       src_port \<leftarrow> rd (nextptr + tcp_src_port) 2 buf;
       dst_port \<leftarrow> rd (nextptr + tcp_dst_port) 2 buf;
       session \<leftarrow> tcp6_session_get src_addr src_port dst_addr src_port proto (w_sess w);
       case session of
         Some s \<Rightarrow> None
       | None \<Rightarrow> do {
           rc \<leftarrow> (if from = AL_PKT_FROM_NIC then which_thread_v6 src_addr dst_addr src_port dst_port proto (ss_ports (w_sess w)) else Some (-1));
           if rc \<noteq> -1 then Some (to_owner e rc type buf w)
           else let (rc, fargs) = e_filter6 e dst_addr dst_port proto
                in if rc = 0 then al_service e fargs None buf iphdr nextptr w
                   else pass_on e from type buf w
         }
     }"

text \<open>
  The body of the loop of al_main_process for one packet, which ends with \<open>continue\<close> (\<open>None\<close> in the
  first component) or with the packet to be put into \<open>outbuf\<close>. The lengths are compared with the
  length of the packet.
\<close>

definition bad_len :: "mbuf \<Rightarrow> worker \<Rightarrow> worker" where
  "bad_len m = emit [Incr ll_bad_pkg_len, Freed m]"

definition main_ipv4 :: "env \<Rightarrow> u8 \<Rightarrow> u8 \<Rightarrow> u8 \<Rightarrow> mbuf \<Rightarrow> worker \<Rightarrow> (mbuf option \<times> worker) option" where
  "main_ipv4 e portid from type m w =
     do {
       let iphdr = SIZEOF_ETH_HDR;
       version_ihl \<leftarrow> rd (iphdr + ip4_version_ihl) 1 m;
       let iphdr_hlen = unat ((version_ihl :: u8) AND 0xf) * 4;
       if rte_pktmbuf_pkt_len m < iphdr_hlen then Some (None, bad_len m w)
       else do {
         total_length \<leftarrow> rd (iphdr + ip4_total_length) 2 m;
         if rte_pktmbuf_pkt_len m < unat (bswap16 total_length) then Some (None, emit [Freed m, Incr ll_bad_pkg_len] w)
         else do {
           proto \<leftarrow> rd (iphdr + ip4_next_proto_id) 1 m;
           if proto = IPPROTO_TCP \<or> proto = IPPROTO_UDP then
             do { w \<leftarrow> al_ipv4_input e (m\<lparr>m_port := portid\<rparr>) iphdr (iphdr + iphdr_hlen) from type w; Some (None, w) }
           else Some (Some m, w)
         }
       }
     }"

definition main_ipv6 :: "env \<Rightarrow> u8 \<Rightarrow> u8 \<Rightarrow> u8 \<Rightarrow> mbuf \<Rightarrow> worker \<Rightarrow> (mbuf option \<times> worker) option" where
  "main_ipv6 e portid from type m w =
     do {
       let iphdr = SIZEOF_ETH_HDR;
       let iphdr_hlen = 40;
       if rte_pktmbuf_pkt_len m < iphdr_hlen then Some (None, bad_len m w)
       else do {
         payload_len \<leftarrow> rd (iphdr + ip6_payload_len) 2 m;
         if unat (bswap16 payload_len) < rte_pktmbuf_pkt_len m then Some (None, bad_len m w)
         else do {
           proto \<leftarrow> rd (iphdr + ip6_proto) 1 m;
           if proto = IPPROTO_TCP \<or> proto = IPPROTO_UDP then
             do { w \<leftarrow> al_ipv6_input e (m\<lparr>m_port := portid\<rparr>) iphdr (iphdr + iphdr_hlen) from type w; Some (None, w) }
           else if proto = IPPROTO_ICMPV6 then do { w \<leftarrow> al_icmp6_proc e m w; Some (Some m, w) }
           else Some (Some m, w)
         }
       }
     }"

definition main_packet :: "env \<Rightarrow> u8 \<Rightarrow> u8 \<Rightarrow> u8 \<Rightarrow> mbuf \<Rightarrow> worker \<Rightarrow> (mbuf option \<times> worker) option" where
  "main_packet e portid from type m w =
     do {
       ethertype \<leftarrow> rd eth_ether_type 2 m;
       let ethertype = bswap16 ethertype;
       if ethertype = ETHER_TYPE_IPv4 then main_ipv4 e portid from type m w
       else if ethertype = ETHER_TYPE_IPv6 then main_ipv6 e portid from type m w
       else if ethertype = ETHER_TYPE_ARP then do {
         (rc, st) \<leftarrow> al_arp_input (e_neigh e w) (m_port m) (m_data m) (w_vports w) (w_arp w);
         Some (Some m, w\<lparr>w_arp := st\<rparr>)
       }
       else Some (Some m, w)
     }"

fun main_loop :: "env \<Rightarrow> u8 \<Rightarrow> u8 \<Rightarrow> u8 \<Rightarrow> mbuf list \<Rightarrow> mbuf list \<Rightarrow> worker \<Rightarrow> (mbuf list \<times> worker) option" where
  "main_loop e portid from type [] outbuf w = Some (outbuf, w)"
| "main_loop e portid from type (m # mbuf) outbuf w =
     do {
       (r, w) \<leftarrow> main_packet e portid from type m w;
       case r of
         None \<Rightarrow> main_loop e portid from type mbuf outbuf w
       | Some m \<Rightarrow>
           if length outbuf < RTE_AL_RX_DESC_DEFAULT then main_loop e portid from type mbuf (outbuf @ [m]) w else None
     }"

text \<open>al_output_thread_session, which prints the sessions on demand, is left out.\<close>

definition al_main_process :: "env \<Rightarrow> u8 \<Rightarrow> mbuf list \<Rightarrow> u8 \<Rightarrow> u8 \<Rightarrow> worker \<Rightarrow> (int \<times> worker) option" where
  "al_main_process e portid mbuf from type w =
     do {
       (outbuf, w) \<leftarrow> main_loop e portid from type mbuf [] w;
       w \<leftarrow> send_to_switch e portid outbuf (type \<noteq> AL_PORT_TYPE_KNI) w;
       if e_now e - w_last w > 1000
       then do { ss \<leftarrow> al_session_timeout (w_sess w); Some (0, w\<lparr>w_sess := ss, w_last := e_now e\<rparr>) }
       else Some (0, w)
     }"

text \<open>
  vport_burst_write: a thread first takes the packets the other threads have queued for it, from
  one ring after the other, and then those that have come in on the port.
\<close>

fun queued_packets :: "env \<Rightarrow> u8 \<Rightarrow> nat list \<Rightarrow> worker \<Rightarrow> worker option" where
  "queued_packets e type [] w = Some w"
| "queued_packets e type (k # ks) w =
     (case e_thread_ring e k w of
        None \<Rightarrow> queued_packets e type ks w
      | Some ring \<Rightarrow>
          (let rte = take RTE_AL_RX_DESC_DEFAULT ring
           in if rte \<noteq> [] then do { (rc, w) \<leftarrow> al_main_process e 0 rte AL_PKT_FROM_QUEUE type w; queued_packets e type ks w }
              else queued_packets e type ks w))"

definition vport_burst_write :: "env \<Rightarrow> u8 \<Rightarrow> mbuf list \<Rightarrow> u8 \<Rightarrow> worker \<Rightarrow> (int \<times> worker) option" where
  "vport_burst_write e portid buf type w =
     do {
       i \<leftarrow> vport_get portid;
       w \<leftarrow> queued_packets e type [0..<e_threads e] w;
       (rc, w) \<leftarrow> al_main_process e portid buf AL_PKT_FROM_NIC type w;
       Some (0, w)
     }"

end
