(* ===== verification/Ownership.thy ===== *)
theory Ownership
  imports Input "HOL-Library.Multiset"
begin

text \<open>
  What becomes of a packet buffer. Every handler has to hand a buffer on exactly once: to a ring,
  to the kernel, to another thread or back to the pool. \<open>handed I es\<close> are the buffers of \<open>I\<close> that
  the events \<open>es\<close> hand on.
\<close>

section \<open>Buffers handed on\<close>

fun handed_by :: "event \<Rightarrow> addr list" where
  "handed_by (To_switch p m) = [m_id m]"
| "handed_by (To_kni p m) = [m_id m]"
| "handed_by (To_thread t m) = [m_id m]"
| "handed_by (Freed m) = [m_id m]"
| "handed_by (Incr s) = []"

definition handed :: "addr set \<Rightarrow> event list \<Rightarrow> addr list" where
  "handed I es = filter (\<lambda>x. x \<in> I) (concat (map handed_by es))"

text \<open>\<open>hands I w w' xs\<close>: from \<open>w\<close> to \<open>w'\<close>, of the buffers in \<open>I\<close> exactly \<open>xs\<close> are handed on.\<close>

definition hands :: "addr set \<Rightarrow> worker \<Rightarrow> worker \<Rightarrow> addr list \<Rightarrow> bool" where
  "hands I w w' xs \<longleftrightarrow> handed I (w_out w') = handed I (w_out w) @ filter (\<lambda>x. x \<in> I) xs"

lemma hands_refl [simp]: "hands I w w' [] \<longleftrightarrow> handed I (w_out w') = handed I (w_out w)"
  by (simp add: hands_def)

lemma hands_trans: "hands I w w1 xs \<Longrightarrow> hands I w1 w2 ys \<Longrightarrow> hands I w w2 (xs @ ys)"
  by (simp add: hands_def)

lemma hands_same_out: "w_out w1 = w_out w \<Longrightarrow> w_out w2 = w_out w' \<Longrightarrow> hands I w1 w2 xs \<longleftrightarrow> hands I w w' xs"
  by (simp add: hands_def)

lemma w_out_emit [simp]: "w_out (emit es w) = w_out w @ es"
  by (simp add: emit_def)

lemma handed_simps [simp]: "handed I [] = []" "handed I (e # es) = filter (\<lambda>x. x \<in> I) (handed_by e) @ handed I es"
  "handed I (es @ es') = handed I es @ handed I es'"
  by (simp_all add: handed_def)

lemma handed_refused: "handed I (concat (map (\<lambda>b. [Incr s, Freed b]) bs)) = filter (\<lambda>x. x \<in> I) (map m_id bs)"
  by (induction bs) simp_all

lemma handed_map: "handed I (map (To_switch p) bs) = filter (\<lambda>x. x \<in> I) (map m_id bs)" "handed I (map (To_kni p) bs) = filter (\<lambda>x. x \<in> I) (map m_id bs)"
  by (induction bs) simp_all

lemma filter_take_drop: "filter P (map f (take k xs)) @ filter P (map f (drop k xs)) = filter P (map f xs)"
  by (metis append_take_drop_id filter_append map_append)

text \<open>
  The pool gives out no buffer of \<open>I\<close>, since those are in use, and none of them waits in a ring of
  a KNI port.
\<close>

definition in_use :: "env \<Rightarrow> addr set \<Rightarrow> bool" where
  "in_use e I \<longleftrightarrow> (\<forall>w m. e_mbuf e w = Some m \<longrightarrow> m_id m \<notin> I) \<and> (\<forall>p q w. \<forall>m \<in> set (e_kni_ring e p q w). m_id m \<notin> I)"

lemma burst_handed:
  "handed I (burst (To_switch p) s k bs) = filter (\<lambda>x. x \<in> I) (map m_id bs)" "handed I (burst (To_kni p) s k bs) = filter (\<lambda>x. x \<in> I) (map m_id bs)"
  by (simp_all add: burst_def handed_refused handed_map filter_take_drop)

lemma kni_drain_hands:
  assumes "in_use e I"
  shows "hands I w (kni_drain e p qcnt q w) []"
  using assms
proof (induction e p qcnt q w rule: kni_drain.induct)
  case (1 e p qcnt q w)
  let ?b = "take RTE_AL_TX_DESC_DEFAULT (e_kni_ring e p q w)"
  have "filter (\<lambda>x. x \<in> I) (map m_id ?b) = []" using 1(3) by (auto simp: in_use_def filter_empty_conv dest: in_set_takeD)
  then show ?case using 1 by (subst kni_drain.simps) (auto simp: Let_def hands_def burst_handed)
qed

lemma send_to_switch_hands:
  assumes "send_to_switch e p bs kni w = Some w'" "in_use e I"
  shows "hands I w w' (map m_id bs)"
  using assms(1) kni_drain_hands [OF assms(2), of w p]
  by (auto simp: send_to_switch_def kni_burst_write_def hands_def burst_handed Let_def split: if_splits bind_splits)

lemma send_frames_hands:
  assumes "send_frames e fs w = Some w'" "in_use e I"
  shows "hands I w w' []"
  using assms send_to_switch_hands [of e _ _ _ w w' I]
  by (fastforce simp: send_frames_def in_use_def hands_def split: list.splits option.splits prod.splits)

section \<open>Each handler hands its packet on once\<close>

lemma same_id: "wr off n x m = Some m' \<Longrightarrow> m_id m' = m_id m"
  by (auto simp: wr_def split: if_splits)

lemma rewrite_id: "rewrite4 up h t m = Some m' \<Longrightarrow> m_id m' = m_id m" "rewrite6 up h t m = Some m' \<Longrightarrow> m_id m' = m_id m"
  by (auto simp: rewrite4_def rewrite6_def Let_def split: bind_splits if_splits dest!: same_id)

lemma al_process_hands:
  assumes "al_process e s m h t w = Some w'" "in_use e I"
  shows "hands I w w' [m_id m]"
proof -
  obtain ss m' p where m': "send_to_switch e p [m'] False (w\<lparr>w_sess := ss\<rparr>) = Some w'" "m_id m' = m_id m"
    using assms by (auto simp: al_process_def Let_def split: bind_splits if_splits dest!: same_id rewrite_id intro: that)
  show ?thesis using send_to_switch_hands [OF m'(1) assms(2)] m'(2) hands_same_out [of "w\<lparr>w_sess := ss\<rparr>" w w' w'] by simp
qed

lemma al_gslb_process_hands:
  assumes "al_gslb_process e m h t w = Some w'" "in_use e I"
  shows "hands I w w' [m_id m]"
proof -
  obtain m' kni where m': "send_to_switch e (m_port m) [m'] kni w = Some w'" "m' = m\<lparr>m_data := m_data m'\<rparr>"
    using gslb_step [OF assms(1)] by blast
  have "m_id m' = m_id m" by (subst m'(2)) simp
  then show ?thesis using send_to_switch_hands [OF m'(1) assms(2)] by simp
qed

lemma remote_trans_out: "remote_trans e d af rip u w = Some (rc, u', w') \<Longrightarrow> w_out w' = w_out w"
  by (auto simp: remote_trans_def with_ports_def Let_def split: bind_splits if_splits)

lemma remote_plain_out: "remote_plain e m t u w = Some (rc, u', w') \<Longrightarrow> w_out w' = w_out w"
  by (auto simp: remote_plain_def with_ports_def Let_def split: bind_splits)

lemma remote_neigh_out: "remote_neigh p h d u w = (rc, u', w') \<Longrightarrow> w' = w"
  by (auto simp: remote_neigh_def split: if_splits)

lemma session_remote4_hands:
  assumes "session_remote4 e margs nh dev m h t u w = Some (rc, u', w')" "in_use e I"
  shows "hands I w w' []"
  using assms(1) by (auto simp: session_remote4_def Let_def split: bind_splits if_splits
      dest!: remote_trans_out remote_plain_out remote_neigh_out send_frames_hands [OF _ assms(2)])

lemma nh_events: "eth_nh_request e w d ip = Some es \<Longrightarrow> in_use e I \<Longrightarrow> handed I es = []"
  by (auto simp: eth_nh_request_def in_use_def split: option.splits)

lemma ndp_search_events: "ndp_search (eth_nh_request e w) ip d st = Some (p, h, es) \<Longrightarrow> in_use e I \<Longrightarrow> handed I es = []"
  by (auto simp: ndp_search_def split: bind_splits if_splits option.splits dest: nh_events)

lemma session_remote6_hands:
  assumes "session_remote6 e margs nh dev m h t u w = Some (rc, u', w')" "in_use e I"
  shows "hands I w w' []"
  using assms by (auto simp: session_remote6_def Let_def split: bind_splits if_splits
      dest!: remote_trans_out remote_plain_out remote_neigh_out ndp_search_events)

lemma session_init_remote_hands:
  assumes "session_init_remote e c fid gid m h t u w = Some (rc, u', w')" "in_use e I"
  shows "hands I w w' []"
  using assms(1) by (auto simp: session_init_remote_def Let_def split: bind_splits if_splits prod.splits
      dest!: session_remote4_hands [OF _ assms(2)] session_remote6_hands [OF _ assms(2)])

lemma out_simps [simp]: "w_out (put_session a s w) = w_out w" "w_out (w\<lparr>w_sess := ss\<rparr>) = w_out w"
  "free_session a w = Some w' \<Longrightarrow> w_out w' = w_out w"
  by (auto simp: put_session_def free_session_def)

lemma service_abort_hands: "service_abort c u m w = Some w' \<Longrightarrow> hands I w w' [m_id m]"
  by (auto simp: service_abort_def service_failed_def hands_def split: bind_splits)

lemma service_connect_hands:
  assumes "service_connect e f c u m h t w = Some w'" "in_use e I"
  shows "hands I w w' [m_id m]"
  using assms(1) by (auto simp: service_connect_def Let_def split: bind_splits if_splits
      dest!: service_abort_hands [where I = I] session_init_remote_hands [OF _ assms(2)] al_process_hands [OF _ assms(2)] simp: hands_def)

lemma new_session_out: "new_session g ft w = (r, w') \<Longrightarrow> w_out w' = w_out w"
  by (auto simp: new_session_def al_session_create_def put_session_def Let_def split: option.splits prod.splits)

lemma al_service_hands:
  assumes "al_service e f s m h t w = Some w'" "in_use e I"
  shows "hands I w w' [m_id m]"
  using assms(1) by (auto simp: al_service_def service_failed_def hands_def split: if_splits bind_splits option.splits prod.splits
      dest!: new_session_out service_connect_hands [OF _ assms(2)] al_gslb_process_hands [OF _ assms(2)])

lemma to_owner_hands: "hands I w (to_owner e rc ty m w) [m_id m]"
  by (simp add: to_owner_def hands_def Let_def)

lemma pass_on_hands: "pass_on e fr ty m w = Some w' \<Longrightarrow> in_use e I \<Longrightarrow> hands I w w' [m_id m]"
  using send_to_switch_hands [of e _ "[m]" _ w w' I] by (auto simp: pass_on_def split: if_splits)

lemma al_ip_input_hands:
  assumes "al_ipv4_input e m h t fr ty w = Some w' \<or> al_ipv6_input e m h t fr ty w = Some w'" "in_use e I"
  shows "hands I w w' [m_id m]"
  using assms(1) by (auto simp: al_ipv4_input_def al_ipv6_input_def split: bind_splits if_splits option.splits prod.splits
      intro: to_owner_hands dest: pass_on_hands [OF _ assms(2)] al_service_hands [OF _ assms(2)] al_process_hands [OF _ assms(2)])

text \<open>The frames that al_main_process gives to al_icmp6_proc.\<close>

definition icmp6_frame :: "mbuf \<Rightarrow> bool" where
  "icmp6_frame m \<longleftrightarrow> bswap16 (field (m_data m) eth_ether_type 2) = ETHER_TYPE_IPv6 \<and>
     rte_pktmbuf_pkt_len m \<le> unat (bswap16 (field (m_data m) (SIZEOF_ETH_HDR + ip6_payload_len) 2)) \<and>
     40 \<le> rte_pktmbuf_pkt_len m \<and> field (m_data m) (SIZEOF_ETH_HDR + ip6_proto) 1 = IPPROTO_ICMPV6"

lemma rd_field: "rd off n m = Some x \<Longrightarrow> x = field (m_data m) off n"
  by (simp add: rd_def split: if_splits)

lemma icmp6_learn_stats: "icmp6_learn m = Some (r, es) \<Longrightarrow> es = [] \<or> es = [Incr ll_bad_pkg_len]"
  by (auto simp: icmp6_learn_def Let_def split: bind_splits if_splits)

lemma al_icmp6_proc_hands:
  assumes "al_icmp6_proc e m w = Some w'" "in_use e I"
  shows "hands I w w' [m_id m]"
proof -
  obtain dev learnt es where l: "vport_get (m_port m) = Some dev" "icmp6_learn m = Some (learnt, es)"
    using assms(1) by (auto simp: al_icmp6_proc_def split: bind_splits)
  obtain p w1 where "send_to_switch e p [m] False w1 = Some w'" "w_out w1 = w_out (emit es w)"
    using assms(1) l by (cases learnt) (auto simp: al_icmp6_proc_def Let_def split: bind_splits intro: that)
  then show ?thesis using send_to_switch_hands [of e p "[m]" False w1 w' I] assms(2) icmp6_learn_stats [OF l(2)] by (auto simp: hands_def)
qed

lemma proto_cases: "IPPROTO_ICMPV6 \<noteq> IPPROTO_TCP" "IPPROTO_ICMPV6 \<noteq> IPPROTO_UDP" "ETHER_TYPE_IPv4 \<noteq> ETHER_TYPE_IPv6" "ETHER_TYPE_ARP \<noteq> ETHER_TYPE_IPv6"
  by (simp_all add: IPPROTO_ICMPV6_def IPPROTO_TCP_def IPPROTO_UDP_def ETHER_TYPE_IPv4_def ETHER_TYPE_IPv6_def ETHER_TYPE_ARP_def)

lemma al_ip_input_port_hands:
  assumes "in_use e I"
  shows "al_ipv4_input e (m\<lparr>m_port := p\<rparr>) h t fr ty w = Some w' \<Longrightarrow> hands I w w' [m_id m]"
    and "al_ipv6_input e (m\<lparr>m_port := p\<rparr>) h t fr ty w = Some w' \<Longrightarrow> hands I w w' [m_id m]"
  using al_ip_input_hands [of e "m\<lparr>m_port := p\<rparr>" h t fr ty w w' I] assms by simp_all

lemma main_ipv4_hands:
  assumes "main_ipv4 e p fr ty m w = Some (r, w')" "in_use e I"
  shows "r = None \<and> hands I w w' [m_id m] \<or> r = Some m \<and> hands I w w' []"
  using assms(1) by (auto simp: main_ipv4_def bad_len_def hands_def Let_def split: bind_splits if_splits
      dest!: al_ip_input_port_hands [OF assms(2)])

lemma main_ipv6_hands:
  assumes "main_ipv6 e p fr ty m w = Some (r, w')" "in_use e I" "bswap16 (field (m_data m) eth_ether_type 2) = ETHER_TYPE_IPv6"
  shows "if icmp6_frame m then r = Some m \<and> hands I w w' [m_id m]
    else r = None \<and> hands I w w' [m_id m] \<or> r = Some m \<and> hands I w w' []"
proof (cases "rte_pktmbuf_pkt_len m < 40")
  case True
  then show ?thesis using assms(1) by (auto simp: main_ipv6_def bad_len_def hands_def icmp6_frame_def)
next
  case False
  define pl where "pl = (field (m_data m) (SIZEOF_ETH_HDR + ip6_payload_len) 2 :: u16)"
  define pr where "pr = (field (m_data m) (SIZEOF_ETH_HDR + ip6_proto) 1 :: u8)"
  have pl: "rd (SIZEOF_ETH_HDR + ip6_payload_len) 2 m = Some pl"
    using assms(1) False by (auto simp: main_ipv6_def pl_def rd_def split: if_splits)
  show ?thesis
  proof (cases "unat (bswap16 pl) < rte_pktmbuf_pkt_len m")
    case True
    then show ?thesis using assms(1) False pl by (auto simp: main_ipv6_def bad_len_def hands_def icmp6_frame_def pl_def [symmetric])
  next
    case long: False
    have pr: "rd (SIZEOF_ETH_HDR + ip6_proto) 1 m = Some pr"
      using assms(1) False pl long by (auto simp: main_ipv6_def pr_def rd_def simp del: One_nat_def split: if_splits)
    have fr: "icmp6_frame m \<longleftrightarrow> pr = IPPROTO_ICMPV6" using False long assms(3) by (simp add: icmp6_frame_def pl_def pr_def)
    show ?thesis unfolding fr using assms(1) False pl long pr proto_cases
      by (auto simp: main_ipv6_def simp del: One_nat_def hands_refl split: bind_splits if_splits
          dest!: al_icmp6_proc_hands [OF _ assms(2)] al_ip_input_port_hands [OF assms(2)]) (simp_all add: hands_def)
  qed
qed

lemma main_packet_hands:
  assumes "main_packet e p fr ty m w = Some (r, w')" "in_use e I"
  shows "if icmp6_frame m then r = Some m \<and> hands I w w' [m_id m]
    else r = None \<and> hands I w w' [m_id m] \<or> r = Some m \<and> hands I w w' []"
proof -
  obtain ty' :: u16 where t: "rd eth_ether_type 2 m = Some ty'" using assms(1) by (auto simp: main_packet_def split: bind_splits)
  have f: "ty' = field (m_data m) eth_ether_type 2" by (rule rd_field [OF t])
  consider "bswap16 ty' = ETHER_TYPE_IPv4" | "bswap16 ty' = ETHER_TYPE_IPv6" | "bswap16 ty' \<noteq> ETHER_TYPE_IPv4" "bswap16 ty' \<noteq> ETHER_TYPE_IPv6" by blast
  then show ?thesis
  proof cases
    case 1
    then have "main_ipv4 e p fr ty m w = Some (r, w')" using assms(1) t by (simp add: main_packet_def)
    moreover have "\<not> icmp6_frame m" using 1 f proto_cases by (simp add: icmp6_frame_def)
    ultimately show ?thesis using main_ipv4_hands [OF _ assms(2)] by simp
  next
    case 2
    then have "main_ipv6 e p fr ty m w = Some (r, w')" using assms(1) t proto_cases by (simp add: main_packet_def)
    from main_ipv6_hands [OF this assms(2)] show ?thesis using 2 f by blast
  next
    case 3
    then have "\<not> icmp6_frame m" using f by (simp add: icmp6_frame_def)
    moreover have "r = Some m \<and> w_out w' = w_out w" using 3 assms(1) t by (auto simp: main_packet_def Let_def split: if_splits bind_splits)
    ultimately show ?thesis by simp
  qed
qed

definition new_handed :: "addr set \<Rightarrow> worker \<Rightarrow> worker \<Rightarrow> addr multiset \<Rightarrow> bool" where
  "new_handed I w w' X \<longleftrightarrow> mset (handed I (w_out w')) = mset (handed I (w_out w)) + filter_mset (\<lambda>x. x \<in> I) X"

lemma hands_new: "hands I w w' xs \<Longrightarrow> new_handed I w w' (mset xs)"
  by (simp add: hands_def new_handed_def mset_filter)

lemma new_handed_trans: "new_handed I w w1 X \<Longrightarrow> new_handed I w1 w2 Y \<Longrightarrow> new_handed I w w2 (X + Y)"
  by (simp add: new_handed_def)

lemma main_loop_hands:
  assumes "main_loop e p fr ty ms ob w = Some (out, w')" "in_use e I"
  shows "\<exists>k X. out = ob @ k \<and> new_handed I w w' X \<and> X + mset (map m_id k) = mset (map m_id ms) + mset (map m_id (filter icmp6_frame ms))"
  using assms(1)
proof (induction ms arbitrary: ob w)
  case Nil
  then show ?case by (intro exI [of _ "[]"] exI [of _ "{#}"]) (simp add: new_handed_def)
next
  case (Cons m ms)
  let ?both = "\<lambda>ms. mset (map m_id ms) + mset (map m_id (filter icmp6_frame ms))"
  obtain r w1 where r: "main_packet e p fr ty m w = Some (r, w1)" using Cons.prems by (auto split: bind_splits)
  note h = main_packet_hands [OF r assms(2)]
  show ?case
  proof (cases r)
    case None
    then have "main_loop e p fr ty ms ob w1 = Some (out, w')" using Cons.prems r by simp
    from Cons.IH [OF this] obtain k X where k: "out = ob @ k" "new_handed I w1 w' X" "X + mset (map m_id k) = ?both ms" by blast
    have n: "\<not> icmp6_frame m" "hands I w w1 [m_id m]" using h None by (auto split: if_splits)
    show ?thesis using k n(1) new_handed_trans [OF hands_new [OF n(2)] k(2)] by (intro exI [of _ k] exI [of _ "mset [m_id m] + X"]) simp
  next
    case (Some m')
    let ?Y = "mset (if icmp6_frame m then [m_id m] else [])"
    have m': "m' = m" "new_handed I w w1 ?Y" using h Some by (auto split: if_splits dest: hands_new simp: new_handed_def)
    then have "main_loop e p fr ty ms (ob @ [m]) w1 = Some (out, w')" using Cons.prems r Some by (auto split: if_splits)
    from Cons.IH [OF this] obtain k X where k: "out = ob @ [m] @ k" "new_handed I w1 w' X" "X + mset (map m_id k) = ?both ms" by auto
    have "?Y + X + mset (map m_id ([m] @ k)) = ?Y + {#m_id m#} + (X + mset (map m_id k))" by (simp add: ac_simps)
    also have "\<dots> = ?both (m # ms)" unfolding k(3) by simp
    finally have sum: "?Y + X + mset (map m_id ([m] @ k)) = ?both (m # ms)" .
    show ?thesis by (intro exI [of _ "[m] @ k"] exI [of _ "?Y + X"] conjI k(1) new_handed_trans [OF m'(2) k(2)] sum)
  qed
qed

text \<open>
  C2: al_main_process hands every packet buffer of a burst on exactly once, to a port, to the kernel,
  to another thread or back to the pool, and creates none, apart from ICMPv6 packets it gives to
  al_icmp6_proc: those it hands on twice.
\<close>

theorem main_process_buffers:
  assumes "al_main_process e portid ms from type w = Some (rc, w')" "in_use e (set (map m_id ms))"
  shows "mset (handed (set (map m_id ms)) (w_out w')) =
    mset (handed (set (map m_id ms)) (w_out w)) + mset (map m_id ms) + mset (map m_id (filter icmp6_frame ms))"
proof -
  define I where "I = set (map m_id ms)"
  obtain out w1 w2 where l: "main_loop e portid from type ms [] w = Some (out, w1)"
    and s: "send_to_switch e portid out (type \<noteq> AL_PORT_TYPE_KNI) w1 = Some w2" and o: "w_out w' = w_out w2"
    using assms(1) by (auto simp: al_main_process_def split: bind_splits if_splits intro: that)
  have u: "in_use e I" using assms(2) by (simp add: I_def)
  obtain X where X: "new_handed I w w1 X" "X + mset (map m_id out) = mset (map m_id ms) + mset (map m_id (filter icmp6_frame ms))"
    using main_loop_hands [OF l u] by auto
  have "new_handed I w w2 (mset (map m_id ms) + mset (map m_id (filter icmp6_frame ms)))"
    using new_handed_trans [OF X(1) hands_new [OF send_to_switch_hands [OF s u]]] X(2) by simp
  moreover have "filter_mset (\<lambda>x. x \<in> I) (mset (map m_id ms)) = mset (map m_id ms)"
    "filter_mset (\<lambda>x. x \<in> I) (mset (map m_id (filter icmp6_frame ms))) = mset (map m_id (filter icmp6_frame ms))"
    by (simp_all add: I_def filter_id_conv del: mset_map flip: mset_filter)
  ultimately show ?thesis unfolding I_def [symmetric] by (simp only: new_handed_def o filter_union_mset add.assoc)
qed

text \<open>
  C36: no IPv6 packet is served. The length test of al_main_process is the wrong way round: a packet
  that is at least as long as its IPv6 header says, so every well-formed one, is counted as a
  packet with a bad length and freed.
\<close>

theorem main_drops_ipv6:
  assumes "bswap16 (field (m_data m) eth_ether_type 2) = ETHER_TYPE_IPv6" "54 \<le> length (m_data m)"
    and "54 + unat (bswap16 (field (m_data m) (SIZEOF_ETH_HDR + ip6_payload_len) 2)) \<le> rte_pktmbuf_pkt_len m"
  shows "main_packet e portid from type m w = Some (None, emit [Incr ll_bad_pkg_len, Freed m] w)"
proof -
  have "rd eth_ether_type 2 m = Some (field (m_data m) eth_ether_type 2 :: u16)"
    "rd (SIZEOF_ETH_HDR + ip6_payload_len) 2 m = Some (field (m_data m) (SIZEOF_ETH_HDR + ip6_payload_len) 2 :: u16)"
    using assms(2) by (simp_all add: rd_def hdr_offsets)
  then show ?thesis using assms proto_cases by (simp add: main_packet_def main_ipv6_def bad_len_def)
qed

section \<open>Instances\<close>

text \<open>A neighbour advertisement whose header claims the length given.\<close>

definition nd_frame :: "u8 \<Rightarrow> mbuf" where
  "nd_frame len = (sample_frame 0)\<lparr>m_data := replicate 12 0 @ [0x86, 0xDD] @ [0, 0, 0, 0, len, 32, 58, 0] @ replicate 32 2 @ [136] @ replicate 31 3\<rparr>"

lemma plain_now: "e_now plain_env = 0"
  by (simp add: plain_env_def)

lemma nd_frame_src: "(field (m_data (nd_frame 255)) 22 16 :: u128) \<noteq> 0"
proof -
  have "take 16 (drop 22 (m_data (nd_frame 255))) = 2 # replicate 15 2" by code_simp
  then have "bit (field (m_data (nd_frame 255)) 22 16 :: u128) 1" by (simp add: field_def bit_simps)
  then show ?thesis by auto
qed

theorem main_process_buffers_witness:
  "\<exists>w'. al_main_process plain_env 0 [nd_frame 255] AL_PKT_FROM_NIC 1 idle_worker = Some (0, w') \<and> mset (handed {1} (w_out w')) = {#1, 1#}"
proof -
  let ?m = "nd_frame 255"
  have d: "length (m_data ?m) = 86" "field (m_data ?m) 54 1 = NEIGHBOR_ADVERT" "bswap16 (field (m_data ?m) 12 2) = ETHER_TYPE_IPv6"
    "rte_pktmbuf_pkt_len ?m = 86" "bswap16 (field (m_data ?m) 18 2) = 0xFF20" "field (m_data ?m) 20 1 = IPPROTO_ICMPV6"
    and m: "m_id ?m = 1" "m_port ?m = 0" by code_simp+
  have nd: "nd_packet ?m NEIGHBOR_ADVERT" using d nd_frame_src by (simp add: nd_packet_def)
  obtain st where "ndp_add_entry (Some 8) (field (m_data ?m) 62 16) (field (m_data ?m) 80 6) 0 empty_arp = Some (1, st)"
    using ndp_add_entry_view [OF empty_arp_view] by blast
  then have "\<exists>w1. al_icmp6_proc plain_env ?m idle_worker = Some w1 \<and> w_last w1 = 0"
    using icmp6_learn_nd(2) [OF nd refl] m
    by (simp add: al_icmp6_proc_def emit_def send_to_switch_def burst_def vport_get_def MAX_ETHER_COUTER_def idle_worker_def plain_env_def empty_vports_def)
  then obtain w1 where w1: "al_icmp6_proc plain_env ?m idle_worker = Some w1" "w_last w1 = 0" by blast
  have "main_packet plain_env 0 AL_PKT_FROM_NIC 1 ?m idle_worker = Some (Some ?m, w1)"
    using d w1 proto_cases by (simp add: main_packet_def main_ipv6_def rd_def hdr_offsets del: One_nat_def)
  then obtain w' where w': "al_main_process plain_env 0 [?m] AL_PKT_FROM_NIC 1 idle_worker = Some (0, w')"
    using w1(2) plain_now by (auto simp: al_main_process_def RTE_AL_RX_DESC_DEFAULT_def AL_PORT_TYPE_KNI_def send_plain_kni emit_def)
  have "icmp6_frame ?m" using d by (simp add: icmp6_frame_def hdr_offsets del: One_nat_def)
  moreover have "in_use plain_env (set (map m_id [?m]))" by (simp add: in_use_def plain_env_def)
  ultimately show ?thesis using main_process_buffers [OF w'] w' m by (simp add: idle_worker_def)
qed

theorem main_drops_ipv6_witness:
  "main_packet plain_env 0 AL_PKT_FROM_NIC 1 (nd_frame 0) idle_worker = Some (None, emit [Incr ll_bad_pkg_len, Freed (nd_frame 0)] idle_worker)"
proof (rule main_drops_ipv6)
  show "bswap16 (field (m_data (nd_frame 0)) eth_ether_type 2) = ETHER_TYPE_IPv6" "54 \<le> length (m_data (nd_frame 0))"
    "54 + unat (bswap16 (field (m_data (nd_frame 0)) (SIZEOF_ETH_HDR + ip6_payload_len) 2)) \<le> rte_pktmbuf_pkt_len (nd_frame 0)"
    by code_simp+
qed

end
