(* ===== verification/Translation.thy ===== *)
theory Translation
  imports Input
begin

text \<open>
  The parts together: a connection to a translating service. The first packet makes al_service
  choose a member, a local address and a local port and open two sessions; the theorems follow
  the packet to the member, and the answer back to the client.
\<close>

section \<open>The session of the client\<close>

definition local4 :: "mbuf \<Rightarrow> nat \<Rightarrow> nat \<Rightarrow> u8 \<Rightarrow> session_t \<Rightarrow> session_t" where
  "local4 m h t port s = s\<lparr>s_to_haddr := field (m_data m) eth_d_addr 6, s_from_haddr := field (m_data m) eth_s_addr 6,
     s_remote_addr := set_ipv4 (field (m_data m) (h + ip4_src_addr) 4) (s_remote_addr s),
     s_local_addr := set_ipv4 (field (m_data m) (h + ip4_dst_addr) 4) (s_local_addr s),
     s_in_type := 0, s_proto := field (m_data m) (h + ip4_next_proto_id) 1,
     s_local_port := field (m_data m) (t + tcp_dst_port) 2, s_remote_port := field (m_data m) (t + tcp_src_port) 2, s_portid := port\<rparr>"

definition ip4_ether :: "mbuf \<Rightarrow> bool" where
  "ip4_ether m \<longleftrightarrow> bswap16 (field (m_data m) eth_ether_type 2) = ETHER_TYPE_IPv4"

lemma ip4_packet_reads:
  assumes "ip4_packet h t m"
  shows "rd eth_ether_type 2 m = Some (field (m_data m) eth_ether_type 2 :: u16)"
    "rd eth_d_addr 6 m = Some (field (m_data m) eth_d_addr 6 :: u48)" "rd eth_s_addr 6 m = Some (field (m_data m) eth_s_addr 6 :: u48)"
    "rd (h + ip4_src_addr) 4 m = Some (field (m_data m) (h + ip4_src_addr) 4 :: u32)"
    "rd (h + ip4_dst_addr) 4 m = Some (field (m_data m) (h + ip4_dst_addr) 4 :: u32)"
    "rd (h + ip4_next_proto_id) 1 m = Some (field (m_data m) (h + ip4_next_proto_id) 1 :: u8)"
    "rd (t + tcp_src_port) 2 m = Some (field (m_data m) (t + tcp_src_port) 2 :: u16)"
    "rd (t + tcp_dst_port) 2 m = Some (field (m_data m) (t + tcp_dst_port) 2 :: u16)"
  using assms by (auto simp: ip4_packet_def rd_def hdr_offsets)

lemma session_init_local_ok:
  assumes "ip4_packet h t m" "ip4_ether m" "vport_get (m_port m) = Some i"
  shows "session_init_local m h t vs s = Some (0, local4 m h t (vd_port (v_dev vs i)) s)"
  using assms(2,3) by (simp add: session_init_local_def ip4_packet_reads [OF assms(1)] local4_def ip4_ether_def del: One_nat_def)

section \<open>The session of the member\<close>

text \<open>
  \<open>free_port e S\<close>: there is a local port that no filter covers and no connection uses.
  \<open>reachable\<close>: there is a route to the address over the device \<open>oif\<close> whose next hop is a known
  neighbour, and the device has an address in the subnet.
\<close>

definition free_port :: "env \<Rightarrow> (key4 + key6 \<Rightarrow> u8 list) \<Rightarrow> bool" where
  "free_port e S \<longleftrightarrow> (\<exists>q :: u16. 1 \<le> unat q \<and> unat q \<le> 60000 \<and> (\<forall>a pr. fst (e_filter4 e a (bswap16 q) pr) \<noteq> 0) \<and>
     (\<forall>rip lip rport pr. S (Inl (rip, lip, rport, bswap16 q, pr)) = []))"

definition reachable :: "env \<Rightarrow> vport_state \<Rightarrow> (addr \<Rightarrow> addr list) \<Rightarrow> (u32 + u128 \<rightharpoonup> u16 \<times> u48) \<Rightarrow> u8 \<Rightarrow> u32 \<Rightarrow> bool" where
  "reachable e vs VL v oif ip \<longleftrightarrow> ip \<noteq> 0 \<and>
     (\<forall>x. ipv4 x = ip \<longrightarrow> (\<exists>nh p h. e_router_find e AF_INET x = (0, nh, oif) \<and> v (Inl (ipv4 nh)) = Some (p, h))) \<and>
     (\<exists>b \<in> set (VL (vp4 (unat oif))). in_subnet vs AF_INET (set_ipv4 ip 0) b)"

lemma remote_trans_ok:
  assumes vl: "heap_is (v_lists (w_vports w)) VL" and b: "\<exists>b \<in> set (VL (vp4 i)). in_subnet (w_vports w) AF_INET rip b"
    and nz: "\<forall>b \<in> set (VL (vp4 i)). ipv4 (i_ip (v_ip (w_vports w) b)) \<noteq> 0"
    and S: "port_view (ss_ports (w_sess w)) S" "e_port e w = Some a" "port_fresh a (ss_ports (w_sess w))"
      "unat (p_start (ss_ports (w_sess w))) \<le> 60000" "free_port e S"
    and u: "s_in_type u = 0" "ipv4 (s_remote_addr u) \<noteq> 0"
  shows "\<exists>lip lport ps. remote_trans e i AF_INET rip u w = Some (0, u\<lparr>s_local_addr := lip, s_local_port := lport\<rparr>, with_ports ps w)"
proof -
  let ?f = "\<lambda>a p t. fst (e_filter4 e a p t)"
  have vp: "vp AF_INET i = vp4 i" by (simp add: vp_def)
  obtain ip b where sel: "vport_select_local_ip i (s_local_addr u) AF_INET rip (w_vports w) = Some (0, ip)"
    "b \<in> set (VL (vp4 i))" "ip = i_ip (v_ip (w_vports w) b)"
    using select_local_ip_step [OF vl, of i "s_local_addr u" AF_INET rip] b unfolding vp by auto
  let ?u = "u\<lparr>s_local_addr := ip\<rparr>"
  have "no_wildcard ?u" using u nz sel(2,3) by (simp add: no_wildcard_def)
  from alocate_new_port_step [OF S(1,3,4) this, of ?f "ucast (e_lcore e)"]
  obtain rc s' ps where al: "al_alocate_new_port_with_session ?f (ucast (e_lcore e)) (Some a) ?u (ss_ports (w_sess w)) = Some (rc, s', ps)"
    and rc: "rc = 0 \<longleftrightarrow> (\<exists>q. 1 \<le> unat q \<and> unat q \<le> 60000 \<and> \<not> filtered ?f ?u (bswap16 q) \<and> S (session_key (?u\<lparr>s_local_port := bswap16 q\<rparr>)) = [])"
    and s': "rc = 0 \<longrightarrow> (\<exists>q. s' = ?u\<lparr>s_local_port := bswap16 q\<rparr>)" by blast
  have "rc = 0" unfolding rc using S(5) u(1) by (auto simp: free_port_def filtered_def session_key_def)
  then obtain q where "s' = ?u\<lparr>s_local_port := bswap16 q\<rparr>" using s' by blast
  then show ?thesis using sel(1) al S(2) \<open>rc = 0\<close> by (auto simp: remote_trans_def)
qed

text \<open>What session_init_remote leaves in the session \<open>u\<close> and in the worker.\<close>

definition member_session :: "session_t \<Rightarrow> u8 \<Rightarrow> u32 \<Rightarrow> u16 \<Rightarrow> session_t \<Rightarrow> bool" where
  "member_session u proto ip port us \<longleftrightarrow> s_in_type us = 0 \<and> s_proto us = proto \<and> ipv4 (s_remote_addr us) = ip \<and> s_remote_port us = port \<and>
     s_ftype us = s_ftype u \<and> s_is_dr us = s_is_dr u"

definition same_sessions :: "worker \<Rightarrow> worker \<Rightarrow> bool" where
  "same_sessions w w' \<longleftrightarrow> ss_lists (w_sess w') = ss_lists (w_sess w) \<and> ss_obj (w_sess w') = ss_obj (w_sess w) \<and> w_vports w' = w_vports w"

lemma session_remote4_ok:
  assumes p: "ip4_packet h t m" and ft: "s_ftype u = AL_FLT_SIMPLE_TRANS"
    and vl: "heap_is (v_lists (w_vports w)) VL" "\<exists>b \<in> set (VL (vp4 i)). in_subnet (w_vports w) AF_INET (set_ipv4 ip 0) b"
      "\<forall>b \<in> set (VL (vp4 i)). ipv4 (i_ip (v_ip (w_vports w) b)) \<noteq> 0"
    and S: "port_view (ss_ports (w_sess w)) S" "e_port e w = Some a" "port_fresh a (ss_ports (w_sess w))"
      "unat (p_start (ss_ports (w_sess w))) \<le> 60000" "free_port e S"
    and ip: "ip \<noteq> 0" "ipv4 (a_addr (ma_addr margs)) = ip" and arp: "arp_view (w_arp w) v" "v (Inl (ipv4 nh)) = Some (np, nha)"
  shows "\<exists>us w'. session_remote4 e margs nh i m h t u w = Some (0, us, w') \<and> same_sessions w w' \<and>
    member_session u (field (m_data m) (h + ip4_next_proto_id) 1) ip (ma_port margs) us"
proof -
  let ?pr = "field (m_data m) (h + ip4_next_proto_id) 1 :: u8"
  let ?u = "u\<lparr>s_in_type := 0, s_proto := ?pr, s_remote_addr := set_ipv4 ip (s_remote_addr u), s_remote_port := ma_port margs\<rparr>"
  obtain lip lport ps where tr: "remote_trans e i AF_INET (set_ipv4 ip 0) ?u w = Some (0, ?u\<lparr>s_local_addr := lip, s_local_port := lport\<rparr>, with_ports ps w)"
    using remote_trans_ok [OF vl S, of ?u] ip by auto
  let ?w = "with_ports ps w" and ?u1 = "?u\<lparr>s_local_addr := lip, s_local_port := lport\<rparr>"
  have arp: "arp_search b l (ipv4 nh) d (w_vports ?w) (w_arp ?w) = Some (uint np, Some nha, [])" for b l d
    using arp by (simp add: arp_search_def arp_find_view with_ports_def)
  have "session_remote4 e margs nh i m h t u w = Some (remote_neigh (uint np) (Some nha) i ?u1 ?w)"
    using tr ft ip(2) by (simp add: session_remote4_def ip4_packet_reads [OF p] arp send_frames_def del: One_nat_def)
  then show ?thesis by (simp add: remote_neigh_def same_sessions_def member_session_def with_ports_def)
qed

text \<open>
  \<open>service_ready e f w c u\<close>: the tables of the worker are well-formed, the pools have the sessions
  \<open>c\<close> and \<open>u\<close> and a five-tuple to give, a port is free, the group of the translating service \<open>f\<close> has a
  member, and every member that may be chosen is reachable over IPv4.
\<close>

definition tables_ready :: "env \<Rightarrow> worker \<Rightarrow> addr \<Rightarrow> addr \<Rightarrow> bool" where
  "tables_ready e w c u \<longleftrightarrow> c \<noteq> u \<and> (\<forall>w. e_session1 e w = Some c \<and> e_session2 e w = Some u) \<and>
     (\<exists>L. sess_wf (w_sess w) L) \<and> unlinked c (ss_lists (w_sess w)) \<and> unlinked u (ss_lists (w_sess w))"

definition ports_ready :: "env \<Rightarrow> port_state \<Rightarrow> bool" where
  "ports_ready e ps \<longleftrightarrow> unat (p_start ps) \<le> 60000 \<and> (\<exists>a S. (\<forall>w. e_port e w = Some a) \<and> port_fresh a ps \<and> port_view ps S \<and> free_port e S)"

definition group_ready :: "env \<Rightarrow> al_fargs \<Rightarrow> worker \<Rightarrow> bool" where
  "group_ready e f w \<longleftrightarrow> (\<exists>g GL node VL v oif. group_wf (w_groups w) g GL \<and> g (al_make_key (f_fid f) (f_gid f)) = Some node \<and>
     g_schd (w_groups w) node \<noteq> AL_ALG_GEOIP \<and> cands (g_mem (w_groups w)) GL node \<noteq> [] \<and>
     arp_view (w_arp w) v \<and> heap_is (v_lists (w_vports w)) VL \<and> unat oif < MAX_ETHER_COUTER \<and>
     (\<forall>b \<in> set (VL (vp4 (unat oif))). ipv4 (i_ip (v_ip (w_vports w) b)) \<noteq> 0) \<and>
     (\<forall>r \<in> set (cands (g_mem (w_groups w)) GL node). a_af (m_addr (member_at node (g_mem (w_groups w)) r)) = AF_INET \<and>
        reachable e (w_vports w) VL v oif (ipv4 (a_addr (m_addr (member_at node (g_mem (w_groups w)) r))))))"

definition service_ready :: "env \<Rightarrow> al_fargs \<Rightarrow> worker \<Rightarrow> addr \<Rightarrow> addr \<Rightarrow> bool" where
  "service_ready e f w c u \<longleftrightarrow> f_ftype f = AL_FLT_SIMPLE_TRANS \<and> tables_ready e w c u \<and> ports_ready e (ss_ports (w_sess w)) \<and> group_ready e f w"

text \<open>\<open>serves f gs ip port\<close>: the group of the service has a member with this address and port that is used and up.\<close>

definition serves :: "al_fargs \<Rightarrow> group_state \<Rightarrow> u32 \<Rightarrow> u16 \<Rightarrow> bool" where
  "serves f gs ip port \<longleftrightarrow> (\<exists>g GL node r. group_wf gs g GL \<and> g (al_make_key (f_fid f) (f_gid f)) = Some node \<and> r \<in> set (cands (g_mem gs) GL node) \<and>
     ip = ipv4 (a_addr (m_addr (member_at node (g_mem gs) r))) \<and> port = Member.m_port (member_at node (g_mem gs) r))"

lemma session_init_remote_ok:
  assumes p: "ip4_packet h t m" "ip4_ether m" and ft: "s_ftype u = AL_FLT_SIMPLE_TRANS"
    and S: "ports_ready e (ss_ports (w_sess w))" and G: "group_ready e f w"
  shows "\<exists>us w' ip port. session_init_remote e c (f_fid f) (f_gid f) m h t u w = Some (0, us, w') \<and> same_sessions w w' \<and>
    member_session u (field (m_data m) (h + ip4_next_proto_id) 1) ip port us \<and> serves f (w_groups w) ip port"
proof -
  obtain g GL node VL v oif where g: "group_wf (w_groups w) g GL" "g (al_make_key (f_fid f) (f_gid f)) = Some node"
      "g_schd (w_groups w) node \<noteq> AL_ALG_GEOIP" and cne: "cands (g_mem (w_groups w)) GL node \<noteq> []"
    and v: "arp_view (w_arp w) v" and VL: "heap_is (v_lists (w_vports w)) VL" and oif: "unat oif < MAX_ETHER_COUTER"
    and nz: "\<forall>b \<in> set (VL (vp4 (unat oif))). ipv4 (i_ip (v_ip (w_vports w) b)) \<noteq> 0"
    and reach: "\<And>r. r \<in> set (cands (g_mem (w_groups w)) GL node) \<Longrightarrow> a_af (m_addr (member_at node (g_mem (w_groups w)) r)) = AF_INET \<and>
        reachable e (w_vports w) VL v oif (ipv4 (a_addr (m_addr (member_at node (g_mem (w_groups w)) r))))"
    using G unfolding group_ready_def by blast
  obtain a S where ps: "unat (p_start (ss_ports (w_sess w))) \<le> 60000" "\<And>w. e_port e w = Some a" "port_fresh a (ss_ports (w_sess w))"
    "port_view (ss_ports (w_sess w)) S" "free_port e S"
    using S unfolding ports_ready_def by blast
  obtain margs gs r where lk: "al_member_lookup (f_fid f) (f_gid f) (e_margs e) (w_groups w) = Some (0, margs, gs)"
    and r: "r \<in> set (cands (g_mem (w_groups w)) GL node)" and schd: "ma_schd margs \<noteq> AL_ALG_GEOIP"
    and af: "a_af (ma_addr margs) = AF_INET" and ip: "ipv4 (a_addr (ma_addr margs)) = ipv4 (a_addr (m_addr (member_at node (g_mem (w_groups w)) r)))"
    and pt: "ma_port margs = Member.m_port (member_at node (g_mem (w_groups w)) r)"
    using member_lookup_step [OF g, of "e_margs e"] cne g(3) reach by fastforce
  let ?ip = "ipv4 (a_addr (ma_addr margs))"
  have rc: "reachable e (w_vports w) VL v oif ?ip" using reach [OF r] ip by simp
  then obtain nh np nha where route: "e_router_find e AF_INET (a_addr (ma_addr margs)) = (0, nh, oif)" "v (Inl (ipv4 nh)) = Some (np, nha)"
    unfolding reachable_def by blast
  let ?w = "w\<lparr>w_groups := gs\<rparr>" and ?u = "u\<lparr>s_mid := s_mid c\<rparr>"
  have "\<exists>us w'. session_remote4 e margs nh (unat oif) m h t ?u ?w = Some (0, us, w') \<and> same_sessions ?w w' \<and>
      member_session ?u (field (m_data m) (h + ip4_next_proto_id) 1) ?ip (ma_port margs) us"
    by (rule session_remote4_ok [OF p(1), of ?u ?w VL _ _ S e a _ v _ np nha]) (use ft VL nz rc ps v route(2) in \<open>simp_all add: reachable_def\<close>)
  then obtain us w' where us: "session_remote4 e margs nh (unat oif) m h t ?u ?w = Some (0, us, w')" "same_sessions ?w w'"
      "member_session ?u (field (m_data m) (h + ip4_next_proto_id) 1) ?ip (ma_port margs) us" by blast
  have "session_init_remote e c (f_fid f) (f_gid f) m h t u w = Some (0, us, w')"
    using lk schd af route(1) us(1) p(2) oif by (simp add: session_init_remote_def ip4_packet_reads [OF p(1)] ip4_ether_def vport_get_def)
  moreover have "same_sessions w w'" using us(2) by (simp add: same_sessions_def)
  moreover have "member_session u (field (m_data m) (h + ip4_next_proto_id) 1) ?ip (ma_port margs) us" using us(3) by (simp add: member_session_def)
  moreover have "serves f (w_groups w) ?ip (ma_port margs)" using g(1,2) r ip pt unfolding serves_def by blast
  ultimately show ?thesis by blast
qed

section \<open>Opening the connection\<close>

lemma put_session_simps [simp]:
  "ss_obj (w_sess (put_session a s w)) = (ss_obj (w_sess w))(a := s)" "ss_lists (w_sess (put_session a s w)) = ss_lists (w_sess w)"
  "ss_ports (w_sess (put_session a s w)) = ss_ports (w_sess w)" "w_groups (put_session a s w) = w_groups w"
  "w_vports (put_session a s w) = w_vports w" "w_arp (put_session a s w) = w_arp w"
  by (simp_all add: put_session_def)

lemma ready_put_session [simp]:
  "group_ready e f (put_session a s w) = group_ready e f w"
  by (simp add: group_ready_def)

text \<open>\<open>peers w c u cs us\<close>: the sessions \<open>c\<close> and \<open>u\<close> of the table are each other's peers, with the contents given.\<close>

definition peers :: "sess_state \<Rightarrow> addr \<Rightarrow> addr \<Rightarrow> session_t \<Rightarrow> session_t \<Rightarrow> bool" where
  "peers st c u cs us \<longleftrightarrow> ss_obj st c = cs\<lparr>s_up := Some u\<rparr> \<and> ss_obj st u = us\<lparr>s_up := Some c\<rparr> \<and>
     tcp4_session_get (ipv4 (s_remote_addr us)) (s_remote_port us) (ipv4 (s_local_addr us)) (s_local_port us) (s_proto us) st = Some (Some u) \<and>
     (skey4 cs \<noteq> skey4 us \<longrightarrow>
        tcp4_session_get (ipv4 (s_remote_addr cs)) (s_remote_port cs) (ipv4 (s_local_addr cs)) (s_local_port cs) (s_proto cs) st = Some (Some c))"

lemma add_peers:
  assumes "sess_wf st L" "unlinked c (ss_lists st)" "unlinked u (ss_lists st)" "c \<noteq> u"
    and "ss_obj st c = cs" "ss_obj st u = us" "s_in_type cs = 0" "s_in_type us = 0"
  shows "peers ((al_session_add u (al_session_add c st))\<lparr>ss_obj := (ss_obj st)(c := cs\<lparr>s_up := Some u\<rparr>, u := us\<lparr>s_up := Some c\<rparr>)\<rparr>) c u cs us"
proof -
  have h: "heap_is (ss_lists st) L" using assms(1) by (simp add: sess_wf_def)
  let ?bc = "sbkt4 (skey4 cs)" and ?bu = "sbkt4 (skey4 us)"
  have b: "session_bucket cs = ?bc" "session_bucket us = ?bu" using assms(7,8) by (simp_all add: session_bucket_def)
  let ?L1 = "L(?bc := c # L ?bc)"
  note a1 = al_session_add_heap [OF h assms(2), unfolded assms(5) b]
  have "chain_fresh u ?L1" using unlinked_iff [OF h, of u] assms(3,4) by (auto simp: chain_fresh_def)
  then have "unlinked u (ss_lists (al_session_add c st))" using unlinked_iff [OF a1(1), of u] by simp
  note a2 = al_session_add_heap [OF a1(1) this, unfolded a1(2) assms(6) b]
  let ?L2 = "?L1(?bu := u # ?L1 ?bu)"
  define st' where "st' = (al_session_add u (al_session_add c st))\<lparr>ss_obj := (ss_obj st)(c := cs\<lparr>s_up := Some u\<rparr>, u := us\<lparr>s_up := Some c\<rparr>)\<rparr>"
  have h2: "heap_is (ss_lists st') ?L2" using a2(1) by (simp add: st'_def)
  have o: "ss_obj st' c = cs\<lparr>s_up := Some u\<rparr>" "ss_obj st' u = us\<lparr>s_up := Some c\<rparr>" using assms(4) by (simp_all add: st'_def)
  have k: "skey4 (ss_obj st' c) = skey4 cs" "skey4 (ss_obj st' u) = skey4 us" by (simp_all add: o skey4_def)
  have "found4 st' ?L2 (skey4 us) = Some u" using k by (simp add: chain_map_def chain_stack_def)
  moreover have "found4 st' ?L2 (skey4 cs) = Some c" if "skey4 cs \<noteq> skey4 us"
    using k that by (auto simp: chain_map_def chain_stack_def)
  ultimately show ?thesis unfolding st'_def [symmetric] peers_def using o by (simp add: tcp4_session_get_found [OF h2] skey4_def)
qed

lemma touched_get: "tcp4_session_get a b c d pr (w_sess (touched s w)) = tcp4_session_get a b c d pr (w_sess w)"
proof -
  let ?o = "ss_obj (w_sess w)" and ?o' = "ss_obj (w_sess (touched s w))"
  have "s_local_port (?o' x) = s_local_port (?o x)" "s_remote_port (?o' x) = s_remote_port (?o x)" "s_local_addr (?o' x) = s_local_addr (?o x)"
    "s_remote_addr (?o' x) = s_remote_addr (?o x)" "s_proto (?o' x) = s_proto (?o x)" for x
    by (simp_all add: touched_def)
  moreover have "ss_lists (w_sess (touched s w)) = ss_lists (w_sess w)" by (simp add: touched_def)
  ultimately show ?thesis unfolding tcp4_session_get_def by simp
qed

lemma peers_touched:
  assumes "peers (w_sess w) c u cs us" "c \<noteq> u"
  shows "peers (w_sess (touched c w)) c u (cs\<lparr>s_stout := SESSION_IDLE_TIMEOUT\<rparr>) us"
proof -
  have "skey4 (cs\<lparr>s_stout := SESSION_IDLE_TIMEOUT\<rparr>) = skey4 cs" by (simp add: skey4_def)
  moreover have "ss_obj (w_sess (touched c w)) = (ss_obj (w_sess w))(c := (ss_obj (w_sess w) c)\<lparr>s_stout := SESSION_IDLE_TIMEOUT\<rparr>)" by (simp add: touched_def)
  ultimately show ?thesis using assms unfolding peers_def touched_get by simp
qed

lemma service_connect_ok:
  assumes p: "ip4_packet h t m" "ip4_ether m" "vport_get (m_port m) = Some i" and c: "c \<noteq> u"
    and st: "sess_wf (w_sess w) L" "unlinked c (ss_lists (w_sess w))" "unlinked u (ss_lists (w_sess w))"
    and ft: "s_ftype (ss_obj (w_sess w) u) = AL_FLT_SIMPLE_TRANS" and S: "ports_ready e (ss_ports (w_sess w))" and G: "group_ready e f w"
  shows "\<exists>w1 cs us ip port. service_connect e f c u m h t w = al_process e c m h t w1 \<and> peers (w_sess w1) c u cs us \<and>
    cs = (local4 m h t (vd_port (v_dev (w_vports w) i)) (ss_obj (w_sess w) c))\<lparr>s_fid := f_fid f\<rparr> \<and>
    member_session (ss_obj (w_sess w) u) (field (m_data m) (h + ip4_next_proto_id) 1) ip port us \<and> serves f (w_groups w) ip port"
proof -
  let ?l = "local4 m h t (vd_port (v_dev (w_vports w) i)) (ss_obj (w_sess w) c)"
  let ?w = "put_session u ((ss_obj (w_sess w) u)\<lparr>s_fid := f_fid f\<rparr>) (put_session c ?l w)"
  let ?u = "(ss_obj (w_sess w) u)\<lparr>s_fid := f_fid f\<rparr>"
  obtain us w' ip port where r: "session_init_remote e ?l (f_fid f) (f_gid f) m h t ?u ?w = Some (0, us, w')" "same_sessions ?w w'"
    "member_session ?u (field (m_data m) (h + ip4_next_proto_id) 1) ip port us" "serves f (w_groups ?w) ip port"
    using session_init_remote_ok [OF p(1,2), of ?u e ?w f ?l] ft S G by auto
  let ?cs = "?l\<lparr>s_fid := f_fid f\<rparr>"
  let ?w2 = "put_session c ?cs (put_session u us w')"
  have ob: "ss_obj (w_sess ?w2) c = ?cs" "ss_obj (w_sess ?w2) u = us" using c by simp_all
  have li: "ss_lists (w_sess ?w2) = ss_lists (w_sess w)" using r(2) by (simp add: same_sessions_def)
  have wf: "sess_wf (w_sess ?w2) L"
  proof -
    have h: "heap_is (ss_lists (w_sess w)) L" using st(1) by (simp add: sess_wf_def)
    have "c \<notin> set (L b)" "u \<notin> set (L b)" for b using st(2,3) unlinked_iff [OF h] by (auto simp: chain_fresh_def)
    then have "ss_obj (w_sess ?w2) x = ss_obj (w_sess w) x" if "x \<in> set (L b)" for x b using that r(2) by (auto simp: same_sessions_def)
    then show ?thesis using st(1) unfolding sess_wf_def li by simp
  qed
  have pe: "peers ((al_session_add u (al_session_add c (w_sess ?w2)))\<lparr>ss_obj := (ss_obj (w_sess ?w2))(c := ?cs\<lparr>s_up := Some u\<rparr>, u := us\<lparr>s_up := Some c\<rparr>)\<rparr>) c u ?cs us"
    using wf st(2,3) c ob r(3) by (intro add_peers) (simp_all only: li, simp_all add: member_session_def local4_def)
  have oc: "ss_obj (w_sess w') c = ?l" using r(2) c by (simp add: same_sessions_def)
  let ?w3 = "?w2\<lparr>w_sess := al_session_add u (al_session_add c (w_sess ?w2))\<rparr>"
  have o3: "ss_obj (w_sess ?w3) = ss_obj (w_sess ?w2)" by (simp add: al_session_add_def Let_def)
  let ?w4 = "put_session u (us\<lparr>s_up := Some c\<rparr>) (put_session c (?cs\<lparr>s_up := Some u\<rparr>) ?w3)"
  have "service_connect e f c u m h t w = al_process e c m h t ?w4"
    using c r(1) o3 oc by (simp add: service_connect_def session_init_local_ok [OF p] Let_def)
  moreover have "w_sess ?w4 = (al_session_add u (al_session_add c (w_sess ?w2)))\<lparr>ss_obj := (ss_obj (w_sess ?w2))(c := ?cs\<lparr>s_up := Some u\<rparr>, u := us\<lparr>s_up := Some c\<rparr>)\<rparr>"
    using o3 by (simp add: put_session_def)
  moreover have "member_session (ss_obj (w_sess w) u) (field (m_data m) (h + ip4_next_proto_id) 1) ip port us" "serves f (w_groups w) ip port"
    using r(3,4) by (simp_all add: member_session_def)
  ultimately show ?thesis using pe by (intro exI [of _ ?w4] exI [of _ ?cs] exI [of _ us] exI [of _ ip] exI [of _ port]) (simp only: simp_thms)
qed

lemma al_service_ok:
  assumes p: "ip4_packet h t m" "ip4_ether m" "vport_get (m_port m) = Some i" and r: "service_ready e f w c u"
  shows "\<exists>w1 cs us ip port. al_service e f None m h t w = al_process e c m h t w1 \<and> peers (w_sess w1) c u cs us \<and>
    (\<exists>s. cs = local4 m h t (vd_port (v_dev (w_vports w) i)) s\<lparr>s_fid := f_fid f\<rparr> \<and> s_ftype s = AL_FLT_SIMPLE_TRANS \<and> s_is_dr s = 0) \<and>
    (\<exists>s. member_session s (field (m_data m) (h + ip4_next_proto_id) 1) ip port us \<and> s_ftype s = AL_FLT_SIMPLE_TRANS \<and> s_is_dr s = 0) \<and>
    serves f (w_groups w) ip port"
proof -
  have ft: "f_ftype f = AL_FLT_SIMPLE_TRANS" "f_ftype f \<noteq> AL_FLT_GSLB" and c: "c \<noteq> u"
    and g: "\<And>w. e_session1 e w = Some c" "\<And>w. e_session2 e w = Some u"
    and st: "unlinked c (ss_lists (w_sess w))" "unlinked u (ss_lists (w_sess w))"
    and S: "ports_ready e (ss_ports (w_sess w))" and G: "group_ready e f w"
    using r by (auto simp: service_ready_def tables_ready_def AL_FLT_SIMPLE_TRANS_def AL_FLT_GSLB_def)
  obtain L where L: "sess_wf (w_sess w) L" using r by (auto simp: service_ready_def tables_ready_def)
  let ?n = "\<lambda>isUp s. session_mem_init isUp (s\<lparr>s_port_alloc := 0, s_proto := 0, s_is_dr := 0, s_stout := SESSION_IDLE_TIMEOUT, s_ftype := f_ftype f\<rparr>)"
  let ?w = "w\<lparr>w_sess := (w_sess w)\<lparr>ss_obj := (ss_obj (w_sess w))(c := ?n 0 (ss_obj (w_sess w) c), u := ?n 1 (ss_obj (w_sess w) u))\<rparr>\<rparr>"
  have se: "al_service e f None m h t w = service_connect e f c u m h t ?w"
    using ft(2) c by (simp add: al_service_def new_session_def al_session_create_def g put_session_def fun_upd_twist Let_def)
  have h: "heap_is (ss_lists (w_sess w)) L" using L by (simp add: sess_wf_def)
  have "c \<notin> set (L b)" "u \<notin> set (L b)" for b using st unlinked_iff [OF h] by (auto simp: chain_fresh_def)
  then have wf: "sess_wf (w_sess ?w) L" using L by (fastforce simp: sess_wf_def)
  have G': "group_ready e f ?w" using G by (simp add: group_ready_def)
  have "\<exists>w1 cs us ip port. service_connect e f c u m h t ?w = al_process e c m h t w1 \<and> peers (w_sess w1) c u cs us \<and>
    cs = (local4 m h t (vd_port (v_dev (w_vports ?w) i)) (ss_obj (w_sess ?w) c))\<lparr>s_fid := f_fid f\<rparr> \<and>
    member_session (ss_obj (w_sess ?w) u) (field (m_data m) (h + ip4_next_proto_id) 1) ip port us \<and> serves f (w_groups ?w) ip port"
    by (rule service_connect_ok [OF p c wf _ _ _ _ G']) (use st S ft(1) in \<open>simp_all add: session_mem_init_def\<close>)
  then obtain w1 cs us ip port where x: "service_connect e f c u m h t ?w = al_process e c m h t w1" "peers (w_sess w1) c u cs us"
    "cs = (local4 m h t (vd_port (v_dev (w_vports w) i)) (ss_obj (w_sess ?w) c))\<lparr>s_fid := f_fid f\<rparr>"
    "member_session (ss_obj (w_sess ?w) u) (field (m_data m) (h + ip4_next_proto_id) 1) ip port us" "serves f (w_groups w) ip port" by auto
  have y: "s_ftype (ss_obj (w_sess ?w) c) = AL_FLT_SIMPLE_TRANS" "s_is_dr (ss_obj (w_sess ?w) c) = 0"
    "s_ftype (ss_obj (w_sess ?w) u) = AL_FLT_SIMPLE_TRANS" "s_is_dr (ss_obj (w_sess ?w) u) = 0"
    using ft(1) by (simp_all add: session_mem_init_def)
  show ?thesis unfolding se using x y by blast
qed

section \<open>There and back\<close>

text \<open>The ends of the connection a packet belongs to, as its sender sees them, and as the other side does.\<close>

type_synonym ends = "(u32 \<times> u16) \<times> (u32 \<times> u16) \<times> u8"

definition ends_of :: "nat \<Rightarrow> nat \<Rightarrow> mbuf \<Rightarrow> ends" where
  "ends_of h t m = ((field (m_data m) (h + ip4_src_addr) 4, field (m_data m) (t + tcp_src_port) 2),
     (field (m_data m) (h + ip4_dst_addr) 4, field (m_data m) (t + tcp_dst_port) 2), field (m_data m) (h + ip4_next_proto_id) 1)"

fun swap_ends :: "ends \<Rightarrow> ends" where
  "swap_ends (a, b, pr) = (b, a, pr)"

lemma translated_ends:
  assumes "translated up h t m m'" "ip4_packet h t m"
  shows "ends_of h t m' = ((ipv4 (s_local_addr up), s_local_port up), (ipv4 (s_remote_addr up), s_remote_port up), field (m_data m) (h + ip4_next_proto_id) 1)"
proof -
  have "(field (m_data m') (h + 9) 1 :: u8) = field (m_data m) (h + 9) 1"
    using assms by (intro field_cong) (auto simp: translated_def ip4_packet_def)
  then show ?thesis using assms(1) by (simp add: ends_of_def translated_def ip4_next_proto_id_def)
qed

lemma ipv4_input_session:
  assumes "ip4_packet h t m" "ends_of h t m = ((rip, rport), (lip, lport), pr)" "tcp4_session_get rip rport lip lport pr (w_sess w) = Some (Some s)"
  shows "al_ipv4_input e m h t from type w = al_process e s m h t w"
proof -
  have f: "field (m_data m) (h + ip4_src_addr) 4 = rip" "field (m_data m) (t + tcp_src_port) 2 = rport"
    "field (m_data m) (h + ip4_dst_addr) 4 = lip" "field (m_data m) (t + tcp_dst_port) 2 = lport" "field (m_data m) (h + ip4_next_proto_id) 1 = pr"
    using assms(2) by (simp_all add: ends_of_def)
  show ?thesis unfolding al_ipv4_input_def ip4_packet_reads [OF assms(1)] f using assms(3) by simp
qed

text \<open>
  \<open>returns_answers st u port h t m m'\<close>: with the sessions \<open>st\<close>, every packet that answers \<open>m'\<close> is forwarded
  on \<open>port\<close> as an answer to \<open>m\<close>, to the hardware address \<open>m\<close> came from. \<open>recognises st c h t m\<close>: every
  packet of the connection of \<open>m\<close> is forwarded by the session \<open>c\<close>.
\<close>

definition returns_answers :: "sess_state \<Rightarrow> addr \<Rightarrow> u8 \<Rightarrow> nat \<Rightarrow> nat \<Rightarrow> mbuf \<Rightarrow> mbuf \<Rightarrow> bool" where
  "returns_answers st u port h t m m' \<longleftrightarrow>
     (\<forall>e w m2 h2 t2 from type. w_sess w = st \<longrightarrow> ip4_packet h2 t2 m2 \<longrightarrow> ends_of h2 t2 m2 = swap_ends (ends_of h t m') \<longrightarrow>
       (\<exists>m2' cl. al_ipv4_input e m2 h2 t2 from type w = send_to_switch e port [m2'] False (touched u w) \<and>
          translated cl h2 t2 m2 m2' \<and> ends_of h2 t2 m2' = swap_ends (ends_of h t m) \<and>
          field (m_data m2') eth_d_addr 6 = (field (m_data m) eth_s_addr 6 :: u48)))"

definition recognises :: "sess_state \<Rightarrow> addr \<Rightarrow> nat \<Rightarrow> nat \<Rightarrow> mbuf \<Rightarrow> bool" where
  "recognises st c h t m \<longleftrightarrow>
     (\<forall>e w m2 h2 t2 from type. w_sess w = st \<longrightarrow> ip4_packet h2 t2 m2 \<longrightarrow> ends_of h2 t2 m2 = ends_of h t m \<longrightarrow>
       al_ipv4_input e m2 h2 t2 from type w = al_process e c m2 h2 t2 w)"

lemma peers_return:
  assumes pt: "peers st c u cs us" and pr: "s_proto us = pr" "ipv4 (s_remote_addr us) = ip" "s_remote_port us = p"
    and cs: "cs = (local4 m h t port s)\<lparr>s_fid := fid, s_stout := to\<rparr>" and u: "s_ftype us \<noteq> AL_FLT_LLB" "s_is_dr us = 0"
    and m': "ends_of h t m' = ((ipv4 (s_local_addr us), s_local_port us), (ip, p), pr)" "pr = field (m_data m) (h + ip4_next_proto_id) 1"
  shows "returns_answers st u port h t m m'"
  unfolding returns_answers_def
proof (intro allI impI)
  fix e and w :: worker and m2 :: mbuf and h2 t2 "from" type
  assume w: "w_sess w = st" and p2: "ip4_packet h2 t2 m2" and e2: "ends_of h2 t2 m2 = swap_ends (ends_of h t m')"
  have e2': "ends_of h2 t2 m2 = ((ip, p), (ipv4 (s_local_addr us), s_local_port us), pr)" using e2 m'(1) by simp
  have "tcp4_session_get ip p (ipv4 (s_local_addr us)) (s_local_port us) pr (w_sess w) = Some (Some u)"
    using pt pr unfolding w by (simp add: peers_def)
  note i = ipv4_input_session [OF p2 e2' this]
  have ob: "ss_obj (w_sess w) c = cs\<lparr>s_up := Some u\<rparr>" "ss_obj (w_sess w) u = us\<lparr>s_up := Some c\<rparr>" using pt by (simp_all add: peers_def w)
  let ?cl = "ss_obj (w_sess w) c"
  obtain m2' where m2': "al_process e u m2 h2 t2 w = send_to_switch e (s_portid ?cl) [m2'] False (touched u w)" "translated ?cl h2 t2 m2 m2'"
    by (rule al_process_step [of w u c h2 t2 m2 e]) (use ob cs u p2 in \<open>auto simp: local4_def\<close>)
  have "field (m_data m2) (h2 + ip4_next_proto_id) 1 = pr" using e2' by (simp add: ends_of_def)
  then have "ends_of h2 t2 m2' = swap_ends (ends_of h t m)"
    using translated_ends [OF m2'(2) p2] ob cs m'(2) by (simp add: local4_def ends_of_def)
  moreover have "field (m_data m2') eth_d_addr 6 = (field (m_data m) eth_s_addr 6 :: u48)"
    using m2'(2) ob cs by (simp add: translated_def local4_def)
  moreover have "s_portid ?cl = port" using ob cs by (simp add: local4_def)
  ultimately show "\<exists>m2' cl. al_ipv4_input e m2 h2 t2 from type w = send_to_switch e port [m2'] False (touched u w) \<and>
      translated cl h2 t2 m2 m2' \<and> ends_of h2 t2 m2' = swap_ends (ends_of h t m) \<and>
      field (m_data m2') eth_d_addr 6 = (field (m_data m) eth_s_addr 6 :: u48)"
    using i m2' by metis
qed

lemma peers_recognise:
  assumes "peers st c u cs us" "skey4 cs \<noteq> skey4 us"
    and "ends_of h t m = ((ipv4 (s_remote_addr cs), s_remote_port cs), (ipv4 (s_local_addr cs), s_local_port cs), s_proto cs)"
  shows "recognises st c h t m"
  unfolding recognises_def using assms ipv4_input_session by (simp add: peers_def)

text \<open>
  C1: a connection to a translating service works in both directions. The first packet of a
  client goes out to a member of the service's group that is used and up, with valid checksums
  and with nothing but addresses, ports and checksums changed. Whenever a packet comes back
  that answers it, al_ipv4_input forwards that packet as the answer to what the client has sent:
  from the address and port the client has written to, to the address, port and hardware address
  the client has written from, on the port the client's packet came in on. The next packets of
  the client are found to belong to the connection, too.
\<close>

theorem nat_roundtrip:
  assumes "service_ready e f w c u" "ip4_packet h t m" "ip4_ether m" "vport_get (m_port m) = Some i"
  shows "\<exists>port m' w1 up. al_service e f None m h t w = send_to_switch e port [m'] False w1 \<and> translated up h t m m' \<and>
    (\<exists>ip p. fst (snd (ends_of h t m')) = (ip, p) \<and> serves f (w_groups w) ip p) \<and>
    returns_answers (w_sess w1) u (vd_port (v_dev (w_vports w) i)) h t m m' \<and>
    (ends_of h t m \<noteq> swap_ends (ends_of h t m') \<longrightarrow> recognises (w_sess w1) c h t m)"
proof -
  have cu: "c \<noteq> u" using assms(1) by (simp add: service_ready_def tables_ready_def)
  let ?pr = "field (m_data m) (h + ip4_next_proto_id) 1 :: u8" and ?port = "vd_port (v_dev (w_vports w) i)"
  obtain w0 cs us ip p s s' where sv: "al_service e f None m h t w = al_process e c m h t w0" and pe: "peers (w_sess w0) c u cs us"
    and cs: "cs = (local4 m h t ?port s)\<lparr>s_fid := f_fid f\<rparr>" "s_ftype s = AL_FLT_SIMPLE_TRANS" "s_is_dr s = 0"
    and us: "member_session s' ?pr ip p us" "s_ftype s' = AL_FLT_SIMPLE_TRANS" "s_is_dr s' = 0" and srv: "serves f (w_groups w) ip p"
    using al_service_ok [OF assms(2-4,1)] by blast
  have lt: "AL_FLT_SIMPLE_TRANS \<noteq> AL_FLT_LLB" by (simp add: AL_FLT_SIMPLE_TRANS_def AL_FLT_LLB_def)
  have ob: "ss_obj (w_sess w0) c = cs\<lparr>s_up := Some u\<rparr>" "ss_obj (w_sess w0) u = us\<lparr>s_up := Some c\<rparr>" using pe by (simp_all add: peers_def)
  let ?up = "ss_obj (w_sess w0) u"
  obtain m' where m': "al_process e c m h t w0 = send_to_switch e (s_portid ?up) [m'] False (touched c w0)" "translated ?up h t m m'"
    by (rule al_process_step [of w0 c u h t m e]) (use ob cs us lt assms(2) in \<open>auto simp: local4_def member_session_def\<close>)
  have en: "ends_of h t m' = ((ipv4 (s_local_addr us), s_local_port us), (ip, p), ?pr)"
    using translated_ends [OF m'(2) assms(2)] ob us(1) by (simp add: member_session_def)
  let ?cs = "cs\<lparr>s_stout := SESSION_IDLE_TIMEOUT\<rparr>"
  have pt: "peers (w_sess (touched c w0)) c u ?cs us" by (rule peers_touched [OF pe cu])
  have ec: "ends_of h t m = ((ipv4 (s_remote_addr ?cs), s_remote_port ?cs), (ipv4 (s_local_addr ?cs), s_local_port ?cs), s_proto ?cs)"
    by (simp add: cs(1) local4_def ends_of_def)
  have pr: "s_proto us = ?pr" "ipv4 (s_remote_addr us) = ip" "s_remote_port us = p" using us(1) by (simp_all add: member_session_def)
  have "al_service e f None m h t w = send_to_switch e (s_portid ?up) [m'] False (touched c w0)" using sv m'(1) by simp
  moreover have "\<exists>ip p. fst (snd (ends_of h t m')) = (ip, p) \<and> serves f (w_groups w) ip p" using en srv by simp
  moreover have "returns_answers (w_sess (touched c w0)) u ?port h t m m'"
    by (rule peers_return [OF pt pr, where s = s and fid = "f_fid f" and to = SESSION_IDLE_TIMEOUT]) (use cs(1) us lt en in \<open>simp_all add: member_session_def\<close>)
  moreover have "recognises (w_sess (touched c w0)) c h t m" if "ends_of h t m \<noteq> swap_ends (ends_of h t m')"
    by (rule peers_recognise [OF pt _ ec]) (use that ec en pr in \<open>auto simp: skey4_def\<close>)
  ultimately show ?thesis using m'(2) by blast
qed

section \<open>Instances\<close>

text \<open>A worker with the address 10.0.0.1/24 on port 1, and a group with the member 10.0.0.9:80, whose hardware address is known.\<close>

definition nat_members :: member_state where
  "nat_members = (two_members 0 0)\<lparr>ms_first := (\<lambda>_. \<lparr>c_cnt = 0, c_m = replicate 8 no_member\<rparr>)(0 := \<lparr>c_cnt = 1,
     c_m = no_member\<lparr>m_is_used := True, m_is_up := True, al_member.m_port := 0x5000, m_weight := 1, m_effective_weight := 1,
       m_addr := \<lparr>a_len = 6, a_af = AF_INET, a_addr = 0x0900000A\<rparr>\<rparr> # replicate 7 no_member\<rparr>)\<rparr>"

definition nat_vports :: vport_state where
  "nat_vports = empty_vports\<lparr>v_ip := (v_ip empty_vports)(5 := (v_ip empty_vports 5)\<lparr>i_ip := 0x0100000A, i_mask := 0x00FFFFFF\<rparr>),
     v_lists := hlist_add_head 5 (vp4 1) (v_lists empty_vports)\<rparr>"

definition nat_worker :: "arp_state \<Rightarrow> worker" where
  "nat_worker st = idle_worker\<lparr>w_groups := one_group\<lparr>g_mem := nat_members\<rparr>, w_vports := nat_vports, w_arp := st\<rparr>"

definition nat_service :: al_fargs where "nat_service = \<lparr>f_fid = 1, f_gid = 1, f_ftype = AL_FLT_SIMPLE_TRANS\<rparr>"

lemma nat_group:
  "group_wf (w_groups (nat_worker st)) [al_make_key 1 1 \<mapsto> 0] (\<lambda>_. [])"
  "cands (g_mem (w_groups (nat_worker st))) (\<lambda>_. []) 0 = [(None, 0)]"
  "m_addr (member_at 0 (g_mem (w_groups (nat_worker st))) (None, 0)) = \<lparr>a_len = 6, a_af = AF_INET, a_addr = 0x0900000A\<rparr>"
proof -
  have "mem_wf G nat_members (\<lambda>_. [])" for G
    by (simp add: mem_wf_def cluster_wf_def nat_members_def two_members_def heap_is_empty fun_eq_iff used_replicate used_def no_member_def)
  then show "group_wf (w_groups (nat_worker st)) [al_make_key 1 1 \<mapsto> 0] (\<lambda>_. [])"
    using one_group_wf by (simp add: nat_worker_def group_wf_def)
  show "cands (g_mem (w_groups (nat_worker st))) (\<lambda>_. []) 0 = [(None, 0)]"
    by (simp add: nat_worker_def nat_members_def cands_def slots_def clusters_def member_at_def cluster_def no_member_def upt_rec can_pick_def)
  show "m_addr (member_at 0 (g_mem (w_groups (nat_worker st))) (None, 0)) = \<lparr>a_len = 6, a_af = AF_INET, a_addr = 0x0900000A\<rparr>"
    by (simp add: nat_worker_def nat_members_def member_at_def cluster_def)
qed

lemma nat_ready:
  assumes "arp_view st v" "v (Inl 0x0900000A) = Some (2, 7)"
  shows "service_ready plain_env nat_service (nat_worker st) 5 6"
proof -
  have "tables_ready plain_env (nat_worker st) 5 6"
    using empty_sessions_wf by (auto simp: tables_ready_def plain_env_def nat_worker_def idle_worker_def)
  moreover have "ports_ready plain_env (ss_ports (w_sess (nat_worker st)))"
  proof -
    have "free_port plain_env (\<lambda>_. [])" unfolding free_port_def by (rule exI [of _ 1]) (simp add: plain_env_def)
    moreover have "ss_ports (w_sess (nat_worker st)) = empty_ports 1" by (simp add: nat_worker_def idle_worker_def empty_sessions_def)
    moreover have "unat (p_start (empty_ports 1)) \<le> 60000" by (simp add: empty_ports_def)
    ultimately show ?thesis unfolding ports_ready_def using empty_ports_view(1) [of 1] empty_ports_view(2) [of 7 1] by (intro conjI exI [of _ 7] exI [of _ "\<lambda>_. []"]) (simp_all add: plain_env_def)
  qed
  moreover have "group_ready plain_env nat_service (nat_worker st)"
  proof -
    let ?VL = "(\<lambda>_. [])(vp4 1 := [5])"
    have "heap_is (v_lists (w_vports (nat_worker st))) ?VL"
      using al_add_ip_heap(1) [OF empty_vports_heap, of 5 "vp4 1"] by (simp add: nat_worker_def nat_vports_def)
    moreover have "reachable plain_env (w_vports (nat_worker st)) ?VL v 1 0x0900000A"
      using assms(2) by (simp add: reachable_def plain_env_def in_subnet_def is_same_subnet_def nat_worker_def nat_vports_def) (simp add: ipv4_def)
    moreover have "ipv4 (i_ip (v_ip (w_vports (nat_worker st)) 5)) \<noteq> 0" by (simp add: nat_worker_def nat_vports_def ipv4_def)
    moreover have "arp_view (w_arp (nat_worker st)) v" "g_schd (w_groups (nat_worker st)) 0 \<noteq> AL_ALG_GEOIP"
      using assms(1) by (simp_all add: nat_worker_def one_group_def no_groups_def AL_ALG_RR_def AL_ALG_GEOIP_def)
    ultimately show ?thesis unfolding group_ready_def
      by (intro exI [of _ "[al_make_key 1 1 \<mapsto> 0]"] exI [of _ "\<lambda>_. []"] exI [of _ 0] exI [of _ ?VL] exI [of _ v] exI [of _ 1])
        (simp add: nat_group nat_service_def MAX_ETHER_COUTER_def ipv4_def)
  qed
  ultimately show ?thesis by (simp add: service_ready_def nat_service_def)
qed

theorem nat_roundtrip_witness:
  "\<exists>st port m' w1. al_service plain_env nat_service None (sample_frame 6) 14 34 (nat_worker st) = send_to_switch plain_env port [m'] False w1 \<and>
    sums_ok 14 34 m' \<and> returns_answers (w_sess w1) 6 0 14 34 (sample_frame 6) m'"
proof -
  obtain st where st: "arp_view st (Map.empty(Inl 0x0900000A \<mapsto> (2, 7)))" using arp_add_entry_view [OF empty_arp_view] by blast
  have "service_ready plain_env nat_service (nat_worker st) 5 6" by (rule nat_ready [OF st]) simp
  moreover have "ip4_ether (sample_frame 6)" "vport_get (m_port (sample_frame 6)) = Some 0" by code_simp+
  ultimately show ?thesis
    using nat_roundtrip [OF _ sample_frame_ip4, of plain_env nat_service "nat_worker st" 5 6 6 0]
    by (fastforce simp: translated_def nat_worker_def nat_vports_def empty_vports_def)
qed

end
