(* ===== verification/Spec2Isabelle.thy ===== *)
theory Spec2Isabelle
  imports Ether_Text Macport Ownership Translation
begin

text \<open>
  Verification of the packet path of Aware, a load balancer on top of DPDK (src/alpha).

  \<^bold>\<open>The program.\<close> A worker thread polls its ports. vport_burst_write (al_dev.c) gives the packets of
  a burst, after those that other threads have queued for this one, to al_main_process. That
  function looks at the frame type. ARP frames go to al_arp_input and ICMPv6 packets to
  al_icmp6_proc, which learn neighbours; TCP and UDP packets go to al_ipv4_input or al_ipv6_input
  (al_ip_input.c). There a packet of a known session is given to al_process, which rewrites it for
  the peer session and sends it on; a packet whose five-tuple another thread owns (al_tuple5.c) is
  queued for that thread; a packet that a filter assigns to a service opens a connection in
  al_service; anything else is passed on. al_service makes a session for the client and one for the
  member that is to serve it: al_member.c schedules a member of the group, which is found in a
  red-black tree (al_tree.c); the router gives the next hop; al_vport.c gives a local address in the
  subnet of the member; al_tuple5.c allocates a local port; al_arp.c gives the hardware address. For
  DNS services al_gslb_process looks the name up in an adaptive radix tree (al_dns.c,
  al_radix_tree.c). al_session_timeout ends idle connections.

  \<^bold>\<open>How C is modelled.\<close> Pointers to objects are natural numbers, and each component has a heap: a
  function from addresses to records, or the pointer structure \<open>hheap\<close> of the lists of hlist.h. A C
  function is a HOL function from the state to the state and the results. \<open>None\<close> stands for
  undefined behaviour: a null pointer that is followed, an access outside an array or a packet, a
  store through a pointer that was not set. Result codes are \<open>int\<close>. Machine integers are words of
  their width. An address (ipcs_t) is a 128 bit word, and its member ipv4 the low 32 bits. The
  result of an allocation is an argument, \<open>None\<close> or an address, which theorems assume to be unused.
  Groups, clusters of members and DNS records are freed by the code: the state has the set of those
  that are allocated (\<open>g_alloc\<close>, \<open>ms_alloc\<close>, \<open>d_alloc\<close>), and to free anything else is \<open>None\<close>. Freed memory
  keeps what is in it; the invariants speak of the lists of live heads only (\<open>live\<close>). Locks are left out: every operation is one step.

  \<^bold>\<open>Theories.\<close>
  \<^item> Aware_Prelude: words, byte order, bytes of words, options; the lemmas all theories share.
  \<^item> Chain_Interface: the locale \<open>chain_lists\<close> of what hash tables need of linked lists, and on top
    of it \<open>keyed_table\<close> and \<open>stack_table\<close>, which prove once what insertion, search and deletion in a
    chained hash table do.
  \<^item> Hlist: hlist.h, with nodes that point to the slot that points to them, and the interpretation
    of \<open>chain_lists\<close>. \<open>heap_is hp L\<close> says that the heap holds the lists \<open>L\<close>.
  \<^item> Session_Types, Session: al_session.c, al_session.h. \<open>sess_wf\<close> is the invariant of the table.
  \<^item> Tuple5: al_tuple5.c. \<open>port_view\<close> reads the two tables as a map from five-tuples to owners.
  \<^item> Ip_Addr, Vport: al_ip.c, al_ip.h, al_router.h (the subnet test) and al_vport.c.
  \<^item> Arp: al_arp.c, both neighbour tables and the frames. \<open>arp_view\<close> reads the tables as a map.
  \<^item> Ether_Text: al_ether_aton. Macport: al_macport.c. Chksum: al_chksum.c.
  \<^item> Rbtree, Rbtree_Insert, Rbtree_Delete, Rbtree_Index: al_tree.c. Rotations and the two repair
    loops are shown to implement operations on sorted balanced trees; \<open>key_index\<close> is the locale of
    what the groups use of the tree.
  \<^item> Member, Group: al_member.c. Clusters of members, scheduling, and the tree of the groups.
  \<^item> Art_Node, Art_Kinds, Art, Art_Search, Art_Update, Art_Map: al_radix_tree.c. The locale
    \<open>child_store\<close> is what the tree needs of a node of any of the four sizes; Art_Map reads a tree as
    a map from keys to values.
  \<^item> Worker: packet buffers, the state \<open>worker\<close> of a thread, the surroundings \<open>env\<close>, and
    send_to_switch and kni_burst_write (al_dev.c). What leaves a thread, is freed or is counted is
    appended to a list of events.
  \<^item> Forward: al_process.c. Dns: al_dns.c, al_gslb_process.c. Icmp6: al_icmp.c. Service:
    al_service.c. Input: al_ip_input.c, al_main_process.c and vport_burst_write (al_dev.c).
  \<^item> Ownership: what happens to packet buffers. Translation: what a connection does as a whole.

  \<^bold>\<open>What is shown.\<close> The tables do what their users need: insertion, search and deletion of sessions,
  five-tuples, addresses, neighbours, groups, members and names are related to maps, with every
  other entry unchanged and the invariant kept. What a
  group or a name has allocated is freed with it, once. The port allocation is complete and
  exclusive, from whatever port the search starts. The
  checksum is the one's complement sum for every cut into buffers and every alignment, and what is
  stored verifies. Scheduling picks a member that is used and up, by the weights of the round. A
  packet that is forwarded has the addresses of the peer session, valid checksums and its data; for TCP over IPv4
  the checksums are those a receiver computes from the header and the segment alone. On
  top of all of these, a connection to a translating service works in both directions
  (\<open>nat_roundtrip\<close>), and al_main_process hands every buffer on exactly once (\<open>main_process_buffers\<close>).
  The theorems on what goes wrong state where the code departs from this: the timer pass that
  follows a freed session, requests for hardware addresses without a sender, the overrun of a
  cluster after a deletion, the starvation by wrapped weights, names that are prefixes of each
  other, UDP packets whose data is overwritten, IPv6 packets that are all dropped, ICMPv6 packets
  with two owners, DNS queries that are passed to the kernel with their flags
  exchanged.

  \<^bold>\<open>Loops.\<close> Loops over lists and arrays are structural or have a termination proof by a measure: the
  ports of a round (at most 60000), the bytes of a packet, the threads. Loops over pointers may run
  for ever on a broken heap and are \<open>partial_function (option)\<close>; the theorems show that they return on
  a well-formed one. There is no fuel in the model.

  \<^bold>\<open>Not modelled.\<close> The router (al_router.c, al_radix.c), the filters (al_filter.c) and the locations
  of addresses (al_geoip.c) are fields of \<open>env\<close>: any function may stand for them. The allocator
  (al_slab.c, al_mempool.c) is represented by what it gives out. In al_gslb_process the part after
  the store through margs.data, and in eth_nh_request the part after the test of the buffer, have
  no defined behaviour. The start of the program, its threads and devices, the calls of DPDK that
  read and write ports, logging, packet capture and the printing of tables are input and output.
  The HTTP interface (alpha_api) and the loading of the configuration from its database
  (al_vserver.c, al_slb.c, al_gslb.c) are left out; what they call in the tables is modelled.
\<close>

end
